(* ===== verification/Prelude.thy ===== *)
theory Prelude
  imports Main "HOL-Library.Word"
begin

text \<open>
  Shared vocabulary of the development: the machine types of the simulator, the C++ exception
  classes as values, counting loops, and the generic facts on words, lists and loops that the
  component theories rest on.

  A \<^verbatim>\<open>std::uint64_t\<close> is a \<open>64 word\<close>, a \<^verbatim>\<open>std::uint32_t\<close> a \<open>32 word\<close>.
  A \<^verbatim>\<open>std::size_t\<close> is a natural number; the places where the code compares against
  \<^verbatim>\<open>numeric_limits<size_t>::max()\<close> use \<open>size_max\<close>.  A \<^verbatim>\<open>throw\<close> is
  \<open>Inl\<close> of the class of the exception thrown, a normal return is \<open>Inr\<close>; the message
  texts are not modelled.
\<close>

unbundle bit_operations_syntax

type_synonym u64 = "64 word"
type_synonym u32 = "32 word"

datatype exn = Length_error | Out_of_range | Invalid_argument | Logic_error

type_synonym 'a result = "exn + 'a"

named_theorems plane_simps \<open>bit-level behaviour of the word-plane routines\<close>
named_theorems packed_simps \<open>element-level behaviour of packed values\<close>
named_theorems kernel_simps \<open>element-level behaviour of the single-word operations\<close>

definition size_max :: nat where
  "size_max = 2 ^ 64 - 1"

text \<open>\<open>for_range lo hi body s\<close> is \<^verbatim>\<open>for (i = lo; i < hi; ++i) s = body(i, s)\<close>.\<close>

definition for_range :: "nat \<Rightarrow> nat \<Rightarrow> (nat \<Rightarrow> 's \<Rightarrow> 's) \<Rightarrow> 's \<Rightarrow> 's" where
  "for_range lo hi body s = fold body [lo..<hi] s"

text \<open>\<open>for_down n body s\<close> is \<^verbatim>\<open>for (i = n; i-- > 0;) s = body(i, s)\<close>.\<close>

definition for_down :: "nat \<Rightarrow> (nat \<Rightarrow> 's \<Rightarrow> 's) \<Rightarrow> 's \<Rightarrow> 's" where
  "for_down n body s = fold body (rev [0..<n]) s"

definition bind_result :: "'a result \<Rightarrow> ('a \<Rightarrow> 'b result) \<Rightarrow> 'b result" where
  "bind_result r f = (case r of Inl e \<Rightarrow> Inl e | Inr a \<Rightarrow> f a)"

text \<open>A counting loop whose body may throw: the first exception ends the loop.\<close>

definition for_result :: "nat \<Rightarrow> nat \<Rightarrow> (nat \<Rightarrow> 's \<Rightarrow> 's result) \<Rightarrow> 's \<Rightarrow> 's result" where
  "for_result lo hi body s = for_range lo hi (\<lambda>i r. bind_result r (body i)) (Inr s)"

subsection \<open>Results\<close>

lemma bind_result_simps [simp]:
  "bind_result (Inl e) f = Inl e" "bind_result (Inr a) f = f a"
  by (simp_all add: bind_result_def)

lemma bind_result_eq_Inr:
  "bind_result r f = Inr b \<longleftrightarrow> (\<exists>a. r = Inr a \<and> f a = Inr b)"
  by (cases r) auto

subsection \<open>Loops\<close>

lemma for_range_empty [simp]: "hi \<le> lo \<Longrightarrow> for_range lo hi body s = s"
  by (simp add: for_range_def)

lemma for_range_Suc:
  "lo \<le> hi \<Longrightarrow> for_range lo (Suc hi) body s = body hi (for_range lo hi body s)"
  by (simp add: for_range_def)

lemma for_down_0 [simp]: "for_down 0 body s = s"
  by (simp add: for_down_def)

lemma for_down_Suc: "for_down (Suc n) body s = for_down n body (body n s)"
  by (simp add: for_down_def)

text \<open>The Hoare rule of a counting loop: an invariant indexed by the number of iterations done.\<close>

lemma for_range_invariant:
  assumes "lo \<le> hi" and "P lo s"
    and "\<And>i t. lo \<le> i \<Longrightarrow> i < hi \<Longrightarrow> P i t \<Longrightarrow> P (Suc i) (body i t)"
  shows "P hi (for_range lo hi body s)"
  using assms
proof (induction hi)
  case 0
  then show ?case by simp
next
  case (Suc hi)
  show ?case
  proof (cases "lo = Suc hi")
    case True
    with Suc.prems(2) show ?thesis by simp
  next
    case False
    with Suc.prems(1) have le: "lo \<le> hi" by simp
    with Suc.IH Suc.prems(2,3) have "P hi (for_range lo hi body s)" by simp
    with le Suc.prems(3) show ?thesis by (simp add: for_range_Suc)
  qed
qed

lemma for_range_cong [cong]:
  assumes "lo = lo'" "hi = hi'" "s = s'"
    and "\<And>i t. lo' \<le> i \<Longrightarrow> i < hi' \<Longrightarrow> body i t = body' i t"
  shows "for_range lo hi body s = for_range lo' hi' body' s'"
  unfolding for_range_def assms(1-3) by (rule fold_cong) (auto simp: assms(4))

lemma for_range_extend:
  "lo \<le> mid \<Longrightarrow> mid \<le> hi \<Longrightarrow> for_range lo hi body s = for_range mid hi body (for_range lo mid body s)"
  using upt_add_eq_append [of lo mid "hi - mid"] by (simp add: for_range_def)

lemma for_result_empty [simp]: "hi \<le> lo \<Longrightarrow> for_result lo hi body s = Inr s"
  by (simp add: for_result_def)

lemma for_result_Suc:
  "lo \<le> hi \<Longrightarrow> for_result lo (Suc hi) body s = bind_result (for_result lo hi body s) (body hi)"
  by (simp add: for_result_def for_range_Suc)

lemma for_result_total:
  assumes "\<And>i t. lo \<le> i \<Longrightarrow> i < hi \<Longrightarrow> P t \<Longrightarrow> body i t = Inr (g i t) \<and> P (g i t)" and "P s"
  shows "for_result lo hi body s = Inr (for_range lo hi g s) \<and> P (for_range lo hi g s)"
  using assms(1)
proof (induction hi)
  case 0
  then show ?case using assms(2) by simp
next
  case (Suc hi)
  then have IH: "for_result lo hi body s = Inr (for_range lo hi g s) \<and> P (for_range lo hi g s)"
    by simp
  show ?case
  proof (cases "lo \<le> hi")
    case True
    with IH Suc.prems [of hi] show ?thesis by (simp add: for_result_Suc for_range_Suc)
  next
    case False
    with assms(2) show ?thesis by simp
  qed
qed

text \<open>A loop that fails exactly on the iterations where \<open>f\<close> has no value.\<close>

lemma for_result_option:
  "for_result lo hi (\<lambda>i t. case f i of None \<Rightarrow> Inl e | Some a \<Rightarrow> Inr (g i a t)) s =
    (if \<forall>i\<in>{lo..<hi}. f i \<noteq> None then Inr (for_range lo hi (\<lambda>i. g i (the (f i))) s) else Inl e)"
proof (induction hi)
  case 0
  then show ?case by simp
next
  case (Suc hi)
  show ?case
  proof (cases "lo \<le> hi")
    case True
    then have "{lo..<Suc hi} = insert hi {lo..<hi}" by auto
    with True Suc show ?thesis by (auto simp: for_result_Suc for_range_Suc split: option.split)
  next
    case False
    then show ?thesis by simp
  qed
qed

text \<open>Filling a buffer from the back, as the most-significant-first renderings do.\<close>

lemma for_range_fill_back:
  assumes "length s = n"
  shows "for_range 0 n (\<lambda>i s. s[n - i - 1 := f i]) s = rev (map f [0..<n])" (is "?r = _")
proof -
  define P where "P k t \<longleftrightarrow> length t = n \<and> (\<forall>i<k. t ! (n - i - 1) = f i)" for k t
  have "P n ?r"
    by (rule for_range_invariant) (auto simp: P_def assms nth_list_update less_Suc_eq)
  then have res: "length ?r = n" "\<And>i. i < n \<Longrightarrow> ?r ! (n - i - 1) = f i"
    by (simp_all add: P_def)
  show ?thesis
  proof (rule nth_equalityI)
    fix k
    assume "k < length ?r"
    with res show "?r ! k = rev (map f [0..<n]) ! k"
      using res(2) [of "n - k - 1"] by (simp add: rev_nth)
  qed (use res(1) in simp)
qed

lemma all_rev_nth: "(\<forall>i<length s. P (s ! (length s - i - 1))) \<longleftrightarrow> (\<forall>c\<in>set s. P c)"
proof -
  have "(\<forall>i<length s. P (s ! (length s - i - 1))) \<longleftrightarrow> (\<forall>c\<in>set (rev s). P c)"
    unfolding all_set_conv_all_nth by (simp add: rev_nth)
  then show ?thesis by simp
qed

lemma map_rev_nth: "rev (map (\<lambda>i. f (s ! (length s - i - 1))) [0..<length s]) = map f s"
proof (rule nth_equalityI)
  fix i
  assume "i < length (rev (map (\<lambda>i. f (s ! (length s - i - 1))) [0..<length s]))"
  then have "i < length s" "length s - Suc i < length s" by simp_all
  then show "rev (map (\<lambda>i. f (s ! (length s - i - 1))) [0..<length s]) ! i = map f s ! i"
    by (simp add: rev_nth)
qed simp

subsection \<open>Words\<close>

lemma bit_u64_ge [simp]: "64 \<le> n \<Longrightarrow> \<not> bit (w :: u64) n"
  using bit_imp_le_length by fastforce

lemma word_all_ones_bit [simp]: "bit (- 1 :: u64) n \<longleftrightarrow> n < 64"
  by (simp add: bit_minus_1_iff possible_bit_word)

lemma u64_eqI: "(\<And>n. n < 64 \<Longrightarrow> bit (v :: u64) n = bit w n) \<Longrightarrow> v = w"
  by (rule bit_word_eqI) simp


text \<open>Bit positions split into a word index and a position in the word.\<close>

lemma split64E:
  obtains q r where "n = 64 * q + r" "r < 64" "n div 64 = q" "n mod 64 = (r :: nat)"
  by (metis mod_less_divisor mult_div_mod_eq zero_less_numeral)

lemma div64_eqI:
  assumes "64 * q \<le> i" "i < 64 * q + 64"
  shows "i div 64 = (q :: nat)" "i mod 64 = i - 64 * q"
proof -
  define r where "r = i - 64 * q"
  have "i = r + q * 64" "r < 64" using assms by (simp_all add: r_def)
  then show "i div 64 = q" "i mod 64 = i - 64 * q" by simp_all
qed

end
