(* ===== verification/Plane_Words.thy ===== *)
theory Plane_Words
  imports Prelude
begin

text \<open>
  The word-plane routines at the head of \<^verbatim>\<open>src/runtime/packed_value.cpp\<close>: a plane is a
  sequence of 64-bit words holding one bit per element, element \<open>i\<close> in bit \<open>i mod 64\<close> of word
  \<open>i div 64\<close>.  A \<^verbatim>\<open>span\<close> of words is a list; a routine that writes through a span
  returns the updated list.  Every routine is characterised by what \<open>read_bit\<close> observes after
  it, together with the fact that it touches only words inside the span.
\<close>

subsection \<open>Definitions\<close>

definition words_for :: "nat \<Rightarrow> nat" where
  "words_for width = (width + 64 - 1) div 64"

definition word_count :: "nat \<Rightarrow> nat result" where
  "word_count width =
     (if width > size_max - (64 - 1) then Inl Length_error else Inr (words_for width))"

definition checked_packed_width :: "nat \<Rightarrow> nat result" where
  "checked_packed_width width =
     (let maximum_width = size_max div 4
      in if width > maximum_width then Inl Length_error else Inr width)"

definition check_index :: "nat \<Rightarrow> nat \<Rightarrow> unit result" where
  "check_index index width = (if index \<ge> width then Inl Out_of_range else Inr ())"

definition final_word_mask :: "nat \<Rightarrow> u64" where
  "final_word_mask width =
     (let remainder = width mod 64
      in if remainder = 0 then NOT 0 else push_bit remainder 1 - 1)"

definition mask_last :: "u64 list \<Rightarrow> nat \<Rightarrow> u64 list" where
  "mask_last words width =
     (if words \<noteq> [] then words[length words - 1 := last words AND final_word_mask width] else words)"

definition read_bit :: "u64 list \<Rightarrow> nat \<Rightarrow> bool" where
  "read_bit words index \<longleftrightarrow> drop_bit (index mod 64) (words ! (index div 64)) AND 1 \<noteq> 0"

definition write_bit :: "u64 list \<Rightarrow> nat \<Rightarrow> bool \<Rightarrow> u64 list" where
  "write_bit words index value =
     (let m = push_bit (index mod 64) 1; word = words ! (index div 64)
      in words[index div 64 := if value then word OR m else word AND NOT m])"

definition copy_bit_range :: "u64 list \<Rightarrow> u64 list \<Rightarrow> nat \<Rightarrow> nat \<Rightarrow> u64 list" where
  "copy_bit_range destination source destination_offset width =
     (let range_end = destination_offset + width;
          first_word = destination_offset div 64;
          last_word = (range_end - 1) div 64
      in for_range first_word (Suc last_word)
           (\<lambda>word destination.
             let destination_begin = word * 64;
                 copied_begin = max destination_begin destination_offset;
                 copied_end = min (destination_begin + 64) range_end;
                 copied_width = copied_end - copied_begin;
                 source_begin = copied_begin - destination_offset;
                 source_word = source_begin div 64;
                 source_shift = source_begin mod 64;
                 bits0 = drop_bit source_shift (source ! source_word);
                 bits = (if source_shift \<noteq> 0 \<and> source_word + 1 < length source
                         then bits0 OR push_bit (64 - source_shift) (source ! (source_word + 1))
                         else bits0);
                 copied_mask = (if copied_width = 64 then NOT 0 else push_bit copied_width 1 - 1);
                 destination_shift = copied_begin - destination_begin;
                 destination_mask = push_bit destination_shift copied_mask
             in destination[word := (destination ! word AND NOT destination_mask)
                              OR push_bit destination_shift (bits AND copied_mask)])
           destination)"

definition extract_bit_range :: "u64 list \<Rightarrow> nat \<Rightarrow> u64 list \<Rightarrow> u64 list" where
  "extract_bit_range source source_offset destination =
     (let source_word = source_offset div 64;
          source_shift = source_offset mod 64
      in for_range 0 (length destination)
           (\<lambda>word destination.
             let index = source_word + word;
                 bits0 = drop_bit source_shift (source ! index);
                 bits = (if source_shift \<noteq> 0 \<and> index + 1 < length source
                         then bits0 OR push_bit (64 - source_shift) (source ! (index + 1))
                         else bits0)
             in destination[word := bits])
           destination)"

definition copy_word_range :: "u64 list \<Rightarrow> u64 \<Rightarrow> nat \<Rightarrow> nat \<Rightarrow> u64 list" where
  "copy_word_range destination source0 destination_offset width =
     (let source_mask = final_word_mask width;
          source = source0 AND source_mask;
          first_word = destination_offset div 64;
          shift = destination_offset mod 64
      in if shift = 0
         then destination[first_word := (destination ! first_word AND NOT source_mask) OR source]
         else
           let first_width = min width (64 - shift);
               first_mask = push_bit shift (final_word_mask first_width);
               destination = destination[first_word :=
                 (destination ! first_word AND NOT first_mask)
                   OR (push_bit shift source AND first_mask)]
           in if first_width = width then destination
              else
                let second_width = width - first_width;
                    second_mask = final_word_mask second_width
                in destination[first_word + 1 :=
                     (destination ! (first_word + 1) AND NOT second_mask)
                       OR (drop_bit first_width source AND second_mask)])"

definition read_word_range :: "u64 list \<Rightarrow> nat \<Rightarrow> nat \<Rightarrow> u64" where
  "read_word_range source source_offset width =
     (let first_word = source_offset div 64;
          shift = source_offset mod 64;
          result = drop_bit shift (source ! first_word);
          result = (if shift \<noteq> 0 \<and> shift + width > 64
                    then result OR push_bit (64 - shift) (source ! (first_word + 1))
                    else result)
      in result AND final_word_mask width)"

subsection \<open>Words and masks\<close>

lemma words_for_0 [simp]: "words_for 0 = 0"
  by (simp add: words_for_def)

lemma words_for_eq_0 [simp]: "words_for width = 0 \<longleftrightarrow> width = 0"
  by (auto simp: words_for_def)

lemma words_for_alt: "words_for width = width div 64 + (if width mod 64 = 0 then 0 else 1)"
proof (cases "width mod 64")
  case 0
  then obtain q where "width = 64 * q" by (auto simp: mod_eq_0_iff_dvd)
  then show ?thesis by (simp add: words_for_def div_add1_eq)
next
  case (Suc r)
  define q where "q = width div 64"
  have "r < 64" using mod_less_divisor [of 64 width] Suc by linarith
  have "width = 64 * q + Suc r" by (metis q_def Suc mult_div_mod_eq)
  then have "width + 64 - 1 = r + 64 * (q + 1)" by simp
  then have "words_for width = q + 1"
    using \<open>r < 64\<close> by (simp only: words_for_def) simp
  with Suc show ?thesis by (simp add: q_def)
qed

lemma words_for_single [simp]: "0 < width \<Longrightarrow> width \<le> 64 \<Longrightarrow> words_for width = 1"
  unfolding words_for_def by simp

lemma less_words_for: "i < width \<Longrightarrow> i div 64 < words_for width"
  unfolding words_for_def by simp

lemma words_for_mono: "v \<le> w \<Longrightarrow> words_for v \<le> words_for w"
  by (simp add: words_for_def div_le_mono)

lemma le_words_for: "width \<le> 64 * words_for width"
  using mod_less_divisor [of 64 width] mult_div_mod_eq [of 64 width] unfolding words_for_alt
  by auto

lemma words_for_le: "64 * words_for width < width + 64"
proof -
  obtain q r where "width = 64 * q + r" "width div 64 = q" "width mod 64 = r"
    by (rule split64E)
  then show ?thesis unfolding words_for_alt by auto
qed

lemma bit_low_mask [simp]: "bit (2 ^ k - 1 :: u64) n \<longleftrightarrow> n < k \<and> n < 64"
  using bit_mask_iff [of k n, where ?'a = u64]
  by (auto simp: mask_eq_exp_minus_1 possible_bit_word)

lemma bit_final_word_mask:
  "bit (final_word_mask width) n \<longleftrightarrow> n < 64 \<and> (width mod 64 = 0 \<or> n < width mod 64)"
  by (auto simp: final_word_mask_def Let_def)

lemma bit_final_word_mask_single [simp]:
  "0 < width \<Longrightarrow> width \<le> 64 \<Longrightarrow> bit (final_word_mask width) n \<longleftrightarrow> n < width"
  by (cases "width = 64") (auto simp: bit_final_word_mask)

lemma read_bit_eq_bit: "read_bit words i \<longleftrightarrow> bit (words ! (i div 64)) (i mod 64)"
  by (simp add: read_bit_def and_one_eq bit_iff_odd_drop_bit mod2_eq_if)

lemma bit_nth_eq_read_bit: "n < 64 \<Longrightarrow> bit (words ! k) n \<longleftrightarrow> read_bit words (64 * k + n)"
  by (simp add: read_bit_eq_bit)

text \<open>A plane is determined by its bits.\<close>

lemma plane_eqI:
  assumes "length v = length w"
    and "\<And>i. i < 64 * length w \<Longrightarrow> read_bit v i = read_bit w i"
  shows "v = w"
proof (rule nth_equalityI [OF assms(1)])
  fix k assume "k < length v"
  with assms(1) have "64 * k + n < 64 * length w" if "n < 64" for n
    using that by linarith
  with assms(2) show "v ! k = w ! k"
    by (intro u64_eqI) (simp add: bit_nth_eq_read_bit)
qed


subsection \<open>Single bits\<close>

lemma length_write_bit [simp]: "length (write_bit words i b) = length words"
  by (simp add: write_bit_def Let_def)

lemma read_write_bit [plane_simps]:
  assumes "i div 64 < length words"
  shows "read_bit (write_bit words i b) j \<longleftrightarrow> (if j = i then b else read_bit words j)"
proof (cases "j div 64 = i div 64")
  case True
  then have "j = i \<longleftrightarrow> j mod 64 = i mod 64" by (metis div_mult_mod_eq)
  with True assms show ?thesis
    by (auto simp: read_bit_eq_bit write_bit_def Let_def bit_or_iff bit_and_iff bit_not_iff bit_exp_iff possible_bit_word)
next
  case False
  then show ?thesis by (auto simp: read_bit_eq_bit write_bit_def Let_def)
qed

lemma read_bit_list_update:
  assumes "k < length words"
  shows "read_bit (words[k := w]) j \<longleftrightarrow> (if j div 64 = k then bit w (j mod 64) else read_bit words j)"
  using assms by (simp add: read_bit_eq_bit)

lemma read_bit_replicate [plane_simps]:
  "i < 64 * n \<Longrightarrow> read_bit (replicate n w) i = bit w (i mod 64)"
  by (simp add: read_bit_eq_bit)

lemma length_mask_last [simp]: "length (mask_last words width) = length words"
  by (simp add: mask_last_def)

lemma read_mask_last [plane_simps]:
  assumes "length words = words_for width" and "i < 64 * length words"
  shows "read_bit (mask_last words width) i \<longleftrightarrow> i < width \<and> read_bit words i"
proof (cases words rule: rev_cases)
  case Nil
  with assms show ?thesis by simp
next
  case (snoc ws v)
  define k where "k = length ws"
  obtain q r where w: "width = 64 * q + r" "width div 64 = q" "width mod 64 = r"
    by (rule split64E)
  obtain p n where i: "i = 64 * p + n" "n < 64" "i div 64 = p" "i mod 64 = n"
    by (rule split64E)
  have wk: "Suc k = q + (if r = 0 then 0 else 1)"
    using assms(1) snoc w by (simp add: words_for_alt k_def)
  have pk: "p \<le> k" using assms(2) snoc i by (simp add: k_def)
  have m: "mask_last (ws @ [v]) width = ws @ [v AND final_word_mask width]"
    by (simp add: mask_last_def)
  show ?thesis
  proof (cases "p = k")
    case True
    then have "i < width \<longleftrightarrow> r = 0 \<or> n < r"
      using w(1) i(1,2) wk by (cases "r = 0") auto
    with True i(2) show ?thesis
      unfolding snoc m read_bit_eq_bit i(3,4)
      by (auto simp: k_def nth_append bit_and_iff bit_final_word_mask w(3))
  next
    case False
    with pk have "p < k" by simp
    moreover from this have "i < width" using w(1) i(1,2) wk by (cases "r = 0") auto
    ultimately show ?thesis
      unfolding snoc m read_bit_eq_bit i(3,4) by (simp add: k_def nth_append)
  qed
qed


subsection \<open>Ranges of bits\<close>

lemma bit_drop_u64: "bit (drop_bit k (w :: u64)) n \<longleftrightarrow> bit w (k + n)"
  by (simp add: bit_drop_bit_eq)

lemma bit_push_u64: "bit (push_bit k (w :: u64)) n \<longleftrightarrow> k \<le> n \<and> n < 64 \<and> bit w (n - k)"
  by (auto simp: bit_push_bit_iff possible_bit_word)

lemmas bit_u64_simps = bit_drop_u64 bit_push_u64 bit_and_iff bit_or_iff bit_xor_iff bit_not_iff
  possible_bit_word

text \<open>The two-word window that starts at bit \<open>b\<close> of a plane.\<close>

lemma bit_window:
  assumes "m < 64" and "b + m < 64 * length source"
  shows "bit (if b mod 64 \<noteq> 0 \<and> b div 64 + 1 < length source
              then drop_bit (b mod 64) (source ! (b div 64)) OR push_bit (64 - b mod 64) (source ! (b div 64 + 1))
              else drop_bit (b mod 64) (source ! (b div 64))) m \<longleftrightarrow> read_bit source (b + m)"
proof -
  obtain q r where b: "b = 64 * q + r" "r < 64" "b div 64 = q" "b mod 64 = r"
    by (rule split64E)
  show ?thesis
  proof (cases "r + m < 64")
    case True
    then have "read_bit source (b + m) = bit (source ! q) (r + m)"
      using div64_eqI [of q "b + m"] b(1) by (simp add: read_bit_eq_bit)
    with True show ?thesis unfolding b(3,4) by (auto simp: bit_u64_simps)
  next
    case False
    then have "read_bit source (b + m) = bit (source ! (q + 1)) (m + r - 64)"
      using div64_eqI [of "q + 1" "b + m"] b(1,2) assms(1) by (simp add: read_bit_eq_bit add.commute)
    moreover have "r \<noteq> 0" "q + 1 < length source" using False assms b(1) by auto
    ultimately show ?thesis using False b(2) assms(1) unfolding b(3,4)
      by (auto simp: bit_u64_simps)
  qed
qed

lemma length_copy_bit_range [simp]: "length (copy_bit_range d s off w) = length d"
  unfolding copy_bit_range_def Let_def
  by (rule for_range_invariant [where P = "\<lambda>_ t. length t = length d"]) (auto simp: div_le_mono le_SucI)

lemma bit_width_mask:
  assumes "w \<le> 64" "n < 64"
  shows "bit (if w = 64 then NOT 0 else push_bit w 1 - 1 :: u64) n \<longleftrightarrow> n < w"
  using assms by simp

lemma bit_merge_word:
  assumes "n < 64" "c \<le> 64"
    and "m = (if c = 64 then NOT 0 else push_bit c 1 - 1)"
  shows "bit ((old AND NOT (push_bit s m)) OR push_bit s (bits AND m)) n \<longleftrightarrow>
    (if s \<le> n \<and> n < s + c then bit (bits :: u64) (n - s) else bit old n)"
proof -
  have "bit m k \<longleftrightarrow> k < c" if "k < 64" for k
    using bit_width_mask [OF assms(2) that] assms(3) by simp
  with assms(1) show ?thesis by (auto simp: bit_u64_simps)
qed

lemma bit_merge_masked:
  "n < 64 \<Longrightarrow> bit ((old AND NOT m) OR (v AND m)) n \<longleftrightarrow> (if bit m n then bit (v :: u64) n else bit old n)"
  by (auto simp: bit_u64_simps)

text \<open>One iteration of \<open>copy_bit_range\<close>, on destination word \<open>k\<close>.\<close>

lemma copy_bit_range_step:
  fixes off w k :: nat and s :: "u64 list"
  defines "cb \<equiv> max (k * 64) off" and "ce \<equiv> min (k * 64 + 64) (off + w)"
  defines "bits0 \<equiv> drop_bit ((cb - off) mod 64) (s ! ((cb - off) div 64))"
  defines "bits \<equiv> (if (cb - off) mod 64 \<noteq> 0 \<and> (cb - off) div 64 + 1 < length s
      then bits0 OR push_bit (64 - (cb - off) mod 64) (s ! ((cb - off) div 64 + 1)) else bits0)"
  defines "m \<equiv> (if ce - cb = 64 then NOT 0 else push_bit (ce - cb) 1 - 1)"
  assumes "k < length t" "cb < ce" "w \<le> 64 * length s"
  shows "read_bit (t[k := (t ! k AND NOT (push_bit (cb - k * 64) m)) OR push_bit (cb - k * 64) (bits AND m)]) i
    \<longleftrightarrow> (if i div 64 = k \<and> off \<le> i \<and> i < off + w then read_bit s (i - off) else read_bit t i)"
proof -
  obtain p n where i: "i = 64 * p + n" "n < 64" "i div 64 = p" "i mod 64 = n" by (rule split64E)
  have c: "k * 64 \<le> cb" "ce \<le> k * 64 + 64" "off \<le> cb" "ce \<le> off + w"
    by (auto simp: cb_def ce_def)
  show ?thesis
  proof (cases "p = k")
    case True
    have in_range: "cb \<le> i \<and> i < ce \<longleftrightarrow> off \<le> i \<and> i < off + w"
      using True i by (auto simp: cb_def ce_def)
    have "bit ((t ! k AND NOT (push_bit (cb - k * 64) m)) OR push_bit (cb - k * 64) (bits AND m)) n
        \<longleftrightarrow> (if cb \<le> i \<and> i < ce then bit bits (i - cb) else bit (t ! k) n)"
    proof -
      have "cb - k * 64 \<le> n \<and> n < cb - k * 64 + (ce - cb) \<longleftrightarrow> cb \<le> i \<and> i < ce"
        "n - (cb - k * 64) = i - cb" "ce - cb \<le> 64"
        using c i(1) True \<open>cb < ce\<close> by auto
      then show ?thesis
        using bit_merge_word [OF i(2) _ m_def [THEN meta_eq_to_obj_eq], of "t ! k" "cb - k * 64" bits]
        by simp
    qed
    moreover have "bit bits (i - cb) = read_bit s (i - off)" if "cb \<le> i" "i < ce"
      using bit_window [of "i - cb" "cb - off" s] that c assms(8) i True
      unfolding bits_def bits0_def by simp
    ultimately show ?thesis
      unfolding read_bit_list_update [OF assms(6)] in_range [symmetric] i(3,4)
      using True by (simp add: read_bit_eq_bit [of t] i(3,4))
  next
    case False
    then show ?thesis unfolding read_bit_list_update [OF assms(6)] i(3) by simp
  qed
qed

lemma read_copy_bit_range [plane_simps]:
  assumes "0 < w" "off + w \<le> 64 * length d" "w \<le> 64 * length s"
  shows "read_bit (copy_bit_range d s off w) i \<longleftrightarrow>
    (if off \<le> i \<and> i < off + w then read_bit s (i - off) else read_bit d i)"
proof -
  define P where "P k t \<longleftrightarrow> length t = length d \<and> (\<forall>i. read_bit t i \<longleftrightarrow>
      (if off \<le> i \<and> i < off + w \<and> i < 64 * k then read_bit s (i - off) else read_bit d i))" for k t
  obtain q r where off: "off = 64 * q + r" "r < 64" "off div 64 = q" by (rule split64E)
  obtain q' r' where e: "off + w - 1 = 64 * q' + r'" "r' < 64" "(off + w - 1) div 64 = q'"
    by (rule split64E)
  have qq: "q \<le> q'" using off e assms(1) by simp
  have "P (Suc q') (copy_bit_range d s off w)"
    unfolding copy_bit_range_def Let_def off(3) e(3)
  proof (rule for_range_invariant, goal_cases)
    case 1
    show ?case using qq by simp
  next
    case 2
    show ?case using off by (auto simp: P_def)
  next
    case (3 k t)
    then have len: "k < length t" using e assms by (simp add: P_def)
    have cc: "max (k * 64) off < min (k * 64 + 64) (off + w)" using 3 off e assms(1) by auto
    have next_word: "i < 64 * Suc k \<longleftrightarrow> i div 64 = k \<or> i < 64 * k" for i
    proof -
      obtain p n where i: "i = 64 * p + n" "n < 64" "i div 64 = p" by (rule split64E)
      show ?thesis unfolding i(3) using i(1,2) by auto
    qed
    show ?case
      using 3(3) unfolding P_def copy_bit_range_step [OF len cc assms(3)] length_list_update next_word
      by simp
  qed
  moreover have "i < 64 * Suc q'" if "i < off + w" using that e by simp
  ultimately show ?thesis by (auto simp: P_def)
qed

lemma extract_bit_range_nth:
  assumes "k < length d"
  shows "extract_bit_range s off d ! k =
    (if off mod 64 \<noteq> 0 \<and> off div 64 + k + 1 < length s
     then drop_bit (off mod 64) (s ! (off div 64 + k)) OR push_bit (64 - off mod 64) (s ! (off div 64 + k + 1))
     else drop_bit (off mod 64) (s ! (off div 64 + k)))"
proof -
  define f where "f k = (if off mod 64 \<noteq> 0 \<and> off div 64 + k + 1 < length s
     then drop_bit (off mod 64) (s ! (off div 64 + k)) OR push_bit (64 - off mod 64) (s ! (off div 64 + k + 1))
     else drop_bit (off mod 64) (s ! (off div 64 + k)))" for k
  define P where "P n t \<longleftrightarrow> length t = length d \<and> (\<forall>k<n. t ! k = f k)" for n t
  have "P (length d) (extract_bit_range s off d)"
    unfolding extract_bit_range_def Let_def f_def [symmetric]
    by (rule for_range_invariant) (auto simp: P_def nth_list_update)
  with assms show ?thesis by (simp add: P_def f_def)
qed

lemma length_extract_bit_range [simp]: "length (extract_bit_range s off d) = length d"
  unfolding extract_bit_range_def Let_def
  by (rule for_range_invariant [where P = "\<lambda>_ t. length t = length d"]) auto

lemma read_extract_bit_range [plane_simps]:
  assumes "i < 64 * length d" "off + i < 64 * length s"
  shows "read_bit (extract_bit_range s off d) i \<longleftrightarrow> read_bit s (off + i)"
proof -
  obtain p n where i: "i = 64 * p + n" "n < 64" "i div 64 = p" "i mod 64 = n" by (rule split64E)
  have b: "(off + 64 * p) div 64 = off div 64 + p" "(off + 64 * p) mod 64 = off mod 64" by simp_all
  have "p < length d" using assms(1) i by simp
  then show ?thesis
    using bit_window [of n "off + 64 * p" s] assms(2) i
    unfolding read_bit_eq_bit [of "extract_bit_range s off d"] i(3,4) b
    by (simp add: extract_bit_range_nth add.assoc)
qed

lemma length_copy_word_range [simp]: "length (copy_word_range d v off w) = length d"
  by (simp add: copy_word_range_def Let_def)

lemma read_copy_word_range [plane_simps]:
  assumes "0 < w" "w \<le> 64" "off + w \<le> 64 * length d"
  shows "read_bit (copy_word_range d v off w) i \<longleftrightarrow>
    (if off \<le> i \<and> i < off + w then bit v (i - off) else read_bit d i)"
proof -
  obtain q r where off: "off = 64 * q + r" "r < 64" "off div 64 = q" "off mod 64 = r" by (rule split64E)
  obtain p n where i: "i = 64 * p + n" "n < 64" "i div 64 = p" "i mod 64 = n" by (rule split64E)
  have q: "q < length d" using assms off by simp
  have fits: "q + 1 < length d" if "64 < r + w" using that assms off by simp
  show ?thesis
  proof (cases "r = 0")
    case True
    then show ?thesis
      using i off(1) assms(1,2) q unfolding copy_word_range_def Let_def off(3,4)
      by (cases "p = q") (auto simp: bit_merge_masked read_bit_list_update read_bit_eq_bit bit_and_iff)
  next
    case False
    define d1 where "d1 = d[q := (d ! q AND NOT (push_bit r (final_word_mask (min w (64 - r)))))
      OR (push_bit r (v AND final_word_mask w) AND push_bit r (final_word_mask (min w (64 - r))))]"
    have d1: "read_bit d1 i \<longleftrightarrow>
      (if p = q \<and> off \<le> i \<and> i < off + w then bit v (i - off) else read_bit d i)"
      using i off(1,2) assms(1,2) q False unfolding d1_def
      by (cases "p = q") (auto simp: bit_merge_masked read_bit_list_update read_bit_eq_bit bit_and_iff bit_push_u64)
    show ?thesis
    proof (cases "64 < r + w")
      case True
      then have "copy_word_range d v off w = d1[q + 1 := (d1 ! (q + 1) AND NOT (final_word_mask (w - (64 - r))))
          OR (drop_bit (64 - r) (v AND final_word_mask w) AND final_word_mask (w - (64 - r)))]"
        using False min_absorb2 [of "64 - r" w] True off(2) by (cases "w = 64 - r") (simp_all add: copy_word_range_def Let_def off(3,4) d1_def)
      moreover have "q + 1 < length d1" using fits True by (simp add: d1_def)
      moreover have "p = q + 1 \<Longrightarrow> 64 - r + n = i - off" using i(1) off(1,2) by simp
      ultimately show ?thesis
        using True False d1 i off(1,2) assms(1,2)
        by (cases "p = q + 1") (auto simp: bit_merge_masked read_bit_list_update read_bit_eq_bit bit_and_iff bit_drop_u64)
    next
      case F: False
      then have "copy_word_range d v off w = d1"
        using False min_absorb1 [of w "64 - r"] by (simp add: copy_word_range_def Let_def off(3,4) d1_def)
      with d1 F i off(1) show ?thesis by auto
    qed
  qed
qed

lemma bit_read_word_range [plane_simps]:
  assumes "0 < w" "w \<le> 64" "off + w \<le> 64 * length s"
  shows "bit (read_word_range s off w) n \<longleftrightarrow> n < w \<and> read_bit s (off + n)"
proof (cases "n < w")
  case True
  obtain q r where off: "off = 64 * q + r" "r < 64" "off div 64 = q" "off mod 64 = r" by (rule split64E)
  have "bit (if r \<noteq> 0 \<and> r + w > 64 then drop_bit r (s ! q) OR push_bit (64 - r) (s ! (q + 1))
      else drop_bit r (s ! q)) n \<longleftrightarrow> read_bit s (off + n)"
  proof (cases "r + w > 64")
    case True
    then have "q + 1 < length s" "r \<noteq> 0" using assms off(1) by auto
    with True show ?thesis
      using bit_window [of n off s] \<open>n < w\<close> assms unfolding off(3,4) by simp
  next
    case False
    then have "bit (drop_bit r (s ! q) OR push_bit (64 - r) (s ! (q + 1))) n = bit (drop_bit r (s ! q)) n"
      using \<open>n < w\<close> by (auto simp: bit_u64_simps)
    with False show ?thesis
      using bit_window [of n off s] \<open>n < w\<close> assms unfolding off(3,4)
      by (simp split: if_splits)
  qed
  with True assms(1,2) show ?thesis
    by (simp add: read_word_range_def Let_def off(3,4) bit_and_iff)
next
  case False
  with assms(1,2) show ?thesis by (simp add: read_word_range_def Let_def bit_and_iff)
qed

end
