(* ===== verification/Logic_Values.thy ===== *)
theory Logic_Values
  imports Prelude "HOL-Library.Multiset"
begin

text \<open>
  The scalar value kernels of \<^verbatim>\<open>include/fsim/runtime/logic.hpp\<close>: the four-state type
  \<^verbatim>\<open>Logic4\<close> of Verilog and SystemVerilog, the nine-state type \<^verbatim>\<open>Logic9\<close> of
  IEEE std_logic_1164, their character forms, the conversions between them, the logical tables and
  the driver resolution functions.  A table is a list of rows indexed by the ordinal of the
  enumerator, as in the source.  The branches for an ordinal outside the enumeration have no
  counterpart: a value of the datatype is always an enumerator.
\<close>

datatype logic4 = Zero4 | One4 | X4 | Z4

datatype logic9 = U9 | X9 | Zero9 | One9 | Z9 | W9 | L9 | H9 | DontCare9

primrec logic4_code :: "logic4 \<Rightarrow> nat" where
  "logic4_code Zero4 = 0"
| "logic4_code One4 = 1"
| "logic4_code X4 = 2"
| "logic4_code Z4 = 3"

primrec logic9_code :: "logic9 \<Rightarrow> nat" where
  "logic9_code U9 = 0"
| "logic9_code X9 = 1"
| "logic9_code Zero9 = 2"
| "logic9_code One9 = 3"
| "logic9_code Z9 = 4"
| "logic9_code W9 = 5"
| "logic9_code L9 = 6"
| "logic9_code H9 = 7"
| "logic9_code DontCare9 = 8"

subsection \<open>Characters\<close>

primrec to_char4 :: "logic4 \<Rightarrow> char" where
  "to_char4 Zero4 = CHR ''0''"
| "to_char4 One4 = CHR ''1''"
| "to_char4 X4 = CHR ''X''"
| "to_char4 Z4 = CHR ''Z''"

definition to_char9 :: "logic9 \<Rightarrow> char" where
  "to_char9 value = ''UX01ZWLH-'' ! logic9_code value"

definition parse_logic4 :: "char \<Rightarrow> logic4 option" where
  "parse_logic4 value =
     (if value = CHR ''0'' then Some Zero4
      else if value = CHR ''1'' then Some One4
      else if value = CHR ''x'' \<or> value = CHR ''X'' then Some X4
      else if value = CHR ''z'' \<or> value = CHR ''Z'' then Some Z4
      else None)"

definition parse_logic9 :: "char \<Rightarrow> logic9 option" where
  "parse_logic9 value =
     (if value = CHR ''u'' \<or> value = CHR ''U'' then Some U9
      else if value = CHR ''x'' \<or> value = CHR ''X'' then Some X9
      else if value = CHR ''0'' then Some Zero9
      else if value = CHR ''1'' then Some One9
      else if value = CHR ''z'' \<or> value = CHR ''Z'' then Some Z9
      else if value = CHR ''w'' \<or> value = CHR ''W'' then Some W9
      else if value = CHR ''l'' \<or> value = CHR ''L'' then Some L9
      else if value = CHR ''h'' \<or> value = CHR ''H'' then Some H9
      else if value = CHR ''-'' then Some DontCare9
      else None)"

subsection \<open>Conversions\<close>

primrec to_logic4 :: "logic9 \<Rightarrow> logic4" where
  "to_logic4 Zero9 = Zero4"
| "to_logic4 L9 = Zero4"
| "to_logic4 One9 = One4"
| "to_logic4 H9 = One4"
| "to_logic4 Z9 = Z4"
| "to_logic4 U9 = X4"
| "to_logic4 X9 = X4"
| "to_logic4 W9 = X4"
| "to_logic4 DontCare9 = X4"

primrec to_logic9 :: "logic4 \<Rightarrow> logic9" where
  "to_logic9 Zero4 = Zero9"
| "to_logic9 One4 = One9"
| "to_logic9 X4 = X9"
| "to_logic9 Z4 = Z9"

subsection \<open>Logical operators\<close>

primrec logic_not4 :: "logic4 \<Rightarrow> logic4" where
  "logic_not4 Zero4 = One4"
| "logic_not4 One4 = Zero4"
| "logic_not4 X4 = X4"
| "logic_not4 Z4 = X4"

definition logic_and4 :: "logic4 \<Rightarrow> logic4 \<Rightarrow> logic4" where
  "logic_and4 lhs rhs =
     (if lhs = Zero4 \<or> rhs = Zero4 then Zero4
      else if lhs = One4 \<and> rhs = One4 then One4
      else X4)"

definition logic_or4 :: "logic4 \<Rightarrow> logic4 \<Rightarrow> logic4" where
  "logic_or4 lhs rhs =
     (if lhs = One4 \<or> rhs = One4 then One4
      else if lhs = Zero4 \<and> rhs = Zero4 then Zero4
      else X4)"

definition logic_xor4 :: "logic4 \<Rightarrow> logic4 \<Rightarrow> logic4" where
  "logic_xor4 lhs rhs =
     (let lhs_known = (lhs = Zero4 \<or> lhs = One4);
          rhs_known = (rhs = Zero4 \<or> rhs = One4)
      in if \<not> lhs_known \<or> \<not> rhs_known then X4
         else if lhs = rhs then Zero4 else One4)"

definition logic_not9 :: "logic9 \<Rightarrow> logic9" where
  "logic_not9 value = [U9, X9, One9, Zero9, X9, X9, One9, Zero9, X9] ! logic9_code value"

definition logic_and9 :: "logic9 \<Rightarrow> logic9 \<Rightarrow> logic9" where
  "logic_and9 lhs rhs =
     [[U9, U9, Zero9, U9, U9, U9, Zero9, U9, U9],
      [U9, X9, Zero9, X9, X9, X9, Zero9, X9, X9],
      [Zero9, Zero9, Zero9, Zero9, Zero9, Zero9, Zero9, Zero9, Zero9],
      [U9, X9, Zero9, One9, X9, X9, Zero9, One9, X9],
      [U9, X9, Zero9, X9, X9, X9, Zero9, X9, X9],
      [U9, X9, Zero9, X9, X9, X9, Zero9, X9, X9],
      [Zero9, Zero9, Zero9, Zero9, Zero9, Zero9, Zero9, Zero9, Zero9],
      [U9, X9, Zero9, One9, X9, X9, Zero9, One9, X9],
      [U9, X9, Zero9, X9, X9, X9, Zero9, X9, X9]] ! logic9_code lhs ! logic9_code rhs"

definition logic_or9 :: "logic9 \<Rightarrow> logic9 \<Rightarrow> logic9" where
  "logic_or9 lhs rhs =
     [[U9, U9, U9, One9, U9, U9, U9, One9, U9],
      [U9, X9, X9, One9, X9, X9, X9, One9, X9],
      [U9, X9, Zero9, One9, X9, X9, Zero9, One9, X9],
      [One9, One9, One9, One9, One9, One9, One9, One9, One9],
      [U9, X9, X9, One9, X9, X9, X9, One9, X9],
      [U9, X9, X9, One9, X9, X9, X9, One9, X9],
      [U9, X9, Zero9, One9, X9, X9, Zero9, One9, X9],
      [One9, One9, One9, One9, One9, One9, One9, One9, One9],
      [U9, X9, X9, One9, X9, X9, X9, One9, X9]] ! logic9_code lhs ! logic9_code rhs"

definition logic_xor9 :: "logic9 \<Rightarrow> logic9 \<Rightarrow> logic9" where
  "logic_xor9 lhs rhs =
     [[U9, U9, U9, U9, U9, U9, U9, U9, U9],
      [U9, X9, X9, X9, X9, X9, X9, X9, X9],
      [U9, X9, Zero9, One9, X9, X9, Zero9, One9, X9],
      [U9, X9, One9, Zero9, X9, X9, One9, Zero9, X9],
      [U9, X9, X9, X9, X9, X9, X9, X9, X9],
      [U9, X9, X9, X9, X9, X9, X9, X9, X9],
      [U9, X9, Zero9, One9, X9, X9, Zero9, One9, X9],
      [U9, X9, One9, Zero9, X9, X9, One9, Zero9, X9],
      [U9, X9, X9, X9, X9, X9, X9, X9, X9]] ! logic9_code lhs ! logic9_code rhs"

subsection \<open>Driver resolution\<close>

definition resolve4 :: "logic4 \<Rightarrow> logic4 \<Rightarrow> logic4" where
  "resolve4 lhs rhs =
     (if lhs = Z4 then rhs
      else if rhs = Z4 then lhs
      else if lhs = rhs then lhs
      else X4)"

definition resolve9 :: "logic9 \<Rightarrow> logic9 \<Rightarrow> logic9" where
  "resolve9 lhs rhs =
     [[U9, U9, U9, U9, U9, U9, U9, U9, U9],
      [U9, X9, X9, X9, X9, X9, X9, X9, X9],
      [U9, X9, Zero9, X9, Zero9, Zero9, Zero9, Zero9, X9],
      [U9, X9, X9, One9, One9, One9, One9, One9, X9],
      [U9, X9, Zero9, One9, Z9, W9, L9, H9, X9],
      [U9, X9, Zero9, One9, W9, W9, W9, W9, X9],
      [U9, X9, Zero9, One9, L9, W9, L9, W9, X9],
      [U9, X9, Zero9, One9, H9, W9, W9, H9, X9],
      [U9, X9, X9, X9, X9, X9, X9, X9, X9]] ! logic9_code lhs ! logic9_code rhs"

definition resolve4_drivers :: "logic4 list \<Rightarrow> logic4" where
  "resolve4_drivers drivers = fold (\<lambda>driver result. resolve4 result driver) drivers Z4"

definition resolve9_drivers :: "logic9 list \<Rightarrow> logic9" where
  "resolve9_drivers drivers =
     (if length drivers = 1 then hd drivers
      else fold (\<lambda>driver result. resolve9 result driver) drivers Z9)"


subsection \<open>What resolution promises\<close>

text \<open>
  The value a net takes, as a function of the set of values its drivers supply: the strongest
  drive wins and a conflict between equal strengths is the unknown of that strength.
\<close>

definition resolution4 :: "logic4 set \<Rightarrow> logic4" where
  "resolution4 S =
     (if X4 \<in> S \<or> Zero4 \<in> S \<and> One4 \<in> S then X4
      else if Zero4 \<in> S then Zero4
      else if One4 \<in> S then One4
      else Z4)"

definition resolution9 :: "logic9 set \<Rightarrow> logic9" where
  "resolution9 S =
     (if U9 \<in> S then U9
      else if X9 \<in> S \<or> DontCare9 \<in> S \<or> Zero9 \<in> S \<and> One9 \<in> S then X9
      else if Zero9 \<in> S then Zero9
      else if One9 \<in> S then One9
      else if W9 \<in> S \<or> L9 \<in> S \<and> H9 \<in> S then W9
      else if L9 \<in> S then L9
      else if H9 \<in> S then H9
      else Z9)"

subsection \<open>Operator tables as rewrite rules\<close>

lemmas logic4_ops = logic_and4_def logic_or4_def logic_xor4_def resolve4_def

lemma logic9_code_less [simp]: "logic9_code a < 9"
  by (cases a) simp_all

lemma logic9_code_inject [simp]: "logic9_code a = logic9_code b \<longleftrightarrow> a = b"
  by (cases a; cases b) simp_all

lemma logic_not9_simps [simp]:
  "logic_not9 U9 = U9" "logic_not9 X9 = X9" "logic_not9 Zero9 = One9" "logic_not9 One9 = Zero9"
  "logic_not9 Z9 = X9" "logic_not9 W9 = X9" "logic_not9 L9 = One9" "logic_not9 H9 = Zero9"
  "logic_not9 DontCare9 = X9"
  by (simp_all add: logic_not9_def)

lemma logic_and9_eq:
  "logic_and9 a b =
     (if to_logic4 a = Zero4 \<or> to_logic4 b = Zero4 then Zero9
      else if a = U9 \<or> b = U9 then U9
      else if to_logic4 a = One4 \<and> to_logic4 b = One4 then One9 else X9)"
  by (cases a; cases b) (simp_all add: logic_and9_def)

lemma logic_or9_eq:
  "logic_or9 a b =
     (if to_logic4 a = One4 \<or> to_logic4 b = One4 then One9
      else if a = U9 \<or> b = U9 then U9
      else if to_logic4 a = Zero4 \<and> to_logic4 b = Zero4 then Zero9 else X9)"
  by (cases a; cases b) (simp_all add: logic_or9_def)

lemma logic_xor9_eq:
  "logic_xor9 a b =
     (if a = U9 \<or> b = U9 then U9
      else if to_logic4 a \<in> {X4, Z4} \<or> to_logic4 b \<in> {X4, Z4} then X9
      else if to_logic4 a = to_logic4 b then Zero9 else One9)"
  by (cases a; cases b) (simp_all add: logic_xor9_def)

lemma to_logic4_to_logic9 [simp]: "to_logic4 (to_logic9 a) = a"
  by (cases a) simp_all

lemma to_logic4_not9: "to_logic4 (logic_not9 a) = logic_not4 (to_logic4 a)"
  by (cases a) simp_all

lemma to_logic4_and9: "to_logic4 (logic_and9 a b) = logic_and4 (to_logic4 a) (to_logic4 b)"
  by (cases "to_logic4 a"; cases "to_logic4 b") (auto simp: logic_and9_eq logic4_ops)

lemma to_logic4_or9: "to_logic4 (logic_or9 a b) = logic_or4 (to_logic4 a) (to_logic4 b)"
  by (cases "to_logic4 a"; cases "to_logic4 b") (auto simp: logic_or9_eq logic4_ops)

lemma to_logic4_xor9: "to_logic4 (logic_xor9 a b) = logic_xor4 (to_logic4 a) (to_logic4 b)"
  by (cases "to_logic4 a"; cases "to_logic4 b") (auto simp: logic_xor9_eq logic4_ops)

lemma parse_to_char4: "parse_logic4 (to_char4 a) = Some a"
  by (cases a) (simp_all add: parse_logic4_def)

lemma parse_logic4_domain: "parse_logic4 c \<noteq> None \<longleftrightarrow> c \<in> set ''01xXzZ''"
  by (simp add: parse_logic4_def)

lemma parse_logic9_domain: "parse_logic9 c \<noteq> None \<longleftrightarrow> c \<in> set ''uUxX01zZwWlLhH-''"
  by (simp add: parse_logic9_def)

lemma parse_to_char9: "parse_logic9 (to_char9 b) = Some b"
  by (cases b) (simp_all add: parse_logic9_def to_char9_def)

subsection \<open>Resolution as an interface\<close>

text \<open>
  What a driver loop relies on: the binary resolution function commutes and associates, so the
  order in which drivers are visited does not matter.
\<close>

locale driver_resolution =
  fixes res :: "'a \<Rightarrow> 'a \<Rightarrow> 'a"
  assumes res_commute: "res a b = res b a"
    and res_assoc: "res (res a b) c = res a (res b c)"
begin

lemma res_left_commute: "res a (res b c) = res b (res a c)"
  by (metis res_assoc res_commute)

lemma fold_res_mset:
  assumes "mset xs = mset ys"
  shows "fold (\<lambda>d r. res r d) xs s = fold (\<lambda>d r. res r d) ys s"
  by (rule fold_permuted_eq [where P = "\<lambda>_. True"])
    (simp_all add: assms res_commute res_left_commute)

lemma fold_res_start: "fold (\<lambda>d r. res r d) xs (res s a) = res (fold (\<lambda>d r. res r d) xs s) a"
  by (induction xs arbitrary: s) (simp_all, metis res_assoc res_commute)

end

lemma resolve4_commute: "resolve4 a b = resolve4 b a"
  by (simp add: resolve4_def)

lemma resolve4_assoc: "resolve4 (resolve4 a b) c = resolve4 a (resolve4 b c)"
  by (simp add: resolve4_def)

lemma resolve9_simps [simp]:
  "resolve9 U9 b = U9" "resolve9 a U9 = U9"
  "resolve9 X9 b = (if b = U9 then U9 else X9)"
  "resolve9 DontCare9 b = (if b = U9 then U9 else X9)"
  "resolve9 Zero9 b = (if b = U9 then U9 else if b \<in> {X9, One9, DontCare9} then X9 else Zero9)"
  "resolve9 One9 b = (if b = U9 then U9 else if b \<in> {X9, Zero9, DontCare9} then X9 else One9)"
  "resolve9 Z9 b = (if b = DontCare9 then X9 else b)"
  "resolve9 W9 b = (if b \<in> {Z9, W9, L9, H9} then W9 else if b = DontCare9 then X9 else b)"
  "resolve9 L9 b = (if b \<in> {Z9, L9} then L9 else if b \<in> {W9, H9} then W9 else if b = DontCare9 then X9 else b)"
  "resolve9 H9 b = (if b \<in> {Z9, H9} then H9 else if b \<in> {W9, L9} then W9 else if b = DontCare9 then X9 else b)"
  by (cases b; simp add: resolve9_def) (cases a; simp add: resolve9_def; fail | cases b; simp add: resolve9_def)+

lemma resolve9_commute: "resolve9 a b = resolve9 b a"
  by (cases a; cases b) simp_all

lemma resolution9_insert: "resolution9 (insert a S) = resolve9 a (resolution9 S)"
  by (cases a) (simp_all add: resolution9_def)

lemma resolve9_pair: "resolve9 a b = resolution9 {a, b}"
  by (cases a; cases b) (simp_all add: resolution9_def)

lemma resolve9_assoc: "resolve9 (resolve9 a b) c = resolve9 a (resolve9 b c)"
proof -
  have "resolve9 (resolve9 a b) c = resolve9 c (resolution9 {a, b})"
    by (subst resolve9_commute) (simp only: resolve9_pair)
  also have "\<dots> = resolution9 {c, a, b}" by (rule resolution9_insert [symmetric])
  also have "{c, a, b} = {a, b, c}" by auto
  also have "resolution9 {a, b, c} = resolve9 a (resolution9 {b, c})"
    by (rule resolution9_insert)
  finally show ?thesis by (simp only: resolve9_pair)
qed

lemma to_logic9_resolve4: "to_logic9 (resolve4 c d) = resolve9 (to_logic9 c) (to_logic9 d)"
  by (cases c; cases d) (simp_all add: resolve4_def)

interpretation res4: driver_resolution resolve4
  by unfold_locales (rule resolve4_commute, rule resolve4_assoc)

interpretation res9: driver_resolution resolve9
  by unfold_locales (rule resolve9_commute, rule resolve9_assoc)


lemma resolution4_insert: "resolution4 (insert a S) = resolve4 a (resolution4 S)"
  by (cases a) (simp_all add: resolution4_def resolve4_def)

lemma fold_resolve4: "fold (\<lambda>d r. resolve4 r d) ds Z4 = resolution4 (set ds)"
proof (induction ds rule: rev_induct)
  case Nil
  then show ?case by (simp add: resolution4_def)
next
  case (snoc d ds)
  then show ?case by (simp add: resolution4_insert resolve4_commute)
qed

lemma fold_resolve9: "fold (\<lambda>d r. resolve9 r d) ds Z9 = resolution9 (set ds)"
proof (induction ds rule: rev_induct)
  case Nil
  then show ?case by (simp add: resolution9_def)
next
  case (snoc d ds)
  then show ?case by (simp add: resolution9_insert resolve9_commute)
qed

lemma to_logic9_operators:
  "to_logic9 (logic_not4 c) = logic_not9 (to_logic9 c)"
  "to_logic9 (logic_and4 c d) = logic_and9 (to_logic9 c) (to_logic9 d)"
  "to_logic9 (logic_or4 c d) = logic_or9 (to_logic9 c) (to_logic9 d)"
  "to_logic9 (logic_xor4 c d) = logic_xor9 (to_logic9 c) (to_logic9 d)"
  by (cases c; cases d; simp add: logic_and4_def logic_or4_def logic_xor4_def logic_and9_eq logic_or9_eq logic_xor9_eq)+

subsection \<open>Properties\<close>

text \<open>
  C19: A nine-state net is the same whatever the order in which its drivers are listed.  A single
  driver is passed through unchanged, don't-care included.  In every other case the net is the value
  std_logic_1164 prescribes for the set of driving values: U dominates, then X and don't-care and a
  clash of forcing values, then forcing 0 and 1, then W and a clash of weak values, then L and H,
  and Z only if nothing else drives.
\<close>

theorem resolve9_drivers_spec:
  "(mset ds = mset es \<longrightarrow> resolve9_drivers ds = resolve9_drivers es) \<and>
   resolve9_drivers ds = (case ds of [d] \<Rightarrow> d | _ \<Rightarrow> resolution9 (set ds))"
proof (intro conjI impI)
  assume m: "mset ds = mset es"
  show "resolve9_drivers ds = resolve9_drivers es"
  proof (cases "length ds = 1")
    case True
    then obtain d where "ds = [d]" by (cases ds) auto
    with m show ?thesis by (simp add: resolve9_drivers_def)
  next
    case False
    from m have "length ds = length es" by (rule mset_eq_length)
    with False res9.fold_res_mset [OF m] show ?thesis by (simp add: resolve9_drivers_def)
  qed
next
  show "resolve9_drivers ds = (case ds of [d] \<Rightarrow> d | _ \<Rightarrow> resolution9 (set ds))"
    using fold_resolve9 [of ds] by (auto simp: resolve9_drivers_def split: list.split)
qed

theorem resolve9_drivers_spec_witness:
  "resolve9_drivers [L9, H9, Z9] = resolve9_drivers [Z9, L9, H9] \<and> resolve9_drivers [L9, H9, Z9] = W9 \<and>
   resolve9_drivers [DontCare9] = DontCare9"
  using resolve9_drivers_spec [of "[L9, H9, Z9]" "[Z9, L9, H9]"] resolve9_drivers_spec [of "[DontCare9]" "[DontCare9]"]
  by (auto simp: resolution9_def)

text \<open>
  C20: The conversions between the scalar types at a language boundary respect the operators.
  Collapsing std_logic to four states commutes with negation, conjunction, disjunction and exclusive
  or; expanding four states to nine commutes with the same operators and with resolution, and
  collapsing undoes it.
\<close>

theorem logic_conversion_homomorphism:
  "to_logic4 (logic_not9 a) = logic_not4 (to_logic4 a) \<and>
   to_logic4 (logic_and9 a b) = logic_and4 (to_logic4 a) (to_logic4 b) \<and>
   to_logic4 (logic_or9 a b) = logic_or4 (to_logic4 a) (to_logic4 b) \<and>
   to_logic4 (logic_xor9 a b) = logic_xor4 (to_logic4 a) (to_logic4 b) \<and>
   to_logic9 (logic_not4 c) = logic_not9 (to_logic9 c) \<and>
   to_logic9 (logic_and4 c d) = logic_and9 (to_logic9 c) (to_logic9 d) \<and>
   to_logic9 (logic_or4 c d) = logic_or9 (to_logic9 c) (to_logic9 d) \<and>
   to_logic9 (logic_xor4 c d) = logic_xor9 (to_logic9 c) (to_logic9 d) \<and>
   to_logic9 (resolve4 c d) = resolve9 (to_logic9 c) (to_logic9 d) \<and>
   to_logic4 (to_logic9 c) = c"
  by (simp add: to_logic4_not9 to_logic4_and9 to_logic4_or9 to_logic4_xor9 to_logic9_resolve4 to_logic9_operators to_logic4_to_logic9)

text \<open>
  C21: Printing a scalar and parsing it back gives the scalar, for both types; parsing accepts
  exactly the digits of the type, in either case.
\<close>

theorem logic_char_roundtrip:
  "parse_logic4 (to_char4 a) = Some a \<and> parse_logic9 (to_char9 b) = Some b \<and>
   (parse_logic4 c \<noteq> None \<longleftrightarrow> c \<in> set ''01xXzZ'') \<and>
   (parse_logic9 c \<noteq> None \<longleftrightarrow> c \<in> set ''uUxX01zZwWlLhH-'')"
  by (intro conjI parse_to_char4 parse_to_char9 parse_logic4_domain parse_logic9_domain)

end
