(* ===== verification/Packed_Vectors.thy ===== *)
theory Packed_Vectors
  imports Plane_Words Logic_Values
begin

text \<open>
  The interface of a packed vector (a width, an element reader, an element writer and an
  invariant), and its first two implementations in
  \<^verbatim>\<open>src/runtime/packed_value.cpp\<close>: the two-state \<^verbatim>\<open>PackedBit2\<close> and
  the nine-state \<^verbatim>\<open>PackedLogic9\<close>, which spreads the ordinal of each element over four
  planes.  Loops that write a vector element by element are proved once, in the interface.

  A member function that starts with \<^verbatim>\<open>check_index\<close> has two definitions: the body after
  the check (\<open>bit2_elem\<close>, \<open>bit2_put\<close>, ...), which loops with an index below the width call,
  and the function itself, which returns \<open>Inl Out_of_range\<close> when the check throws.
\<close>

subsection \<open>Two-state vectors\<close>

record packed_bit2 =
  width2 :: nat
  words2 :: "u64 list"

definition bit2_mask_unused_bits :: "packed_bit2 \<Rightarrow> packed_bit2" where
  "bit2_mask_unused_bits v = v\<lparr>words2 := mask_last (words2 v) (width2 v)\<rparr>"

definition PackedBit2 :: "nat \<Rightarrow> bool \<Rightarrow> packed_bit2 result" where
  "PackedBit2 width initial =
     bind_result (word_count width) (\<lambda>count.
       Inr (bit2_mask_unused_bits
         \<lparr>width2 = width, words2 = replicate count (if initial then NOT 0 else 0)\<rparr>))"

definition bit2_elem :: "packed_bit2 \<Rightarrow> nat \<Rightarrow> bool" where
  "bit2_elem v index = read_bit (words2 v) index"

definition bit2_get :: "packed_bit2 \<Rightarrow> nat \<Rightarrow> bool result" where
  "bit2_get v index = bind_result (check_index index (width2 v)) (\<lambda>_. Inr (bit2_elem v index))"

definition bit2_put :: "packed_bit2 \<Rightarrow> nat \<Rightarrow> bool \<Rightarrow> packed_bit2" where
  "bit2_put v index value = v\<lparr>words2 := write_bit (words2 v) index value\<rparr>"

definition bit2_set :: "packed_bit2 \<Rightarrow> nat \<Rightarrow> bool \<Rightarrow> packed_bit2 result" where
  "bit2_set v index value =
     bind_result (check_index index (width2 v)) (\<lambda>_. Inr (bit2_put v index value))"

definition bit2_fill :: "packed_bit2 \<Rightarrow> bool \<Rightarrow> packed_bit2" where
  "bit2_fill v value =
     bit2_mask_unused_bits (v\<lparr>words2 := replicate (length (words2 v)) (if value then NOT 0 else 0)\<rparr>)"

definition bit2_from_msb_string :: "string \<Rightarrow> packed_bit2 result" where
  "bit2_from_msb_string value =
     bind_result (PackedBit2 (length value) False) (\<lambda>result.
       for_result 0 (length value) (\<lambda>offset result.
         let character = value ! (length value - offset - 1)
         in if character \<noteq> CHR ''0'' \<and> character \<noteq> CHR ''1'' then Inl Invalid_argument
            else bit2_set result offset (character = CHR ''1'')) result)"

definition bit2_to_msb_string :: "packed_bit2 \<Rightarrow> string" where
  "bit2_to_msb_string v =
     for_range 0 (width2 v) (\<lambda>index result.
       result[width2 v - index - 1 := if bit2_elem v index then CHR ''1'' else CHR ''0''])
     (replicate (width2 v) CHR ''0'')"

subsection \<open>Nine-state vectors\<close>

definition canonical_logic9_value :: "logic9 \<Rightarrow> logic9" where
  "canonical_logic9_value value = (if logic9_code value \<le> logic9_code DontCare9 then value else X9)"

text \<open>\<^verbatim>\<open>((encoded >> plane) & 1U) != 0\<close> for the ordinal of a value.\<close>

definition encoded_bit :: "logic9 \<Rightarrow> nat \<Rightarrow> bool" where
  "encoded_bit value plane \<longleftrightarrow> drop_bit plane (logic9_code value) AND 1 \<noteq> 0"

text \<open>\<^verbatim>\<open>static_cast<Logic9>(encoded)\<close> for an ordinal of the enumeration, X otherwise.\<close>

definition logic9_of_code :: "nat \<Rightarrow> logic9" where
  "logic9_of_code encoded =
     (if encoded \<le> logic9_code DontCare9
      then [U9, X9, Zero9, One9, Z9, W9, L9, H9, DontCare9] ! encoded else X9)"

text \<open>Gathering one bit of each of the four planes into an ordinal.\<close>

definition gather_code :: "(nat \<Rightarrow> bool) \<Rightarrow> nat" where
  "gather_code bit_of_plane =
     for_range 0 4 (\<lambda>plane encoded. encoded OR push_bit plane (of_bool (bit_of_plane plane))) 0"

record packed_logic9 =
  width9 :: nat
  planes9 :: "u64 list list"

definition logic9_mask_unused_bits :: "packed_logic9 \<Rightarrow> packed_logic9" where
  "logic9_mask_unused_bits v = v\<lparr>planes9 := map (\<lambda>plane. mask_last plane (width9 v)) (planes9 v)\<rparr>"

definition logic9_fill :: "packed_logic9 \<Rightarrow> logic9 \<Rightarrow> packed_logic9" where
  "logic9_fill v value =
     logic9_mask_unused_bits (for_range 0 4 (\<lambda>plane v.
       v\<lparr>planes9 := (planes9 v)[plane := replicate (length (planes9 v ! plane))
         (if encoded_bit (canonical_logic9_value value) plane then NOT 0 else 0)]\<rparr>) v)"

definition PackedLogic9 :: "nat \<Rightarrow> logic9 \<Rightarrow> packed_logic9 result" where
  "PackedLogic9 width initial =
     bind_result (word_count width) (\<lambda>count.
       Inr (logic9_fill \<lparr>width9 = width, planes9 = replicate 4 (replicate count 0)\<rparr> initial))"

definition logic9_elem :: "packed_logic9 \<Rightarrow> nat \<Rightarrow> logic9" where
  "logic9_elem v index = logic9_of_code (gather_code (\<lambda>plane. read_bit (planes9 v ! plane) index))"

definition logic9_get :: "packed_logic9 \<Rightarrow> nat \<Rightarrow> logic9 result" where
  "logic9_get v index =
     bind_result (check_index index (width9 v)) (\<lambda>_. Inr (logic9_elem v index))"

definition logic9_put :: "packed_logic9 \<Rightarrow> nat \<Rightarrow> logic9 \<Rightarrow> packed_logic9" where
  "logic9_put v index value =
     for_range 0 4 (\<lambda>plane v. v\<lparr>planes9 := (planes9 v)[plane :=
       write_bit (planes9 v ! plane) index (encoded_bit (canonical_logic9_value value) plane)]\<rparr>) v"

definition logic9_set :: "packed_logic9 \<Rightarrow> nat \<Rightarrow> logic9 \<Rightarrow> packed_logic9 result" where
  "logic9_set v index value =
     bind_result (check_index index (width9 v)) (\<lambda>_. Inr (logic9_put v index value))"

definition logic9_from_msb_string :: "string \<Rightarrow> packed_logic9 result" where
  "logic9_from_msb_string value =
     bind_result (PackedLogic9 (length value) U9) (\<lambda>result.
       for_result 0 (length value) (\<lambda>offset result.
         case parse_logic9 (value ! (length value - offset - 1)) of
           None \<Rightarrow> Inl Invalid_argument
         | Some parsed \<Rightarrow> logic9_set result offset parsed) result)"

definition logic9_plane_at :: "packed_logic9 \<Rightarrow> nat \<Rightarrow> u64 list result" where
  "logic9_plane_at v index =
     (if index \<ge> length (planes9 v) then Inl Out_of_range else Inr (planes9 v ! index))"

definition logic9_to_msb_string :: "packed_logic9 \<Rightarrow> string" where
  "logic9_to_msb_string v =
     for_range 0 (width9 v) (\<lambda>index result.
       result[width9 v - index - 1 := to_char9 (logic9_elem v index)])
     (replicate (width9 v) CHR ''U'')"

definition logic9_resolve :: "packed_logic9 list \<Rightarrow> packed_logic9 result" where
  "logic9_resolve drivers =
     (if drivers = [] then PackedLogic9 0 U9
      else if length drivers = 1 then Inr (hd drivers)
      else
        let width = width9 (hd drivers)
        in bind_result (PackedLogic9 width Z9) (\<lambda>result.
          for_result 0 (length drivers) (\<lambda>d result.
            let driver = drivers ! d
            in if width9 driver \<noteq> width then Inl Invalid_argument
               else Inr (for_range 0 width (\<lambda>index result.
                      logic9_put result index
                        (resolve9 (logic9_elem result index) (logic9_elem driver index)))
                    result))
          result))"

subsection \<open>Invariants\<close>

text \<open>A plane has the words its width needs and the bits beyond the width are clear.\<close>

definition plane_ok :: "nat \<Rightarrow> u64 list \<Rightarrow> bool" where
  "plane_ok width ws \<longleftrightarrow> length ws = words_for width \<and>
     (\<forall>i\<in>{width..<64 * length ws}. \<not> read_bit ws i)"

text \<open>No element of the four planes has one of the codes 9 to 15.\<close>

definition codes_ok :: "nat \<Rightarrow> (nat \<Rightarrow> u64 list) \<Rightarrow> bool" where
  "codes_ok width plane \<longleftrightarrow> (\<forall>i<width. read_bit (plane 3) i \<longrightarrow>
     \<not> (read_bit (plane 2) i \<or> read_bit (plane 1) i \<or> read_bit (plane 0) i))"

definition bit2_ok :: "packed_bit2 \<Rightarrow> bool" where
  "bit2_ok v \<longleftrightarrow> width2 v \<le> size_max - 63 \<and> plane_ok (width2 v) (words2 v)"

definition logic9_ok :: "packed_logic9 \<Rightarrow> bool" where
  "logic9_ok v \<longleftrightarrow> width9 v \<le> size_max - 63 \<and> length (planes9 v) = 4 \<and>
     (\<forall>p<4. plane_ok (width9 v) (planes9 v ! p)) \<and> codes_ok (width9 v) ((!) (planes9 v))"

text \<open>The digits of a two-state vector.\<close>

definition parse_bit :: "char \<Rightarrow> bool option" where
  "parse_bit c = (if c = CHR ''0'' then Some False else if c = CHR ''1'' then Some True else None)"

subsection \<open>Planes\<close>

lemma plane_ok_length: "plane_ok w ws \<Longrightarrow> length ws = words_for w"
  by (simp add: plane_ok_def)

lemma plane_ok_in: "plane_ok w ws \<Longrightarrow> i < w \<Longrightarrow> i div 64 < length ws"
  by (simp add: plane_ok_def less_words_for)

lemma plane_ok_bound: "plane_ok w ws \<Longrightarrow> w \<le> 64 * length ws"
  by (simp add: plane_ok_def le_words_for)

lemma plane_ok_write_bit [intro, simp]: "plane_ok w ws \<Longrightarrow> i < w \<Longrightarrow> plane_ok w (write_bit ws i b)"
  using plane_ok_in [of w ws i] by (auto simp: plane_ok_def read_write_bit)

lemma plane_ok_mask_last [intro, simp]: "length ws = words_for w \<Longrightarrow> plane_ok w (mask_last ws w)"
  by (auto simp: plane_ok_def read_mask_last)

lemma plane_ok_zero [intro, simp]: "plane_ok w (replicate (words_for w) 0)"
  by (simp add: plane_ok_def read_bit_replicate)

lemma plane_ok_0 [simp]: "plane_ok 0 ws \<longleftrightarrow> ws = []"
  by (auto simp: plane_ok_def)

lemma read_mask_last_in:
  "length ws = words_for w \<Longrightarrow> i < w \<Longrightarrow> read_bit (mask_last ws w) i = read_bit ws i"
  using le_words_for [of w] by (simp add: read_mask_last)

lemma read_replicate_in [simp]:
  "i < w \<Longrightarrow> read_bit (replicate (words_for w) v) i = bit v (i mod 64)"
  using le_words_for [of w] by (simp add: read_bit_replicate)

lemma plane_ok_eqI:
  assumes "plane_ok w v" "plane_ok w u" "\<And>i. i < w \<Longrightarrow> read_bit v i = read_bit u i"
  shows "v = u"
proof (rule plane_eqI)
  show "length v = length u" using assms(1,2) by (simp add: plane_ok_def)
  fix i
  assume "i < 64 * length u"
  then show "read_bit v i = read_bit u i"
    using assms unfolding plane_ok_def by (cases "i < w") auto
qed

text \<open>A masked plane is unchanged by masking it again.\<close>

lemma mask_last_plane_ok [simp]: "plane_ok w ws \<Longrightarrow> mask_last ws w = ws"
  by (rule plane_ok_eqI) (auto simp: plane_ok_length read_mask_last_in)

subsection \<open>Ordinals across planes\<close>

lemma lt4_cases: "(k::nat) < 4 \<Longrightarrow> k = 0 \<or> k = 1 \<or> k = 2 \<or> k = 3"
  by linarith

lemma all_lt4: "(\<forall>k<4. P k) \<longleftrightarrow> P 0 \<and> P 1 \<and> P 2 \<and> P (3::nat)"
  using lt4_cases by auto

lemma for_range_4: "for_range 0 4 body s = body 3 (body 2 (body 1 (body 0 s)))"
  by (simp add: for_range_def numeral_eq_Suc)

lemma canonical_logic9_value_id [simp]: "canonical_logic9_value v = v"
  by (cases v) (simp_all add: canonical_logic9_value_def)

lemma gather_code_eq:
  "gather_code b = of_bool (b 0) + 2 * of_bool (b 1) + 4 * of_bool (b 2) + 8 * of_bool (b 3)"
  by (cases "b 0"; cases "b 1"; cases "b 2"; cases "b 3") (simp_all add: gather_code_def for_range_4)

lemma encoded_bit_simps:
  "encoded_bit v 0 \<longleftrightarrow> v \<in> {X9, One9, W9, H9}"
  "encoded_bit v (Suc 0) \<longleftrightarrow> v \<in> {Zero9, One9, L9, H9}"
  "encoded_bit v 2 \<longleftrightarrow> v \<in> {Z9, W9, L9, H9}"
  "encoded_bit v 3 \<longleftrightarrow> v = DontCare9"
  by (cases v; simp add: encoded_bit_def)+

lemma logic9_of_code_encoded [simp]: "logic9_of_code (gather_code (encoded_bit v)) = v"
  by (cases v) (simp_all add: gather_code_eq logic9_of_code_def encoded_bit_simps)

text \<open>A canonical code determines its four bits.\<close>

lemma logic9_of_code_inject:
  assumes "b 3 \<longrightarrow> \<not> (b 2 \<or> b 1 \<or> b 0)" "c 3 \<longrightarrow> \<not> (c 2 \<or> c 1 \<or> c 0)"
    and "logic9_of_code (gather_code b) = logic9_of_code (gather_code c)"
  shows "\<forall>p<4. b p = c p"
  using assms unfolding all_lt4
  by (cases "b 0"; cases "b 1"; cases "b 2"; cases "b 3"; cases "c 0"; cases "c 1"; cases "c 2"; cases "c 3")
     (simp_all add: gather_code_eq logic9_of_code_def)

lemma gather_code_cong: "(\<And>p. p < 4 \<Longrightarrow> b p = c p) \<Longrightarrow> gather_code b = gather_code c"
  by (simp add: gather_code_eq)

subsection \<open>The packed vector interface\<close>

locale packed_vector =
  fixes wid :: "'v \<Rightarrow> nat" and get :: "'v \<Rightarrow> nat \<Rightarrow> 'e" and put :: "'v \<Rightarrow> nat \<Rightarrow> 'e \<Rightarrow> 'v"
    and ok :: "'v \<Rightarrow> bool"
  assumes wid_put: "ok v \<Longrightarrow> i < wid v \<Longrightarrow> wid (put v i e) = wid v"
    and ok_put: "ok v \<Longrightarrow> i < wid v \<Longrightarrow> ok (put v i e)"
    and get_put: "ok v \<Longrightarrow> i < wid v \<Longrightarrow> j < wid v \<Longrightarrow> get (put v i e) j = (if j = i then e else get v j)"
    and ext: "ok v \<Longrightarrow> ok u \<Longrightarrow> wid v = wid u \<Longrightarrow> (\<And>i. i < wid v \<Longrightarrow> get v i = get u i) \<Longrightarrow> v = u"
begin

text \<open>A vector is determined by its list of elements.\<close>

lemma elems_eqI:
  assumes "ok v" "ok u" "map (get v) [0..<wid v] = map (get u) [0..<wid u]"
  shows "v = u"
proof (rule ext [OF assms(1,2)])
  show w: "wid v = wid u" using assms(3) map_eq_imp_length_eq by fastforce
  fix i
  assume "i < wid v"
  with w arg_cong [OF assms(3), of "\<lambda>xs. xs ! i"] show "get v i = get u i" by simp
qed

lemma elems_put:
  "ok v \<Longrightarrow> i < wid v \<Longrightarrow> map (get (put v i e)) [0..<wid v] = (map (get v) [0..<wid v])[i := e]"
  by (rule nth_equalityI) (auto simp: get_put nth_list_update)

lemma update_loop:
  fixes f :: "nat \<Rightarrow> 'e \<Rightarrow> 'e"
  assumes "ok v" "n \<le> wid v"
  defines "r \<equiv> for_range 0 n (\<lambda>i r. put r i (f i (get r i))) v"
  shows "ok r \<and> wid r = wid v \<and> (\<forall>j<wid v. get r j = (if j < n then f j (get v j) else get v j))"
proof -
  define P where "P k r \<longleftrightarrow> ok r \<and> wid r = wid v \<and>
    (\<forall>j<wid v. get r j = (if j < k then f j (get v j) else get v j))" for k r
  have "P n r"
    unfolding r_def
  proof (rule for_range_invariant)
    fix i t
    assume "i < n" "P i t"
    with assms(2) show "P (Suc i) (put t i (f i (get t i)))"
      by (auto simp: P_def ok_put wid_put get_put less_Suc_eq)
  qed (use assms in \<open>auto simp: P_def\<close>)
  then show ?thesis by (simp add: P_def)
qed

text \<open>Writing every element in turn leaves exactly the elements written.\<close>

lemma write_loop:
  fixes f :: "nat \<Rightarrow> 'e"
  assumes "ok v" "wid v = n"
  defines "r \<equiv> for_range 0 n (\<lambda>i r. put r i (f i)) v"
  shows "ok r" "wid r = n" "\<And>j. j < n \<Longrightarrow> get r j = f j"
  using update_loop [of v n "\<lambda>i _. f i"] assms by simp_all

text \<open>A loop that parses one element per index and stores it, through a checked writer.\<close>

lemma parse_loop:
  assumes "ok v" "wid v = n"
    and set: "\<And>r i a. wid r = n \<Longrightarrow> i < n \<Longrightarrow> checked_put r i a = Inr (put r i a)"
  shows "for_result 0 n (\<lambda>i r. case f i of None \<Rightarrow> Inl x | Some a \<Rightarrow> checked_put r i a) v =
    (if \<forall>i<n. f i \<noteq> None then Inr (for_range 0 n (\<lambda>i r. put r i (the (f i))) v) else Inl x)"
proof -
  have "for_result 0 m (\<lambda>i r. case f i of None \<Rightarrow> Inl x | Some a \<Rightarrow> checked_put r i a) v =
    (if \<forall>i<m. f i \<noteq> None then Inr (for_range 0 m (\<lambda>i r. put r i (the (f i))) v) else Inl x)"
    if "m \<le> n" for m
    using that
  proof (induction m)
    case 0
    then show ?case by simp
  next
    case (Suc m)
    have "wid (for_range 0 m (\<lambda>i r. put r i (the (f i))) v) = n"
      using update_loop [of v m "\<lambda>i _. the (f i)"] assms(1,2) Suc.prems by simp
    with Suc show ?case
      by (auto simp: for_result_Suc for_range_Suc set less_Suc_eq split: option.split)
  qed
  then show ?thesis by simp
qed

lemma write_loop_elems:
  assumes "ok v" "wid v = n"
  shows "map (get (for_range 0 n (\<lambda>i r. put r i (f i)) v)) [0..<n] = map f [0..<n]"
  using write_loop [OF assms, where f = f] by simp

lemma write_loop_unique:
  assumes "ok v" "wid v = n" "ok u" "wid u = n" "\<And>j. j < n \<Longrightarrow> get u j = f j"
  shows "for_range 0 n (\<lambda>i r. put r i (f i)) v = u"
  using write_loop [OF assms(1,2), where f = f] assms(3-5) by (intro ext) auto

end

subsection \<open>Elements of two-state and nine-state vectors\<close>

text \<open>The codes of a plane quadruple are canonical exactly when they are encodings of values.\<close>

lemma codes_ok_iff:
  "codes_ok w plane \<longleftrightarrow> (\<forall>j<w. \<exists>e. \<forall>p<4. read_bit (plane p) j = encoded_bit e p)"
proof -
  have "(b 3 \<longrightarrow> \<not> (b 2 \<or> b 1 \<or> b 0)) \<longleftrightarrow> (\<exists>e. \<forall>p<4. b p = encoded_bit e p)" for b :: "nat \<Rightarrow> bool"
  proof
    assume "b 3 \<longrightarrow> \<not> (b 2 \<or> b 1 \<or> b 0)"
    then have "\<forall>p<4. b p = encoded_bit (logic9_of_code (gather_code b)) p"
      unfolding all_lt4
      by (cases "b 0"; cases "b 1"; cases "b 2"; cases "b 3")
         (simp_all add: gather_code_eq logic9_of_code_def encoded_bit_simps)
    then show "\<exists>e. \<forall>p<4. b p = encoded_bit e p" by blast
  qed (auto simp: all_lt4 encoded_bit_simps)
  from this [of "\<lambda>p. read_bit (plane p) j" for j] show ?thesis unfolding codes_ok_def by simp
qed

lemma bit2_elem_put:
  assumes "bit2_ok v" "i < width2 v"
  shows "bit2_elem (bit2_put v i b) j \<longleftrightarrow> (if j = i then b else bit2_elem v j)"
  using plane_ok_in [of "width2 v" "words2 v" i] assms
  by (simp add: bit2_ok_def bit2_elem_def bit2_put_def read_write_bit)

lemma width2_put [simp]: "width2 (bit2_put v i b) = width2 v"
  by (simp add: bit2_put_def)

interpretation b2: packed_vector width2 bit2_elem bit2_put bit2_ok
proof unfold_locales
  fix v u
  assume "bit2_ok v" "bit2_ok u" "width2 v = width2 u" "\<And>i. i < width2 v \<Longrightarrow> bit2_elem v i = bit2_elem u i"
  then show "v = u"
    using plane_ok_eqI [of "width2 v" "words2 v" "words2 u"] unfolding bit2_ok_def bit2_elem_def by simp
qed (auto simp: bit2_elem_put, simp add: bit2_ok_def bit2_put_def)

lemma width9_put [simp]: "width9 (logic9_put v i e) = width9 v"
  by (simp add: logic9_put_def for_range_4)

lemma planes9_put:
  assumes "length (planes9 v) = 4"
  shows "planes9 (logic9_put v i e) = map (\<lambda>p. write_bit (planes9 v ! p) i (encoded_bit e p)) [0..<4]"
  using assms by (simp add: logic9_put_def for_range_4 list_eq_iff_nth_eq all_lt4 nth_list_update)

lemma logic9_elem_put:
  assumes "logic9_ok v" "i < width9 v"
  shows "logic9_elem (logic9_put v i e) j = (if j = i then e else logic9_elem v j)"
proof -
  have "i div 64 < length (planes9 v ! p)" if "p < 4" for p
    using plane_ok_in [OF _ assms(2)] assms(1) that by (simp add: logic9_ok_def)
  moreover have l: "length (planes9 v) = 4" using assms(1) by (simp add: logic9_ok_def)
  ultimately have "gather_code (\<lambda>p. read_bit (planes9 (logic9_put v i e) ! p) j) =
      gather_code (\<lambda>p. if j = i then encoded_bit e p else read_bit (planes9 v ! p) j)"
    by (intro gather_code_cong) (simp add: planes9_put [OF l] read_write_bit)
  then show ?thesis by (simp add: logic9_elem_def)
qed

lemma logic9_ok_put:
  assumes "logic9_ok v" "i < width9 v"
  shows "logic9_ok (logic9_put v i e)"
proof -
  have l: "length (planes9 v) = 4" and p: "\<forall>p<4. plane_ok (width9 v) (planes9 v ! p)"
    using assms(1) by (simp_all add: logic9_ok_def)
  then have d: "i div 64 < length (planes9 v ! p)" if "p < 4" for p
    using plane_ok_in [OF _ assms(2)] that by simp
  have "codes_ok (width9 v) ((!) (planes9 (logic9_put v i e)))"
    unfolding codes_ok_iff
  proof (intro allI impI)
    fix j
    assume "j < width9 v"
    then obtain e' where "\<forall>p<4. read_bit (planes9 v ! p) j = encoded_bit e' p"
      using assms(1) unfolding logic9_ok_def codes_ok_iff by blast
    with d show "\<exists>e'. \<forall>p<4. read_bit (planes9 (logic9_put v i e) ! p) j = encoded_bit e' p"
      by (intro exI [of _ "if j = i then e else e'"]) (simp add: planes9_put [OF l] read_write_bit)
  qed
  with assms p show ?thesis unfolding logic9_ok_def by (simp add: planes9_put [OF l])
qed

interpretation p9: packed_vector width9 logic9_elem logic9_put logic9_ok
proof unfold_locales
  fix v u
  assume ok: "logic9_ok v" "logic9_ok u" and w: "width9 v = width9 u"
    and e: "\<And>i. i < width9 v \<Longrightarrow> logic9_elem v i = logic9_elem u i"
  have "planes9 v ! p = planes9 u ! p" if "p < 4" for p
  proof (rule plane_ok_eqI)
    fix i
    assume "i < width9 v"
    then have "\<forall>p<4. read_bit (planes9 v ! p) i = read_bit (planes9 u ! p) i"
      using ok w e by (intro logic9_of_code_inject) (auto simp: logic9_elem_def logic9_ok_def codes_ok_def)
    with that show "read_bit (planes9 v ! p) i = read_bit (planes9 u ! p) i" by simp
  qed (use ok w that in \<open>auto simp: logic9_ok_def\<close>)
  with ok w show "v = u"
    by (intro packed_logic9.equality nth_equalityI) (auto simp: logic9_ok_def)
qed (simp_all add: logic9_elem_put logic9_ok_put)

lemma PackedBit2_ok:
  assumes "width \<le> size_max - 63"
  shows "\<exists>v. PackedBit2 width b = Inr v \<and> bit2_ok v \<and> width2 v = width \<and> (\<forall>i<width. bit2_elem v i = b)"
  using assms
  by (auto simp: PackedBit2_def word_count_def bit2_mask_unused_bits_def bit2_ok_def bit2_elem_def read_mask_last_in)

lemma logic9_fill_ok:
  assumes "length (planes9 v) = 4" "\<forall>p<4. length (planes9 v ! p) = words_for (width9 v)"
    and "width9 v \<le> size_max - 63"
  shows "logic9_ok (logic9_fill v e)" "width9 (logic9_fill v e) = width9 v"
    "i < width9 v \<Longrightarrow> logic9_elem (logic9_fill v e) i = e"
proof -
  have f: "logic9_fill v e = \<lparr>width9 = width9 v, planes9 = map (\<lambda>p. mask_last (replicate (words_for (width9 v))
      (if encoded_bit e p then NOT 0 else 0)) (width9 v)) [0..<4], \<dots> = more v\<rparr>"
    using assms(1,2)
    by (auto simp: logic9_fill_def logic9_mask_unused_bits_def for_range_4 list_eq_iff_nth_eq all_lt4 nth_list_update intro!: packed_logic9.equality)
  show "width9 (logic9_fill v e) = width9 v" by (simp add: f)
  have b: "read_bit (planes9 (logic9_fill v e) ! p) i = encoded_bit e p" if "i < width9 v" "p < 4" for i p
    using that by (simp add: f read_mask_last_in)
  then have "gather_code (\<lambda>p. read_bit (planes9 (logic9_fill v e) ! p) i) = gather_code (encoded_bit e)"
    if "i < width9 v" for i using that by (intro gather_code_cong) simp
  then show "i < width9 v \<Longrightarrow> logic9_elem (logic9_fill v e) i = e" by (simp add: logic9_elem_def)
  show "logic9_ok (logic9_fill v e)"
    using assms(3) b unfolding logic9_ok_def codes_ok_iff by (auto simp: f)
qed

lemma PackedLogic9_ok:
  assumes "width \<le> size_max - 63"
  shows "\<exists>v. PackedLogic9 width e = Inr v \<and> logic9_ok v \<and> width9 v = width \<and> (\<forall>i<width. logic9_elem v i = e)"
  using assms logic9_fill_ok [of "\<lparr>width9 = width, planes9 = replicate 4 (replicate (words_for width) 0)\<rparr>"]
  by (auto simp: PackedLogic9_def word_count_def)


subsection \<open>Strings\<close>

lemma bit2_to_msb_string_eq:
  "bit2_to_msb_string v = rev (map (\<lambda>i. if bit2_elem v i then CHR ''1'' else CHR ''0'') [0..<width2 v])"
  unfolding bit2_to_msb_string_def by (rule for_range_fill_back) simp

lemma logic9_to_msb_string_eq:
  "logic9_to_msb_string v = rev (map (\<lambda>i. to_char9 (logic9_elem v i)) [0..<width9 v])"
  unfolding logic9_to_msb_string_def by (rule for_range_fill_back) simp

lemma logic9_set_in: "i < width9 v \<Longrightarrow> logic9_set v i e = Inr (logic9_put v i e)"
  by (simp add: logic9_set_def check_index_def)

lemma bit2_set_in: "i < width2 v \<Longrightarrow> bit2_set v i e = Inr (bit2_put v i e)"
  by (simp add: bit2_set_def check_index_def)


lemma logic9_from_msb_string_cases:
  assumes "length s \<le> size_max - 63"
  shows "if \<forall>c\<in>set s. parse_logic9 c \<noteq> None
    then \<exists>v. logic9_from_msb_string s = Inr v \<and> logic9_ok v \<and> width9 v = length s \<and>
      (\<forall>i<length s. logic9_elem v i = the (parse_logic9 (s ! (length s - i - 1))))
    else logic9_from_msb_string s = Inl Invalid_argument"
proof -
  obtain z where z: "PackedLogic9 (length s) U9 = Inr z" "logic9_ok z" "width9 z = length s"
    using PackedLogic9_ok [OF assms, of U9] by blast
  note loop = p9.parse_loop [OF z(2,3), where checked_put = logic9_set and x = Invalid_argument
    and f = "\<lambda>i. parse_logic9 (s ! (length s - i - 1))", OF logic9_set_in, simplified]
  note res = p9.write_loop [OF z(2,3), where f = "\<lambda>i. the (parse_logic9 (s ! (length s - i - 1)))"]
  show ?thesis
    unfolding logic9_from_msb_string_def z(1) bind_result_simps
    using res by (auto simp: loop all_rev_nth [symmetric])
qed

lemma bit2_from_msb_string_cases:
  assumes "length s \<le> size_max - 63"
  shows "if \<forall>c\<in>set s. parse_bit c \<noteq> None
    then \<exists>v. bit2_from_msb_string s = Inr v \<and> bit2_ok v \<and> width2 v = length s \<and>
      (\<forall>i<length s. bit2_elem v i = the (parse_bit (s ! (length s - i - 1))))
    else bit2_from_msb_string s = Inl Invalid_argument"
proof -
  obtain z where z: "PackedBit2 (length s) False = Inr z" "bit2_ok z" "width2 z = length s"
    using PackedBit2_ok [OF assms, of False] by blast
  have body: "(let character = c in if character \<noteq> CHR ''0'' \<and> character \<noteq> CHR ''1'' then Inl Invalid_argument
      else bit2_set r i (character = CHR ''1'')) =
    (case parse_bit c of None \<Rightarrow> Inl Invalid_argument | Some b \<Rightarrow> bit2_set r i b)" for c r i
    by (simp add: parse_bit_def)
  note loop = b2.parse_loop [OF z(2,3), where checked_put = bit2_set and x = Invalid_argument
    and f = "\<lambda>i. parse_bit (s ! (length s - i - 1))", OF bit2_set_in, simplified]
  note res = b2.write_loop [OF z(2,3), where f = "\<lambda>i. the (parse_bit (s ! (length s - i - 1)))"]
  show ?thesis
    unfolding bit2_from_msb_string_def z(1) bind_result_simps body
    using res by (auto simp: loop all_rev_nth [symmetric])
qed

subsection \<open>Resolution\<close>

lemma logic9_resolve_loop:
  assumes "logic9_ok z" "width9 z = w" "\<forall>d\<in>set ds. width9 d = w"
  defines "r \<equiv> for_result 0 (length ds) (\<lambda>d result.
            let driver = ds ! d
            in if width9 driver \<noteq> w then Inl Invalid_argument
               else Inr (for_range 0 w (\<lambda>index result.
                      logic9_put result index
                        (resolve9 (logic9_elem result index) (logic9_elem driver index)))
                    result)) z"
  shows "\<exists>v. r = Inr v \<and> logic9_ok v \<and> width9 v = w \<and>
    (\<forall>i<w. logic9_elem v i = fold (\<lambda>d a. resolve9 a (logic9_elem d i)) ds (logic9_elem z i))"
proof -
  define step where "step d v = for_range 0 w (\<lambda>i v. logic9_put v i
     (resolve9 (logic9_elem v i) (logic9_elem (ds ! d) i))) v" for d v
  define P where "P v \<longleftrightarrow> logic9_ok v \<and> width9 v = w" for v
  have step: "P (step d v) \<and> (\<forall>i<w. logic9_elem (step d v) i = resolve9 (logic9_elem v i) (logic9_elem (ds ! d) i))"
    if "P v" for d v
    using that p9.update_loop [of v w "\<lambda>i a. resolve9 a (logic9_elem (ds ! d) i)"]
    by (auto simp: P_def step_def)
  have "r = Inr (for_range 0 (length ds) step z) \<and> P (for_range 0 (length ds) step z)"
    unfolding r_def
    by (rule for_result_total) (use assms step in \<open>auto simp: step_def [symmetric] P_def\<close>)
  moreover have "P (for_range 0 m step z) \<and> (\<forall>i<w. logic9_elem (for_range 0 m step z) i =
      fold (\<lambda>d a. resolve9 a (logic9_elem d i)) (take m ds) (logic9_elem z i))"
    if "m \<le> length ds" for m
    using that
  proof (induction m)
    case 0
    then show ?case using assms by (simp add: P_def)
  next
    case (Suc m)
    then show ?case using step by (simp add: for_range_Suc take_Suc_conv_app_nth)
  qed
  ultimately show ?thesis by (auto simp: P_def)
qed

subsection \<open>Properties\<close>

lemma bit2_string_elems:
  assumes "\<forall>i<length s. bit2_elem v i = the (parse_bit (s ! (length s - i - 1)))" "width2 v = length s"
    and "\<forall>c\<in>set s. parse_bit c \<noteq> None"
  shows "bit2_to_msb_string v = s"
proof -
  have "bit2_to_msb_string v =
      rev (map (\<lambda>i. if the (parse_bit (s ! (length s - i - 1))) then CHR ''1'' else CHR ''0'') [0..<length s])"
    using assms(1,2) by (simp add: bit2_to_msb_string_eq)
  also have "\<dots> = map (\<lambda>c. if the (parse_bit c) then CHR ''1'' else CHR ''0'') s" by (rule map_rev_nth)
  also have "\<dots> = s" using assms(3) by (intro map_idI) (auto simp: parse_bit_def split: if_splits)
  finally show ?thesis .
qed

lemma logic9_string_elems:
  assumes "\<forall>i<length s. logic9_elem v i = the (parse_logic9 (s ! (length s - i - 1)))" "width9 v = length s"
  shows "logic9_to_msb_string v = map (\<lambda>c. to_char9 (the (parse_logic9 c))) s"
proof -
  have "logic9_to_msb_string v =
      rev (map (\<lambda>i. to_char9 (the (parse_logic9 (s ! (length s - i - 1))))) [0..<length s])"
    using assms by (simp add: logic9_to_msb_string_eq)
  then show ?thesis by (simp only: map_rev_nth [of "\<lambda>c. to_char9 (the (parse_logic9 c))" s])
qed

text \<open>
  C22: Printing a two-state or nine-state vector most significant element first and parsing the
  text gives the vector back; parsing accepts exactly the strings over the digits of the type,
  throws invalid_argument on every other string, and printing what was parsed gives the text back,
  letters in upper case.
\<close>

theorem packed_string_roundtrip:
  "(bit2_ok v \<longrightarrow> bit2_from_msb_string (bit2_to_msb_string v) = Inr v) \<and>
   (logic9_ok u \<longrightarrow> logic9_from_msb_string (logic9_to_msb_string u) = Inr u) \<and>
   (length s \<le> size_max - 63 \<longrightarrow>
     (if set s \<subseteq> set ''01'' then \<exists>v. bit2_from_msb_string s = Inr v \<and> bit2_to_msb_string v = s
      else bit2_from_msb_string s = Inl Invalid_argument) \<and>
     (if set s \<subseteq> set ''uUxX01zZwWlLhH-''
      then \<exists>v. logic9_from_msb_string s = Inr v \<and>
             logic9_to_msb_string v = map (\<lambda>c. to_char9 (the (parse_logic9 c))) s
      else logic9_from_msb_string s = Inl Invalid_argument))"
proof (intro conjI impI)
  assume ok: "bit2_ok v"
  define s where "s = bit2_to_msb_string v"
  have s: "s = rev (map (\<lambda>i. if bit2_elem v i then CHR ''1'' else CHR ''0'') [0..<width2 v])"
    by (simp add: s_def bit2_to_msb_string_eq)
  then have l: "length s = width2 v" by simp
  have "\<forall>c\<in>set s. parse_bit c \<noteq> None" by (auto simp: s parse_bit_def)
  with bit2_from_msb_string_cases [of s] ok l obtain u where u: "bit2_from_msb_string s = Inr u" "bit2_ok u"
    "width2 u = length s" "\<forall>i<length s. bit2_elem u i = the (parse_bit (s ! (length s - i - 1)))"
    by (auto simp: bit2_ok_def)
  have "u = v" using u ok l by (intro b2.ext) (auto simp: s rev_nth parse_bit_def)
  with u show "bit2_from_msb_string (bit2_to_msb_string v) = Inr v" by (simp add: s_def)
next
  assume ok: "logic9_ok u"
  define s where "s = logic9_to_msb_string u"
  have s: "s = rev (map (\<lambda>i. to_char9 (logic9_elem u i)) [0..<width9 u])"
    by (simp add: s_def logic9_to_msb_string_eq)
  then have l: "length s = width9 u" by simp
  have "\<forall>c\<in>set s. parse_logic9 c \<noteq> None" by (auto simp: s parse_to_char9)
  with logic9_from_msb_string_cases [of s] ok l obtain v where v: "logic9_from_msb_string s = Inr v" "logic9_ok v"
    "width9 v = length s" "\<forall>i<length s. logic9_elem v i = the (parse_logic9 (s ! (length s - i - 1)))"
    by (auto simp: logic9_ok_def)
  have "v = u" using v ok l by (intro p9.ext) (auto simp: s rev_nth parse_to_char9)
  with v show "logic9_from_msb_string (logic9_to_msb_string u) = Inr u" by (simp add: s_def)
next
  assume "length s \<le> size_max - 63"
  moreover have "(\<forall>c\<in>set s. parse_bit c \<noteq> None) \<longleftrightarrow> set s \<subseteq> set ''01''"
    by (auto simp: parse_bit_def)
  ultimately show "if set s \<subseteq> set ''01'' then \<exists>v. bit2_from_msb_string s = Inr v \<and> bit2_to_msb_string v = s
      else bit2_from_msb_string s = Inl Invalid_argument"
    using bit2_from_msb_string_cases [of s] bit2_string_elems by (simp split: if_splits) blast
next
  assume "length s \<le> size_max - 63"
  moreover have "(\<forall>c\<in>set s. parse_logic9 c \<noteq> None) \<longleftrightarrow> set s \<subseteq> set ''uUxX01zZwWlLhH-''"
    unfolding parse_logic9_domain by blast
  ultimately show "if set s \<subseteq> set ''uUxX01zZwWlLhH-'' then \<exists>v. logic9_from_msb_string s = Inr v \<and>
             logic9_to_msb_string v = map (\<lambda>c. to_char9 (the (parse_logic9 c))) s
      else logic9_from_msb_string s = Inl Invalid_argument"
    using logic9_from_msb_string_cases [of s] logic9_string_elems [of s]
    by (cases "set s \<subseteq> set ''uUxX01zZwWlLhH-''") (auto simp only: if_True if_False)
qed

theorem packed_string_roundtrip_witness:
  "bit2_from_msb_string ''102'' = Inl Invalid_argument \<and>
   (\<exists>v. logic9_from_msb_string ''1zL'' = Inr v \<and> logic9_to_msb_string v = ''1ZL'')"
  using packed_string_roundtrip [of undefined undefined "''102''"] packed_string_roundtrip [of undefined undefined "''1zL''"]
  by (simp add: size_max_def to_char9_def parse_logic9_def)

text \<open>
  C23: Resolving nine-state vectors resolves each element over all drivers with the scalar
  resolution, keeps the width and the invariant, and throws invalid_argument when the widths of
  two or more drivers differ.
\<close>

theorem logic9_resolve_spec:
  assumes "\<forall>d\<in>set ds. logic9_ok d" and "ds \<noteq> []"
  shows "if \<forall>d\<in>set ds. width9 d = width9 (hd ds)
    then \<exists>r. logic9_resolve ds = Inr r \<and> logic9_ok r \<and> width9 r = width9 (hd ds) \<and>
           (\<forall>i<width9 r. logic9_elem r i = resolve9_drivers (map (\<lambda>d. logic9_elem d i) ds))
    else logic9_resolve ds = Inl Invalid_argument"
proof (cases "length ds = 1")
  case True
  then obtain d where "ds = [d]" by (cases ds) auto
  with assms show ?thesis by (simp add: logic9_resolve_def resolve9_drivers_def)
next
  case False
  define w where "w = width9 (hd ds)"
  have "w \<le> size_max - 63" using assms by (simp add: w_def logic9_ok_def)
  then obtain z where z: "PackedLogic9 w Z9 = Inr z" "logic9_ok z" "width9 z = w" "\<forall>i<w. logic9_elem z i = Z9"
    using PackedLogic9_ok by blast
  have r: "logic9_resolve ds = for_result 0 (length ds) (\<lambda>d result.
            let driver = ds ! d
            in if width9 driver \<noteq> w then Inl Invalid_argument
               else Inr (for_range 0 w (\<lambda>index result.
                      logic9_put result index
                        (resolve9 (logic9_elem result index) (logic9_elem driver index)))
                    result)) z"
    using False assms(2) z(1) unfolding logic9_resolve_def w_def by (simp add: Let_def)
  show ?thesis
  proof (cases "\<forall>d\<in>set ds. width9 d = w")
    case True
    then show ?thesis
      using logic9_resolve_loop [OF z(2,3) True] z(4) False
      by (auto simp: w_def [symmetric] r resolve9_drivers_def fold_map comp_def)
  next
    case bad: False
    have "logic9_resolve ds = for_result 0 (length ds) (\<lambda>d t.
       case if width9 (ds ! d) = w then Some () else None of None \<Rightarrow> Inl Invalid_argument
       | Some _ \<Rightarrow> Inr (for_range 0 w (\<lambda>i t. logic9_put t i (resolve9 (logic9_elem t i) (logic9_elem (ds ! d) i))) t)) z"
      unfolding r by (intro arg_cong [where f = "\<lambda>b. for_result 0 (length ds) b z"] ext) (simp add: Let_def)
    moreover from bad have "\<exists>d\<in>{0..<length ds}. width9 (ds ! d) \<noteq> w"
      by (metis atLeastLessThan_iff in_set_conv_nth zero_le)
    ultimately show ?thesis using bad by (subst (asm) for_result_option) (auto simp: w_def)
  qed
qed

theorem logic9_resolve_spec_witness:
  "\<exists>v u r. logic9_from_msb_string ''0L'' = Inr v \<and> logic9_from_msb_string ''ZH'' = Inr u \<and>
     logic9_resolve [v, u] = Inr r \<and> logic9_elem r 0 = W9 \<and> logic9_elem r 1 = Zero9"
proof -
  obtain v where v: "logic9_from_msb_string ''0L'' = Inr v" "logic9_ok v" "width9 v = 2"
      "logic9_elem v 0 = L9" "logic9_elem v 1 = Zero9"
    using logic9_from_msb_string_cases [of "''0L''"] by (auto simp: size_max_def parse_logic9_def)
  obtain u where u: "logic9_from_msb_string ''ZH'' = Inr u" "logic9_ok u" "width9 u = 2"
      "logic9_elem u 0 = H9" "logic9_elem u 1 = Z9"
    using logic9_from_msb_string_cases [of "''ZH''"] by (auto simp: size_max_def parse_logic9_def)
  from logic9_resolve_spec [of "[v, u]"] v u show ?thesis
    by (auto simp: resolve9_drivers_def)
qed

end
