(* ===== verification/Packed_Logic4.thy ===== *)
theory Packed_Logic4
  imports Packed_Vectors
begin

text \<open>
  The common transport value of the simulator, \<^verbatim>\<open>PackedLogic4\<close> of
  \<^verbatim>\<open>src/runtime/packed_value.cpp\<close>: a four-state vector in two planes (aval, bval; 0 is
  00, 1 is 10, X is 11, Z is 01) or, with the Logic9 flag set, a nine-state vector in four planes.

  The record holds what the plane accessors return.  Where the words live (in the object, in a
  shared heap block copied on write, or in a pinned snapshot) is not visible through them and is
  not part of the value; planes bound to a live component backing are outside this model.  Planes 2
  and 3 are empty for a four-state value.  A member function returns the updated value, or
  \<open>Inl\<close> of the class of the exception it throws.
\<close>

subsection \<open>Representation\<close>

record packed_logic4 =
  width4 :: nat
  is_logic9 :: bool
  aval_words :: "u64 list"
  bval_words :: "u64 list"
  plane2_words :: "u64 list"
  plane3_words :: "u64 list"

record logic4_word =
  w4_width :: nat
  w4_aval :: u64
  w4_bval :: u64

record logic9_word =
  w9_width :: nat
  w9_planes :: "u64 list"

definition normalize_invalid_codes_to_x :: "logic9_word \<Rightarrow> logic9_word" where
  "normalize_invalid_codes_to_x w =
     (let p = w9_planes w;
          invalid = p ! 3 AND (p ! 2 OR p ! 1 OR p ! 0)
      in w\<lparr>w9_planes := [p ! 0 OR invalid, p ! 1 AND NOT invalid,
                         p ! 2 AND NOT invalid, p ! 3 AND NOT invalid]\<rparr>)"

definition has_canonical_codes :: "logic9_word \<Rightarrow> bool" where
  "has_canonical_codes w \<longleftrightarrow>
     (let p = w9_planes w in p ! 3 AND (p ! 2 OR p ! 1 OR p ! 0) = 0)"

definition logic9_plane :: "packed_logic4 \<Rightarrow> nat \<Rightarrow> u64 list" where
  "logic9_plane v index =
     (if width4 v = 0 \<or> index \<ge> 4 then []
      else if index = 0 then aval_words v
      else if index = 1 then bval_words v
      else if index = 2 then plane2_words v
      else plane3_words v)"

definition logic9_plane_words :: "packed_logic4 \<Rightarrow> nat \<Rightarrow> u64 list" where
  "logic9_plane_words v plane =
     (if \<not> is_logic9 v \<or> plane \<ge> 4 then [] else logic9_plane v plane)"

text \<open>Writing through the span \<^verbatim>\<open>mutable_logic9_plane(index)\<close> returns.\<close>

definition set_plane :: "packed_logic4 \<Rightarrow> nat \<Rightarrow> u64 list \<Rightarrow> packed_logic4" where
  "set_plane v index words =
     (if width4 v = 0 \<or> index \<ge> (if is_logic9 v then 4 else 2) then v
      else if index = 0 then v\<lparr>aval_words := words\<rparr>
      else if index = 1 then v\<lparr>bval_words := words\<rparr>
      else if index = 2 then v\<lparr>plane2_words := words\<rparr>
      else v\<lparr>plane3_words := words\<rparr>)"

definition mask_unused_bits :: "packed_logic4 \<Rightarrow> packed_logic4" where
  "mask_unused_bits v =
     (let v = v\<lparr>aval_words := mask_last (aval_words v) (width4 v),
                bval_words := mask_last (bval_words v) (width4 v)\<rparr>
      in if is_logic9 v
         then v\<lparr>plane2_words := mask_last (plane2_words v) (width4 v),
                plane3_words := mask_last (plane3_words v) (width4 v)\<rparr>
         else v)"

definition promote_to_logic9 :: "packed_logic4 \<Rightarrow> packed_logic4" where
  "promote_to_logic9 v =
     (if is_logic9 v then v
      else
        let words = words_for (width4 v)
        in mask_unused_bits (v\<lparr>is_logic9 := True,
             bval_words := map NOT (bval_words v),
             plane2_words := map2 (\<lambda>aval bval. NOT aval AND bval) (aval_words v) (bval_words v),
             plane3_words := replicate words 0\<rparr>))"

definition promoted_to_logic9 :: "packed_logic4 \<Rightarrow> packed_logic4" where
  "promoted_to_logic9 v = promote_to_logic9 v"

definition fill_planes :: "packed_logic4 \<Rightarrow> logic9 \<Rightarrow> packed_logic4" where
  "fill_planes v value =
     mask_unused_bits (for_range 0 4 (\<lambda>plane v.
       set_plane v plane (replicate (length (logic9_plane v plane))
         (if encoded_bit value plane then NOT 0 else 0))) v)"

definition fill4 :: "packed_logic4 \<Rightarrow> logic4 \<Rightarrow> packed_logic4" where
  "fill4 v value =
     (if is_logic9 v then fill_planes v (to_logic9 value)
      else
        let aval = (value = One4 \<or> value = X4);
            bval = (value = X4 \<or> value = Z4)
        in mask_unused_bits (v\<lparr>
             aval_words := replicate (length (aval_words v)) (if aval then NOT 0 else 0),
             bval_words := replicate (length (bval_words v)) (if bval then NOT 0 else 0)\<rparr>))"

definition fill9 :: "packed_logic4 \<Rightarrow> logic9 \<Rightarrow> packed_logic4" where
  "fill9 v value =
     fill_planes (if \<not> is_logic9 v then promote_to_logic9 v else v) (canonical_logic9_value value)"

definition PackedLogic4 :: "nat \<Rightarrow> logic4 \<Rightarrow> packed_logic4 result" where
  "PackedLogic4 width initial =
     bind_result (checked_packed_width width) (\<lambda>width.
       bind_result (word_count width) (\<lambda>words.
         Inr (fill4 \<lparr>width4 = width, is_logic9 = False, aval_words = replicate words 0,
                     bval_words = replicate words 0, plane2_words = [], plane3_words = []\<rparr> initial)))"

subsection \<open>Elements\<close>

definition logic4_of_bits :: "bool \<Rightarrow> bool \<Rightarrow> logic4" where
  "logic4_of_bits aval bval =
     (if \<not> bval then (if aval then One4 else Zero4) else (if aval then X4 else Z4))"

definition planes_elem :: "packed_logic4 \<Rightarrow> nat \<Rightarrow> logic9" where
  "planes_elem v index = logic9_of_code (gather_code (\<lambda>plane. read_bit (logic9_plane v plane) index))"

definition elem4 :: "packed_logic4 \<Rightarrow> nat \<Rightarrow> logic4" where
  "elem4 v index =
     (if is_logic9 v then to_logic4 (planes_elem v index)
      else logic4_of_bits (read_bit (aval_words v) index) (read_bit (bval_words v) index))"

definition logic4_get :: "packed_logic4 \<Rightarrow> nat \<Rightarrow> logic4 result" where
  "logic4_get v index = bind_result (check_index index (width4 v)) (\<lambda>_. Inr (elem4 v index))"

definition elem9 :: "packed_logic4 \<Rightarrow> nat \<Rightarrow> logic9" where
  "elem9 v index =
     (if \<not> is_logic9 v then to_logic9 (elem4 v index) else planes_elem v index)"

definition logic4_get_logic9 :: "packed_logic4 \<Rightarrow> nat \<Rightarrow> logic9 result" where
  "logic4_get_logic9 v index = bind_result (check_index index (width4 v)) (\<lambda>_. Inr (elem9 v index))"

definition put9 :: "packed_logic4 \<Rightarrow> nat \<Rightarrow> logic9 \<Rightarrow> packed_logic4" where
  "put9 v index value =
     for_range 0 4 (\<lambda>plane v. set_plane v plane
         (write_bit (logic9_plane v plane) index (encoded_bit (canonical_logic9_value value) plane)))
       (if \<not> is_logic9 v then promote_to_logic9 v else v)"

definition logic4_set_logic9 :: "packed_logic4 \<Rightarrow> nat \<Rightarrow> logic9 \<Rightarrow> packed_logic4 result" where
  "logic4_set_logic9 v index value =
     bind_result (check_index index (width4 v)) (\<lambda>_. Inr (put9 v index value))"

definition put4 :: "packed_logic4 \<Rightarrow> nat \<Rightarrow> logic4 \<Rightarrow> packed_logic4" where
  "put4 v index value =
     (if is_logic9 v then put9 v index (to_logic9 value)
      else
        let write = (\<lambda>aval bval. v\<lparr>aval_words := write_bit (aval_words v) index aval,
                                    bval_words := write_bit (bval_words v) index bval\<rparr>)
        in case value of
             Zero4 \<Rightarrow> write False False
           | One4 \<Rightarrow> write True False
           | X4 \<Rightarrow> write True True
           | Z4 \<Rightarrow> write False True)"

definition logic4_set :: "packed_logic4 \<Rightarrow> nat \<Rightarrow> logic4 \<Rightarrow> packed_logic4 result" where
  "logic4_set v index value =
     bind_result (check_index index (width4 v)) (\<lambda>_. Inr (put4 v index value))"

definition packed_eq :: "packed_logic4 \<Rightarrow> packed_logic4 \<Rightarrow> bool" where
  "packed_eq left right =
     (if width4 left \<noteq> width4 right \<or> is_logic9 left \<noteq> is_logic9 right then False
      else list_all (\<lambda>plane.
        (if plane = 0 then aval_words left else if plane = 1 then bval_words left else logic9_plane left plane) =
        (if plane = 0 then aval_words right else if plane = 1 then bval_words right else logic9_plane right plane))
        [0..<if is_logic9 left then 4 else 2])"

subsection \<open>Invariant\<close>

definition logic4_ok :: "packed_logic4 \<Rightarrow> bool" where
  "logic4_ok v \<longleftrightarrow> width4 v \<le> size_max div 4 \<and>
     plane_ok (width4 v) (aval_words v) \<and> plane_ok (width4 v) (bval_words v) \<and>
     (if is_logic9 v
      then plane_ok (width4 v) (plane2_words v) \<and> plane_ok (width4 v) (plane3_words v) \<and>
           codes_ok (width4 v) (logic9_plane v)
      else plane2_words v = [] \<and> plane3_words v = [])"

definition aval_of :: "logic4 \<Rightarrow> bool" where
  "aval_of e \<longleftrightarrow> e = One4 \<or> e = X4"

definition bval_of :: "logic4 \<Rightarrow> bool" where
  "bval_of e \<longleftrightarrow> e = X4 \<or> e = Z4"

lemma logic4_of_bits_of [simp]: "logic4_of_bits (aval_of e) (bval_of e) = e"
  by (cases e) (simp_all add: logic4_of_bits_def aval_of_def bval_of_def)

lemma of_logic4_bits [simp]:
  "aval_of (logic4_of_bits a b) = a" "bval_of (logic4_of_bits a b) = b"
  by (auto simp: logic4_of_bits_def aval_of_def bval_of_def)

lemma encoded_to_logic9:
  "encoded_bit (to_logic9 e) 0 = aval_of e"
  "encoded_bit (to_logic9 e) (Suc 0) = (\<not> bval_of e)"
  "encoded_bit (to_logic9 e) 2 = (\<not> aval_of e \<and> bval_of e)"
  "\<not> encoded_bit (to_logic9 e) 3"
  by (cases e; simp add: aval_of_def bval_of_def encoded_bit_simps)+

lemma logic9_plane_simps:
  assumes "0 < width4 v"
  shows "logic9_plane v 0 = aval_words v" "logic9_plane v (Suc 0) = bval_words v"
    "logic9_plane v 2 = plane2_words v" "logic9_plane v 3 = plane3_words v"
  using assms by (simp_all add: logic9_plane_def)

lemma set_plane_frame [simp]:
  "width4 (set_plane v p ws) = width4 v" "is_logic9 (set_plane v p ws) = is_logic9 v"
  by (simp_all add: set_plane_def)

lemma logic9_plane_set_plane:
  "p < 4 \<Longrightarrow> is_logic9 v \<Longrightarrow> logic9_plane (set_plane v p ws) q =
    (if q = p \<and> 0 < width4 v then ws else logic9_plane v q)"
  by (auto simp: set_plane_def logic9_plane_def)

text \<open>The words of a nine-state value, as a value built from its four planes.\<close>

lemma logic4_eqI9:
  assumes "is_logic9 v" "is_logic9 u" "width4 v = width4 u" "0 < width4 v"
    and "\<And>p. p < 4 \<Longrightarrow> logic9_plane v p = logic9_plane u p"
  shows "v = u"
proof -
  have "logic9_plane v 0 = logic9_plane u 0" "logic9_plane v (Suc 0) = logic9_plane u (Suc 0)"
    "logic9_plane v 2 = logic9_plane u 2" "logic9_plane v 3 = logic9_plane u 3"
    using assms(5) [of 0] assms(5) [of "Suc 0"] assms(5) [of 2] assms(5) [of 3] by simp_all
  with assms(1-4) show ?thesis
    by (intro packed_logic4.equality) (simp_all add: logic9_plane_simps)
qed

lemma plane_loop_frame [simp]:
  "width4 (for_range 0 4 (\<lambda>p v. set_plane v p (g p v)) v) = width4 v"
  "is_logic9 (for_range 0 4 (\<lambda>p v. set_plane v p (g p v)) v) = is_logic9 v"
  by (simp_all add: for_range_4)

lemma plane_loop:
  assumes "is_logic9 v" "0 < width4 v" "q < 4"
  shows "logic9_plane (for_range 0 4 (\<lambda>p v. set_plane v p (f p (logic9_plane v p))) v) q = f q (logic9_plane v q)"
  using lt4_cases [OF assms(3)] assms(1,2)
  by (auto simp: for_range_4 logic9_plane_set_plane)

lemma logic4_ok_9:
  assumes "is_logic9 v"
  shows "logic4_ok v \<longleftrightarrow> width4 v \<le> size_max div 4 \<and>
    (if width4 v = 0 then aval_words v = [] \<and> bval_words v = [] \<and> plane2_words v = [] \<and> plane3_words v = []
     else (\<forall>p<4. plane_ok (width4 v) (logic9_plane v p)) \<and> codes_ok (width4 v) (logic9_plane v))"
  using assms by (auto simp: logic4_ok_def all_lt4 logic9_plane_simps codes_ok_def)

lemma mask_unused_frame [simp]:
  "width4 (mask_unused_bits v) = width4 v" "is_logic9 (mask_unused_bits v) = is_logic9 v"
  by (simp_all add: mask_unused_bits_def Let_def)

lemma logic9_plane_mask:
  "is_logic9 v \<Longrightarrow> logic9_plane (mask_unused_bits v) p = mask_last (logic9_plane v p) (width4 v)"
  by (auto simp: mask_unused_bits_def logic9_plane_def Let_def mask_last_def)

lemma planes_elemI:
  "(\<And>p. p < 4 \<Longrightarrow> read_bit (logic9_plane v p) i = encoded_bit e p) \<Longrightarrow> planes_elem v i = e"
  unfolding planes_elem_def
  by (subst gather_code_cong [where c = "encoded_bit e"]) simp_all

lemma elem9I:
  "is_logic9 v \<Longrightarrow> (\<And>p. p < 4 \<Longrightarrow> read_bit (logic9_plane v p) i = encoded_bit e p) \<Longrightarrow> elem9 v i = e"
  by (simp add: elem9_def planes_elemI)

lemma read_plane9:
  assumes "logic4_ok v" "is_logic9 v" "i < width4 v" "p < 4"
  shows "read_bit (logic9_plane v p) i = encoded_bit (elem9 v i) p"
proof -
  obtain e where e: "\<forall>p<4. read_bit (logic9_plane v p) i = encoded_bit e p"
    using assms(1-3) unfolding logic4_ok_def codes_ok_iff by (simp only: if_True) blast
  with assms(2) have "elem9 v i = e" by (intro elem9I) simp_all
  with e assms(4) show ?thesis by simp
qed

lemma elem4_eq: "\<not> is_logic9 v \<Longrightarrow> elem4 v i = logic4_of_bits (read_bit (aval_words v) i) (read_bit (bval_words v) i)"
  by (simp add: elem4_def)

lemma read_plane4:
  assumes "\<not> is_logic9 v"
  shows "read_bit (aval_words v) i = aval_of (elem4 v i)" "read_bit (bval_words v) i = bval_of (elem4 v i)"
  using assms by (simp_all add: elem4_def)

lemma elem4_elem9: "elem4 v i = to_logic4 (elem9 v i)"
  by (simp add: elem4_def elem9_def)

lemma elem9_logic4: "\<not> is_logic9 v \<Longrightarrow> elem9 v i = to_logic9 (elem4 v i)"
  by (simp add: elem9_def)

text \<open>Introduction rules: a value is well formed and has the stated elements.\<close>

lemma logic4_ok_4I:
  assumes "\<not> is_logic9 v" "width4 v \<le> size_max div 4" "plane_ok (width4 v) (aval_words v)"
    "plane_ok (width4 v) (bval_words v)" "plane2_words v = []" "plane3_words v = []"
  shows "logic4_ok v"
  using assms by (simp add: logic4_ok_def)

lemma logic4_ok_9I:
  assumes "is_logic9 v" "width4 v \<le> size_max div 4" "0 < width4 v"
    and "\<And>p. p < 4 \<Longrightarrow> plane_ok (width4 v) (logic9_plane v p)"
    and "\<And>i p. i < width4 v \<Longrightarrow> p < 4 \<Longrightarrow> read_bit (logic9_plane v p) i = encoded_bit (f i) p"
  shows "logic4_ok v" "\<And>i. i < width4 v \<Longrightarrow> elem9 v i = f i"
  using assms by (auto simp: logic4_ok_9 codes_ok_iff intro!: elem9I)

lemma logic4_ok_zero_width:
  assumes "width4 v = 0"
  shows "logic4_ok v \<longleftrightarrow> aval_words v = [] \<and> bval_words v = [] \<and> plane2_words v = [] \<and> plane3_words v = []"
  using assms by (auto simp: logic4_ok_def codes_ok_def)

subsection \<open>Promotion\<close>

lemma promote_frame [simp]:
  "width4 (promote_to_logic9 v) = width4 v" "is_logic9 (promote_to_logic9 v)"
  by (simp_all add: promote_to_logic9_def Let_def)

lemma read_bit_map:
  "i < 64 * length ws \<Longrightarrow> read_bit (map f ws) i = bit (f (ws ! (i div 64))) (i mod 64)"
  by (simp add: read_bit_eq_bit)

lemma promote_ok:
  assumes "logic4_ok v"
  shows "logic4_ok (promote_to_logic9 v)"
    and "i < width4 v \<Longrightarrow> elem9 (promote_to_logic9 v) i = elem9 v i"
proof -
  have "logic4_ok (promote_to_logic9 v) \<and> (\<forall>i<width4 v. elem9 (promote_to_logic9 v) i = elem9 v i)"
  proof (cases "is_logic9 v \<or> width4 v = 0")
    case True
    with assms show ?thesis
      by (auto simp: promote_to_logic9_def logic4_ok_zero_width mask_unused_bits_def Let_def mask_last_def)
  next
    case False
    then have f: "\<not> is_logic9 v" "0 < width4 v" by auto
    define u where "u = promote_to_logic9 v"
    have len: "length (aval_words v) = words_for (width4 v)" "length (bval_words v) = words_for (width4 v)"
      using assms by (simp_all add: logic4_ok_def plane_ok_length)
    have planes: "logic9_plane u 0 = mask_last (aval_words v) (width4 v)"
      "logic9_plane u (Suc 0) = mask_last (map NOT (bval_words v)) (width4 v)"
      "logic9_plane u 2 = mask_last (map2 (\<lambda>a b. NOT a AND b) (aval_words v) (bval_words v)) (width4 v)"
      "logic9_plane u 3 = mask_last (replicate (words_for (width4 v)) 0) (width4 v)"
      using f by (simp_all add: u_def promote_to_logic9_def mask_unused_bits_def logic9_plane_def Let_def)
    have "read_bit (logic9_plane u p) i = encoded_bit (elem9 v i) p" if i: "i < width4 v" and p: "p < 4" for i p
    proof -
      have d: "i div 64 < words_for (width4 v)" using i by (rule less_words_for)
      have "read_bit (map NOT (bval_words v)) i = (\<not> read_bit (bval_words v) i)"
        "read_bit (map2 (\<lambda>a b. NOT a AND b) (aval_words v) (bval_words v)) i =
          (\<not> read_bit (aval_words v) i \<and> read_bit (bval_words v) i)"
        using d len by (simp_all add: read_bit_eq_bit bit_u64_simps)
      then show ?thesis
        using lt4_cases [OF p] i f len
        by (auto simp: planes read_mask_last_in read_plane4 elem9_logic4 encoded_to_logic9)
    qed
    moreover have "plane_ok (width4 v) (logic9_plane u p)" if p: "p < 4" for p
      using lt4_cases [OF p] by (auto simp: planes len)
    ultimately show ?thesis
      using logic4_ok_9I [of u "elem9 v"] f assms by (simp add: u_def logic4_ok_def)
  qed
  then show "logic4_ok (promote_to_logic9 v)"
    "i < width4 v \<Longrightarrow> elem9 (promote_to_logic9 v) i = elem9 v i" by auto
qed


subsection \<open>Reading and writing elements\<close>

lemma put9_promoted:
  "put9 v i e = for_range 0 4 (\<lambda>p v. set_plane v p (write_bit (logic9_plane v p) i (encoded_bit e p))) (promote_to_logic9 v)"
  by (simp add: put9_def) (simp add: promote_to_logic9_def)

lemma put9_frame [simp]: "width4 (put9 v i e) = width4 v" "is_logic9 (put9 v i e)"
  unfolding put9_promoted by simp_all

lemma put9_ok:
  assumes "logic4_ok v" "i < width4 v"
  shows "logic4_ok (put9 v i e)"
    and "j < width4 v \<Longrightarrow> elem9 (put9 v i e) j = (if j = i then e else elem9 v j)"
proof -
  define u where "u = promote_to_logic9 v"
  have u: "logic4_ok u" "is_logic9 u" "width4 u = width4 v" "\<And>j. j < width4 v \<Longrightarrow> elem9 u j = elem9 v j"
    using promote_ok [OF assms(1)] by (simp_all add: u_def)
  have planes: "logic9_plane (put9 v i e) p = write_bit (logic9_plane u p) i (encoded_bit e p)" if "p < 4" for p
    using that u assms(2) unfolding put9_promoted u_def [symmetric] by (subst plane_loop) simp_all
  have ok: "plane_ok (width4 v) (logic9_plane u p)" if "p < 4" for p
    using u assms(2) that by (auto simp: logic4_ok_9)
  have "read_bit (logic9_plane (put9 v i e) p) j = encoded_bit (if j = i then e else elem9 v j) p"
    if "j < width4 v" "p < 4" for j p
    using that plane_ok_in [OF ok assms(2)] u by (simp add: planes read_write_bit read_plane9)
  moreover have "plane_ok (width4 v) (logic9_plane (put9 v i e) p)" if "p < 4" for p
    using that ok assms(2) by (simp add: planes)
  ultimately show "logic4_ok (put9 v i e)"
    and "j < width4 v \<Longrightarrow> elem9 (put9 v i e) j = (if j = i then e else elem9 v j)"
    using logic4_ok_9I [of "put9 v i e" "\<lambda>j. if j = i then e else elem9 v j"] u(1) assms
    by (simp_all add: logic4_ok_def)
qed

lemma put4_logic4:
  "\<not> is_logic9 v \<Longrightarrow> put4 v i e = v\<lparr>aval_words := write_bit (aval_words v) i (aval_of e),
                                  bval_words := write_bit (bval_words v) i (bval_of e)\<rparr>"
  by (cases e) (simp_all add: put4_def aval_of_def bval_of_def)

lemma put4_frame [simp]: "width4 (put4 v i e) = width4 v" "is_logic9 (put4 v i e) = is_logic9 v"
proof -
  have "width4 (put4 v i e) = width4 v \<and> is_logic9 (put4 v i e) = is_logic9 v"
    by (cases "is_logic9 v") (simp add: put4_def, simp add: put4_logic4)
  then show "width4 (put4 v i e) = width4 v" "is_logic9 (put4 v i e) = is_logic9 v" by simp_all
qed

lemma put4_ok:
  assumes "logic4_ok v" "\<not> is_logic9 v" "i < width4 v"
  shows "logic4_ok (put4 v i e)" "elem4 (put4 v i e) j = (if j = i then e else elem4 v j)"
  using assms plane_ok_in [OF _ assms(3)]
  by (auto simp: logic4_ok_def put4_logic4 elem4_eq read_write_bit)

lemma logic4_eqI4:
  assumes "logic4_ok v" "logic4_ok u" "\<not> is_logic9 v" "\<not> is_logic9 u" "width4 v = width4 u"
    and "\<And>i. i < width4 v \<Longrightarrow> elem4 v i = elem4 u i"
  shows "v = u"
  using assms plane_ok_eqI [of "width4 v" "aval_words v" "aval_words u"]
    plane_ok_eqI [of "width4 v" "bval_words v" "bval_words u"]
  by (intro packed_logic4.equality) (simp_all add: logic4_ok_def read_plane4)

lemma logic4_eqI_elem9:
  assumes "logic4_ok v" "logic4_ok u" "is_logic9 v = is_logic9 u" "width4 v = width4 u"
    and "\<And>i. i < width4 v \<Longrightarrow> elem9 v i = elem9 u i"
  shows "v = u"
proof (cases "is_logic9 v")
  case False
  with assms show ?thesis by (intro logic4_eqI4) (simp_all add: elem4_elem9)
next
  case True
  show ?thesis
  proof (cases "width4 v = 0")
    case True
    with assms show ?thesis
      by (intro packed_logic4.equality) (simp_all add: logic4_ok_zero_width)
  next
    case False
    have "logic9_plane v p = logic9_plane u p" if "p < 4" for p
      using assms True False that
      by (intro plane_ok_eqI [of "width4 v"]) (auto simp: read_plane9 logic4_ok_9 [OF True] logic4_ok_9 [of u])
    with True False assms show ?thesis by (intro logic4_eqI9) simp_all
  qed
qed

interpretation l4: packed_vector width4 elem4 put4 "\<lambda>v. logic4_ok v \<and> \<not> is_logic9 v"
  by unfold_locales (auto simp: put4_ok intro: logic4_eqI4)

interpretation l9: packed_vector width4 elem9 put9 "\<lambda>v. logic4_ok v \<and> is_logic9 v"
  by unfold_locales (auto simp: put9_ok intro: logic4_eqI_elem9)

lemma packed_eq_iff:
  assumes "logic4_ok v" "logic4_ok u"
  shows "packed_eq v u \<longleftrightarrow> v = u"
proof
  assume eq: "packed_eq v u"
  have l2: "[0..<2] = [0, 1::nat]" and l4: "[0..<4] = [0, 1, 2, 3::nat]" by (simp_all add: upt_rec)
  from eq assms show "v = u"
    by (cases "width4 v = 0"; cases "is_logic9 v")
       (auto simp: packed_eq_def l2 l4 logic9_plane_simps logic4_ok_zero_width logic4_ok_def split: if_splits
          intro!: packed_logic4.equality)
qed (simp add: packed_eq_def list_all_iff)

lemma put4_elem9:
  assumes "logic4_ok v" "i < width4 v" "j < width4 v"
  shows "elem9 (put4 v i e) j = (if j = i then to_logic9 e else elem9 v j)"
  using assms by (cases "is_logic9 v") (simp_all add: elem9_logic4 put4_ok, simp add: put4_def put9_ok)

subsection \<open>Filling and construction\<close>

lemma fill_planes_frame [simp]:
  "width4 (fill_planes v e) = width4 v" "is_logic9 (fill_planes v e) = is_logic9 v"
  unfolding fill_planes_def by simp_all

lemma fill_planes_ok:
  assumes "is_logic9 v" "logic4_ok v"
  shows "logic4_ok (fill_planes v e)" "i < width4 v \<Longrightarrow> elem9 (fill_planes v e) i = e"
proof -
  have "logic4_ok (fill_planes v e) \<and> (\<forall>i<width4 v. elem9 (fill_planes v e) i = e)"
  proof (cases "width4 v = 0")
    case True
    with assms show ?thesis
      by (simp add: logic4_ok_zero_width fill_planes_def for_range_4 set_plane_def mask_unused_bits_def mask_last_def)
  next
    case False
    have planes: "logic9_plane (fill_planes v e) p =
        mask_last (replicate (words_for (width4 v)) (if encoded_bit e p then NOT 0 else 0)) (width4 v)" if "p < 4" for p
    proof -
      have "length (logic9_plane v p) = words_for (width4 v)"
        using assms False that by (simp add: logic4_ok_9 plane_ok_length)
      then show ?thesis
        using assms(1) False that unfolding fill_planes_def
        by (subst logic9_plane_mask) (simp_all add: plane_loop [where f = "\<lambda>p ws. replicate (length ws) (if encoded_bit e p then NOT 0 else 0)"])
    qed
    have "read_bit (logic9_plane (fill_planes v e) p) i = encoded_bit e p" if "i < width4 v" "p < 4" for i p
      using that by (simp add: planes read_mask_last_in)
    with False assms show ?thesis
      using logic4_ok_9I [of "fill_planes v e" "\<lambda>_. e"] by (simp add: planes logic4_ok_def)
  qed
  then show "logic4_ok (fill_planes v e)" "i < width4 v \<Longrightarrow> elem9 (fill_planes v e) i = e" by auto
qed

lemma fill4_frame [simp]: "width4 (fill4 v e) = width4 v" "is_logic9 (fill4 v e) = is_logic9 v"
  by (simp_all add: fill4_def)

lemma fill4_logic4:
  assumes "\<not> is_logic9 v" "length (aval_words v) = words_for (width4 v)" "length (bval_words v) = words_for (width4 v)"
    "width4 v \<le> size_max div 4" "plane2_words v = []" "plane3_words v = []"
  shows "logic4_ok (fill4 v e)" "i < width4 v \<Longrightarrow> elem4 (fill4 v e) i = e"
proof -
  have f: "fill4 v e = v\<lparr>
      aval_words := mask_last (replicate (words_for (width4 v)) (if aval_of e then NOT 0 else 0)) (width4 v),
      bval_words := mask_last (replicate (words_for (width4 v)) (if bval_of e then NOT 0 else 0)) (width4 v)\<rparr>"
    using assms by (simp add: fill4_def mask_unused_bits_def aval_of_def bval_of_def)
  show "logic4_ok (fill4 v e)" using assms by (simp add: f logic4_ok_def)
  show "elem4 (fill4 v e) i = e" if "i < width4 v"
  proof -
    have "read_bit (aval_words (fill4 v e)) i = aval_of e" "read_bit (bval_words (fill4 v e)) i = bval_of e"
      using that by (simp_all add: f read_mask_last_in)
    with assms(1) show ?thesis by (simp add: elem4_eq)
  qed
qed

lemma PackedLogic4_cases:
  "if width \<le> size_max div 4
   then \<exists>v. PackedLogic4 width e = Inr v \<and> logic4_ok v \<and> \<not> is_logic9 v \<and> width4 v = width \<and> (\<forall>i<width. elem4 v i = e)
   else PackedLogic4 width e = Inl Length_error"
proof (cases "width \<le> size_max div 4")
  case True
  then have "width \<le> size_max - 63" by (simp add: size_max_def)
  with True show ?thesis
    using fill4_logic4 [of "\<lparr>width4 = width, is_logic9 = False, aval_words = replicate (words_for width) 0,
       bval_words = replicate (words_for width) 0, plane2_words = [], plane3_words = []\<rparr>"]
    by (simp add: PackedLogic4_def checked_packed_width_def word_count_def)
next
  case False
  then show ?thesis by (simp add: PackedLogic4_def checked_packed_width_def)
qed

lemma PackedLogic4_obtain:
  assumes "width \<le> size_max div 4"
  obtains v where "PackedLogic4 width e = Inr v" "logic4_ok v" "\<not> is_logic9 v" "width4 v = width"
    "\<And>i. i < width \<Longrightarrow> elem4 v i = e"
  using PackedLogic4_cases [of width e] assms by auto

subsection \<open>Properties\<close>

lemma put4_ok_any: "logic4_ok v \<Longrightarrow> i < width4 v \<Longrightarrow> logic4_ok (put4 v i e)"
  by (cases "is_logic9 v") (simp_all add: put4_ok, simp add: put4_def put9_ok)

text \<open>
  C24: Element access of a well-formed packed value of either kind: writing a nine-state value
  promotes a four-state vector and changes that element only; writing a four-state value keeps the
  kind and changes that element only, so the other elements of a nine-state vector keep their
  nine-state values; both keep the invariant; a four-state read is the collapsed nine-state one; and
  every access at or beyond the width throws out_of_range.
\<close>

theorem packed_logic4_elements:
  assumes "logic4_ok v"
  shows "if i < width4 v
    then (\<exists>u. logic4_set_logic9 v i e9 = Inr u \<and> logic4_ok u \<and> is_logic9 u \<and> width4 u = width4 v \<and>
            (\<forall>j<width4 v. logic4_get_logic9 u j = Inr (if j = i then e9 else elem9 v j))) \<and>
         (\<exists>u. logic4_set v i e4 = Inr u \<and> logic4_ok u \<and> is_logic9 u = is_logic9 v \<and> width4 u = width4 v \<and>
            (\<forall>j<width4 v. logic4_get_logic9 u j = Inr (if j = i then to_logic9 e4 else elem9 v j)) \<and>
            (\<forall>j<width4 v. logic4_get u j = Inr (if j = i then e4 else elem4 v j))) \<and>
         logic4_get_logic9 v i = Inr (elem9 v i) \<and> logic4_get v i = Inr (to_logic4 (elem9 v i))
    else logic4_set_logic9 v i e9 = Inl Out_of_range \<and> logic4_set v i e4 = Inl Out_of_range \<and>
         logic4_get v i = Inl Out_of_range \<and> logic4_get_logic9 v i = Inl Out_of_range"
  using assms
  by (simp add: logic4_set_logic9_def logic4_set_def logic4_get_def logic4_get_logic9_def check_index_def
      put9_ok put4_ok_any elem4_elem9 put4_elem9)

theorem packed_logic4_elements_witness:
  "\<exists>v u t. PackedLogic4 70 X4 = Inr v \<and> logic4_set_logic9 v 65 L9 = Inr u \<and>
     logic4_get_logic9 u 65 = Inr L9 \<and> logic4_get_logic9 u 64 = Inr X9 \<and> logic4_get v 70 = Inl Out_of_range \<and>
     logic4_set u 3 One4 = Inr t \<and> logic4_get_logic9 t 65 = Inr L9 \<and> logic4_get_logic9 t 3 = Inr One9"
proof -
  obtain v where v: "PackedLogic4 70 X4 = Inr v" "logic4_ok v" "\<not> is_logic9 v" "width4 v = 70"
    "\<And>i. i < 70 \<Longrightarrow> elem4 v i = X4"
    by (rule PackedLogic4_obtain [of 70 X4]) (simp_all add: size_max_def)
  obtain u where u: "logic4_set_logic9 v 65 L9 = Inr u" "logic4_ok u" "width4 u = 70"
    "\<forall>j<70. logic4_get_logic9 u j = Inr (if j = 65 then L9 else elem9 v j)"
    using packed_logic4_elements [OF v(2), of 65 L9 X4] v(4) by auto
  have L: "elem9 u 65 = L9" using packed_logic4_elements [OF u(2), of 65 L9 X4] u(3,4) by simp
  obtain t where "logic4_set u 3 One4 = Inr t" "\<forall>j<70. logic4_get_logic9 t j = Inr (if j = 3 then One9 else elem9 u j)"
    using packed_logic4_elements [OF u(2), of 3 L9 One4] u(3) by auto
  with v u L packed_logic4_elements [OF v(2), of 70 L9 X4] show ?thesis by (auto simp: elem9_logic4)
qed

text \<open>
  C25: The equality operator, which compares words plane by plane, holds of two well-formed values
  exactly when they have the same kind, the same width and the same elements: masking the unused
  bits and normalising the codes make the representation unique.
\<close>

theorem packed_eq_elements:
  assumes "logic4_ok v" "logic4_ok u"
  shows "packed_eq v u \<longleftrightarrow>
    is_logic9 v = is_logic9 u \<and> width4 v = width4 u \<and> (\<forall>i<width4 v. elem9 v i = elem9 u i)"
  using packed_eq_iff [OF assms] logic4_eqI_elem9 [OF assms] by auto

theorem packed_eq_elements_witness:
  "\<exists>v u. PackedLogic4 3 X4 = Inr v \<and> PackedLogic4 3 Z4 = Inr u \<and> \<not> packed_eq v u \<and> packed_eq v v"
proof -
  have w: "3 \<le> size_max div 4" by (simp add: size_max_def)
  obtain v where v: "PackedLogic4 3 X4 = Inr v" "logic4_ok v" "\<not> is_logic9 v" "width4 v = 3"
    "\<And>i. i < 3 \<Longrightarrow> elem4 v i = X4" using PackedLogic4_obtain [OF w, of X4] by blast
  obtain u where u: "PackedLogic4 3 Z4 = Inr u" "logic4_ok u" "\<not> is_logic9 u" "width4 u = 3"
    "\<And>i. i < 3 \<Longrightarrow> elem4 u i = Z4" using PackedLogic4_obtain [OF w, of Z4] by blast
  have "elem9 v 0 \<noteq> elem9 u 0" using v u by (simp add: elem9_logic4)
  then show ?thesis
    using packed_eq_elements [OF v(2) u(2)] packed_eq_elements [OF v(2) v(2)] v u by auto
qed

end
