(* ===== verification/Packed_Ops.thy ===== *)
theory Packed_Ops
  imports Packed_Logic4
begin

text \<open>
  The bulk operations of \<^verbatim>\<open>PackedLogic4\<close> in \<^verbatim>\<open>src/runtime/packed_value.cpp\<close>:
  parsing and printing, construction from words, the single-word reads and writes of the execution
  fast paths, insertion and extraction of bit ranges, and the conversions between four-state and
  nine-state vectors.  Each is characterised by the list of elements of its result.
\<close>

subsection \<open>Strings\<close>

definition parse_word4 :: "string \<Rightarrow> nat \<Rightarrow> nat \<Rightarrow> (u64 \<times> u64) result" where
  "parse_word4 value first limit =
     for_result first limit (\<lambda>offset (a, b).
       case parse_logic4 (value ! (length value - offset - 1)) of
         None \<Rightarrow> Inl Invalid_argument
       | Some parsed \<Rightarrow>
           let bit = push_bit (offset - first) 1
           in Inr (case parsed of
                Zero4 \<Rightarrow> (a, b)
              | One4 \<Rightarrow> (a OR bit, b)
              | Z4 \<Rightarrow> (a, b OR bit)
              | X4 \<Rightarrow> (a OR bit, b OR bit))) (0, 0)"

definition from_msb_string :: "string \<Rightarrow> packed_logic4 result" where
  "from_msb_string value =
     bind_result (PackedLogic4 (length value) Zero4) (\<lambda>result.
       if value = [] then Inr result
       else for_result 0 (length (aval_words result)) (\<lambda>word result.
         let first = word * 64; limit = min (length value) (first + 64)
         in bind_result (parse_word4 value first limit) (\<lambda>(a, b).
              Inr (result\<lparr>aval_words := (aval_words result)[word := a],
                          bval_words := (bval_words result)[word := b]\<rparr>))) result)"

definition parse_word9 :: "string \<Rightarrow> nat \<Rightarrow> nat \<Rightarrow> u64 list result" where
  "parse_word9 value first limit =
     for_result first limit (\<lambda>offset planes.
       case parse_logic9 (value ! (length value - offset - 1)) of
         None \<Rightarrow> Inl Invalid_argument
       | Some parsed \<Rightarrow>
           let bit = push_bit (offset - first) 1
           in Inr (for_range 0 4 (\<lambda>plane planes.
                if encoded_bit (canonical_logic9_value parsed) plane
                then planes[plane := planes ! plane OR bit] else planes) planes)) (replicate 4 0)"

definition from_logic9_msb_string :: "string \<Rightarrow> packed_logic4 result" where
  "from_logic9_msb_string value =
     bind_result (PackedLogic4 (length value) Zero4) (\<lambda>result.
       for_result 0 (words_for (length value)) (\<lambda>word result.
         let first = word * 64; limit = min (length value) (first + 64)
         in bind_result (parse_word9 value first limit) (\<lambda>planes.
              Inr (for_range 0 4 (\<lambda>plane result.
                set_plane result plane ((logic9_plane result plane)[word := planes ! plane])) result)))
         (promote_to_logic9 result))"

definition to_msb_string :: "packed_logic4 \<Rightarrow> string" where
  "to_msb_string v =
     (if \<not> is_logic9 v
      then for_range 0 (width4 v) (\<lambda>index result.
             let mask = push_bit (index mod 64) 1; word = index div 64
             in result[width4 v - index - 1 :=
                  if bval_words v ! word AND mask \<noteq> 0
                  then (if aval_words v ! word AND mask \<noteq> 0 then CHR ''X'' else CHR ''Z'')
                  else (if aval_words v ! word AND mask \<noteq> 0 then CHR ''1'' else CHR ''0'')])
           (replicate (width4 v) CHR ''X'')
      else for_range 0 (width4 v) (\<lambda>index result.
             let mask = push_bit (index mod 64) 1; word = index div 64;
                 encoded = (if aval_words v ! word AND mask \<noteq> 0 then 1 else 0 :: nat)
                        OR (if bval_words v ! word AND mask \<noteq> 0 then 2 else 0)
                        OR (if logic9_plane v 2 ! word AND mask \<noteq> 0 then 4 else 0)
                        OR (if logic9_plane v 3 ! word AND mask \<noteq> 0 then 8 else 0)
             in result[width4 v - index - 1 := ''UX01ZWLH-'' !
                  (if encoded \<le> logic9_code DontCare9 then encoded else logic9_code X9)])
           (replicate (width4 v) CHR ''X''))"

subsection \<open>Construction from words\<close>

definition from_aval_bval :: "nat \<Rightarrow> u64 \<Rightarrow> u64 \<Rightarrow> packed_logic4 result" where
  "from_aval_bval width aval bval =
     (if width = 0 \<or> width > 64 then Inl Invalid_argument
      else bind_result (PackedLogic4 width Zero4) (\<lambda>result.
        let mask = (if width = 64 then NOT 0 else push_bit width 1 - 1)
        in Inr (result\<lparr>aval_words := (aval_words result)[0 := aval AND mask],
                       bval_words := (bval_words result)[0 := bval AND mask]\<rparr>)))"

definition from_word_planes :: "nat \<Rightarrow> u64 list \<Rightarrow> u64 list \<Rightarrow> packed_logic4 result" where
  "from_word_planes width aval bval =
     bind_result (word_count width) (\<lambda>words.
       if width = 0 \<or> length aval \<noteq> words \<or> length bval \<noteq> words then Inl Invalid_argument
       else bind_result (PackedLogic4 width Zero4) (\<lambda>result.
         Inr (mask_unused_bits (result\<lparr>aval_words := aval, bval_words := bval\<rparr>))))"

definition from_logic9_word_planes :: "nat \<Rightarrow> u64 list \<Rightarrow> u64 list \<Rightarrow> u64 list \<Rightarrow> u64 list \<Rightarrow> packed_logic4 result" where
  "from_logic9_word_planes width plane0 plane1 plane2 plane3 =
     bind_result (word_count width) (\<lambda>words.
       if width = 0 \<or> length plane0 \<noteq> words \<or> length plane1 \<noteq> words
          \<or> length plane2 \<noteq> words \<or> length plane3 \<noteq> words then Inl Invalid_argument
       else bind_result (PackedLogic4 width Zero4) (\<lambda>result.
         let result = promote_to_logic9 result;
             result = set_plane (set_plane (set_plane (set_plane result 0 plane0) 1 plane1) 2 plane2) 3 plane3;
             result = for_range 0 words (\<lambda>word result.
               let remaining_width = width - word * 64;
                   value = normalize_invalid_codes_to_x
                     \<lparr>w9_width = min remaining_width 64,
                      w9_planes = map (\<lambda>plane. logic9_plane result plane ! word) [0..<4]\<rparr>
               in for_range 0 4 (\<lambda>plane result.
                    set_plane result plane ((logic9_plane result plane)[word := w9_planes value ! plane])) result)
               result
         in Inr (mask_unused_bits result)))"

definition from_logic9_word :: "logic9_word \<Rightarrow> packed_logic4 result" where
  "from_logic9_word value =
     (if w9_width value = 0 \<or> w9_width value > 64 then Inl Invalid_argument
      else bind_result (PackedLogic4 (w9_width value) Zero4) (\<lambda>result.
        let p = w9_planes (normalize_invalid_codes_to_x value)
        in Inr (mask_unused_bits (result\<lparr>is_logic9 := True, aval_words := [p ! 0], bval_words := [p ! 1],
                  plane2_words := [p ! 2], plane3_words := [p ! 3]\<rparr>))))"

definition assign_logic9_word :: "packed_logic4 \<Rightarrow> logic9_word \<Rightarrow> packed_logic4 result" where
  "assign_logic9_word v source =
     (if \<not> is_logic9 v \<or> width4 v = 0 \<or> width4 v > 64 \<or> w9_width source \<noteq> width4 v
      then Inl Invalid_argument
      else
        let canonical_source = normalize_invalid_codes_to_x source
        in Inr (mask_unused_bits (for_range 0 4 (\<lambda>plane v.
             set_plane v plane ((logic9_plane v plane)[0 := w9_planes canonical_source ! plane])) v)))"

definition insert_masked_logic9_word :: "packed_logic4 \<Rightarrow> logic9_word \<Rightarrow> u64 \<Rightarrow> packed_logic4 result" where
  "insert_masked_logic9_word v source mask0 =
     (if \<not> is_logic9 v \<or> width4 v = 0 \<or> width4 v > 64 \<or> w9_width source \<noteq> width4 v
      then Inl Invalid_argument
      else
        let mask = mask0 AND final_word_mask (width4 v);
            canonical_source = normalize_invalid_codes_to_x source
        in Inr (for_range 0 4 (\<lambda>plane v. set_plane v plane ((logic9_plane v plane)[0 :=
                  (logic9_plane v plane ! 0 AND NOT mask) OR (w9_planes canonical_source ! plane AND mask)])) v))"

definition matches_masked_logic9_word :: "packed_logic4 \<Rightarrow> logic9_word \<Rightarrow> u64 \<Rightarrow> bool" where
  "matches_masked_logic9_word v source mask0 =
     (if \<not> is_logic9 v \<or> width4 v = 0 \<or> width4 v > 64 \<or> w9_width source \<noteq> width4 v then False
      else
        let mask = mask0 AND final_word_mask (width4 v);
            canonical_source = normalize_invalid_codes_to_x source
        in list_all (\<lambda>plane. (logic9_plane v plane ! 0 XOR w9_planes canonical_source ! plane) AND mask = 0) [0..<4])"

subsection \<open>Known values and single words\<close>

definition known_unsigned_value :: "packed_logic4 \<Rightarrow> u64 option" where
  "known_unsigned_value v =
     (if width4 v = 0 \<or> is_logic9 v then None
      else if list_ex (\<lambda>word. word \<noteq> 0) (bval_words v) \<or> list_ex (\<lambda>word. word \<noteq> 0) (drop 1 (aval_words v))
      then None
      else Some (hd (aval_words v)))"

text \<open>The result is the two's complement reading of the returned word.\<close>

definition known_signed_value :: "packed_logic4 \<Rightarrow> int option" where
  "known_signed_value v =
     (if width4 v = 0 \<or> is_logic9 v then None
      else if list_ex (\<lambda>word. word \<noteq> 0) (bval_words v) then None
      else
        let low = hd (aval_words v)
        in if width4 v < 64
           then let sign = push_bit (width4 v - 1) 1
                in Some (sint (if low AND sign \<noteq> 0 then low OR NOT (final_word_mask (width4 v)) else low))
           else
             let negative = (low AND push_bit 63 1 \<noteq> 0)
             in if list_ex (\<lambda>index.
                     let mask = (if index + 1 = length (aval_words v) then final_word_mask (width4 v) else NOT 0);
                         extension = (if negative then mask else 0)
                     in aval_words v ! index AND mask \<noteq> extension) [1..<length (aval_words v)]
                then None else Some (sint low))"

definition low_word :: "packed_logic4 \<Rightarrow> logic4_word result" where
  "low_word v =
     (if width4 v = 0 \<or> width4 v > 64 then Inl Invalid_argument
      else if is_logic9 v then Inl Invalid_argument
      else Inr \<lparr>w4_width = width4 v, w4_aval = hd (aval_words v), w4_bval = hd (bval_words v)\<rparr>)"

definition unchecked_low_word :: "packed_logic4 \<Rightarrow> logic4_word" where
  "unchecked_low_word v =
     (if width4 v = 0 then \<lparr>w4_width = 0, w4_aval = 0, w4_bval = 0\<rparr>
      else \<lparr>w4_width = width4 v, w4_aval = hd (aval_words v), w4_bval = hd (bval_words v)\<rparr>)"

definition logic9_low_word :: "packed_logic4 \<Rightarrow> logic9_word result" where
  "logic9_low_word v =
     (if width4 v = 0 \<or> width4 v > 64 then Inl Invalid_argument
      else
        let planes =
          (if is_logic9 v then map (\<lambda>plane. logic9_plane v plane ! 0) [0..<4]
           else for_range 0 (width4 v) (\<lambda>index planes.
                  for_range 0 4 (\<lambda>plane planes.
                    if encoded_bit (to_logic9 (elem4 v index)) plane
                    then planes[plane := planes ! plane OR push_bit index 1] else planes) planes)
                (replicate 4 0))
        in Inr (normalize_invalid_codes_to_x \<lparr>w9_width = width4 v, w9_planes = planes\<rparr>))"

definition assign_word :: "packed_logic4 \<Rightarrow> logic4_word \<Rightarrow> packed_logic4 result" where
  "assign_word v source =
     (if is_logic9 v \<or> width4 v = 0 \<or> width4 v > 64 \<or> w4_width source \<noteq> width4 v then Inl Invalid_argument
      else
        let mask = final_word_mask (width4 v)
        in Inr (v\<lparr>aval_words := (aval_words v)[0 := w4_aval source AND mask],
                  bval_words := (bval_words v)[0 := w4_bval source AND mask]\<rparr>))"

subsection \<open>Words at an offset\<close>

definition word_range_bad :: "packed_logic4 \<Rightarrow> logic4_word \<Rightarrow> nat \<Rightarrow> bool" where
  "word_range_bad v source offset \<longleftrightarrow> w4_width source = 0 \<or> w4_width source > 64
     \<or> offset > width4 v \<or> w4_width source > width4 v - offset"

definition insert_word :: "packed_logic4 \<Rightarrow> logic4_word \<Rightarrow> nat \<Rightarrow> packed_logic4 result" where
  "insert_word v source offset =
     (if word_range_bad v source offset then Inl Invalid_argument
      else if \<not> is_logic9 v
      then Inr (mask_unused_bits (v\<lparr>
             aval_words := copy_word_range (aval_words v) (w4_aval source) offset (w4_width source),
             bval_words := copy_word_range (bval_words v) (w4_bval source) offset (w4_width source)\<rparr>))
      else
        let mask = final_word_mask (w4_width source);
            aval = w4_aval source AND mask;
            bval = w4_bval source AND mask;
            write = (\<lambda>plane word v. set_plane v plane
              (copy_word_range (logic9_plane v plane) word offset (w4_width source)))
        in Inr (mask_unused_bits (write 3 0 (write 2 (NOT aval AND bval) (write 1 (NOT bval) (write 0 aval v))))))"

definition matches_word :: "packed_logic4 \<Rightarrow> logic4_word \<Rightarrow> nat \<Rightarrow> bool result" where
  "matches_word v source offset =
     (if word_range_bad v source offset then Inl Invalid_argument
      else if is_logic9 v then Inr False
      else
        let mask = final_word_mask (w4_width source)
        in if width4 v \<le> 64
           then Inr (drop_bit offset (hd (aval_words v)) AND mask = w4_aval source AND mask
                  \<and> drop_bit offset (hd (bval_words v)) AND mask = w4_bval source AND mask)
           else Inr (read_word_range (aval_words v) offset (w4_width source) = w4_aval source AND mask
                  \<and> read_word_range (bval_words v) offset (w4_width source) = w4_bval source AND mask))"

definition insert_masked_word :: "packed_logic4 \<Rightarrow> logic4_word \<Rightarrow> u64 \<Rightarrow> nat \<Rightarrow> packed_logic4 result" where
  "insert_masked_word v source mask0 offset =
     (if word_range_bad v source offset then Inl Invalid_argument
      else
        let width_mask = final_word_mask (w4_width source);
            mask = mask0 AND width_mask
        in if mask = 0 then Inr v
           else if mask = width_mask then insert_word v source offset
           else if is_logic9 v
           then Inr (for_range 0 (w4_width source) (\<lambda>bit v.
                  if drop_bit bit mask AND 1 = 0 then v
                  else let aval = (drop_bit bit (w4_aval source) AND 1 \<noteq> 0);
                           bval = (drop_bit bit (w4_bval source) AND 1 \<noteq> 0)
                       in put4 v (offset + bit)
                            (if \<not> bval then (if aval then One4 else Zero4) else (if aval then X4 else Z4))) v)
           else if offset mod 64 = 0
           then let word = offset div 64
                in Inr (mask_unused_bits (v\<lparr>
                     aval_words := (aval_words v)[word := (aval_words v ! word AND NOT mask) OR (w4_aval source AND mask)],
                     bval_words := (bval_words v)[word := (bval_words v ! word AND NOT mask) OR (w4_bval source AND mask)]\<rparr>))
           else
             let current_aval = read_word_range (aval_words v) offset (w4_width source);
                 current_bval = read_word_range (bval_words v) offset (w4_width source)
             in Inr (mask_unused_bits (v\<lparr>
                  aval_words := copy_word_range (aval_words v)
                    ((current_aval AND NOT mask) OR (w4_aval source AND mask)) offset (w4_width source),
                  bval_words := copy_word_range (bval_words v)
                    ((current_bval AND NOT mask) OR (w4_bval source AND mask)) offset (w4_width source)\<rparr>)))"

definition matches_masked_word :: "packed_logic4 \<Rightarrow> logic4_word \<Rightarrow> u64 \<Rightarrow> nat \<Rightarrow> bool result" where
  "matches_masked_word v source mask0 offset =
     (if word_range_bad v source offset then Inl Invalid_argument
      else if is_logic9 v then Inr False
      else
        let mask = mask0 AND final_word_mask (w4_width source)
        in if mask = 0 then Inr True
           else if offset mod 64 = 0
           then let word = offset div 64
                in Inr ((aval_words v ! word XOR w4_aval source) AND mask = 0
                      \<and> (bval_words v ! word XOR w4_bval source) AND mask = 0)
           else Inr ((read_word_range (aval_words v) offset (w4_width source) XOR w4_aval source) AND mask = 0
                   \<and> (read_word_range (bval_words v) offset (w4_width source) XOR w4_bval source) AND mask = 0))"

subsection \<open>Ranges\<close>

definition insert_bits :: "packed_logic4 \<Rightarrow> packed_logic4 \<Rightarrow> nat \<Rightarrow> packed_logic4 result" where
  "insert_bits v source offset =
     (if width4 source = 0 \<or> offset > width4 v \<or> width4 source > width4 v - offset then Inl Invalid_argument
      else if \<not> is_logic9 v \<and> \<not> is_logic9 source
      then Inr (mask_unused_bits (v\<lparr>
             aval_words := copy_bit_range (aval_words v) (aval_words source) offset (width4 source),
             bval_words := copy_bit_range (bval_words v) (bval_words source) offset (width4 source)\<rparr>))
      else
        let v = promote_to_logic9 v;
            source_planes = (if is_logic9 source then source else promoted_to_logic9 source)
        in Inr (mask_unused_bits (for_range 0 4 (\<lambda>plane v. set_plane v plane
             (copy_bit_range (logic9_plane v plane) (logic9_plane source_planes plane) offset (width4 source))) v)))"

definition extract_bits :: "packed_logic4 \<Rightarrow> nat \<Rightarrow> nat \<Rightarrow> packed_logic4 result" where
  "extract_bits v offset width =
     (if width = 0 \<or> offset > width4 v \<or> width > width4 v - offset then Inl Invalid_argument
      else bind_result (PackedLogic4 width Zero4) (\<lambda>result.
        if \<not> is_logic9 v
        then Inr (mask_unused_bits (result\<lparr>
               aval_words := extract_bit_range (aval_words v) offset (aval_words result),
               bval_words := extract_bit_range (bval_words v) offset (bval_words result)\<rparr>))
        else Inr (mask_unused_bits (for_range 0 4 (\<lambda>plane result. set_plane result plane
               (extract_bit_range (logic9_plane v plane) offset (logic9_plane result plane)))
               (promote_to_logic9 result)))))"

subsection \<open>Conversions\<close>

definition collapse_logic9_to_logic4 :: "packed_logic9 \<Rightarrow> packed_logic4 result" where
  "collapse_logic9_to_logic4 value =
     bind_result (PackedLogic4 (width9 value) Zero4) (\<lambda>result.
       Inr (for_range 0 (width9 value) (\<lambda>index result. put4 result index (to_logic4 (logic9_elem value index))) result))"

definition collapse_to_logic4 :: "packed_logic4 \<Rightarrow> packed_logic4 result" where
  "collapse_to_logic4 value =
     (if \<not> is_logic9 value then Inr value
      else bind_result (PackedLogic4 (width4 value) Zero4) (\<lambda>result.
        Inr (for_range 0 (width4 value) (\<lambda>index result. put4 result index (to_logic4 (elem9 value index))) result)))"

definition expand_to_logic9 :: "packed_logic4 \<Rightarrow> packed_logic9 result" where
  "expand_to_logic9 value =
     bind_result (PackedLogic9 (width4 value) Zero9) (\<lambda>result.
       Inr (for_range 0 (width4 value) (\<lambda>index result. logic9_put result index (elem9 value index)) result))"

subsection \<open>Elements of words, numeric values\<close>

definition word_elem :: "logic4_word \<Rightarrow> nat \<Rightarrow> logic4" where
  "word_elem w i = logic4_of_bits (bit (w4_aval w) i) (bit (w4_bval w) i)"

definition word9_elem :: "logic9_word \<Rightarrow> nat \<Rightarrow> logic9" where
  "word9_elem w i = logic9_of_code (gather_code (\<lambda>p. bit (w9_planes w ! p) i))"

definition all_known :: "packed_logic4 \<Rightarrow> bool" where
  "all_known v \<longleftrightarrow> (\<forall>i<width4 v. elem4 v i = Zero4 \<or> elem4 v i = One4)"

text \<open>The value of a vector read as a binary number, and as a two's complement number.\<close>

definition unsigned_value :: "packed_logic4 \<Rightarrow> int" where
  "unsigned_value v = horner_sum of_bool 2 (map (\<lambda>i. elem4 v i = One4) [0..<width4 v])"

definition signed_value :: "packed_logic4 \<Rightarrow> int" where
  "signed_value v = signed_take_bit (width4 v - 1) (unsigned_value v)"

text \<open>The character of an element: nine-state digits for a nine-state value.\<close>

definition elem_char :: "packed_logic4 \<Rightarrow> nat \<Rightarrow> char" where
  "elem_char v i = (if is_logic9 v then to_char9 (elem9 v i) else to_char4 (elem4 v i))"

definition elems9 :: "packed_logic4 \<Rightarrow> logic9 list" where
  "elems9 v = map (elem9 v) [0..<width4 v]"

subsection \<open>Masked planes\<close>

lemma mask_unused_ok4:
  assumes "\<not> is_logic9 v" "width4 v \<le> size_max div 4" "length (aval_words v) = words_for (width4 v)"
    "length (bval_words v) = words_for (width4 v)" "plane2_words v = []" "plane3_words v = []"
  shows "logic4_ok (mask_unused_bits v)"
    "i < width4 v \<Longrightarrow> elem4 (mask_unused_bits v) i = logic4_of_bits (read_bit (aval_words v) i) (read_bit (bval_words v) i)"
  using assms by (simp_all add: logic4_ok_def elem4_eq mask_unused_bits_def read_mask_last_in)

lemma mask_unused_ok9:
  assumes "is_logic9 v" "0 < width4 v" "width4 v \<le> size_max div 4"
    and "\<And>p. p < 4 \<Longrightarrow> length (logic9_plane v p) = words_for (width4 v)"
    and "\<And>i p. i < width4 v \<Longrightarrow> p < 4 \<Longrightarrow> read_bit (logic9_plane v p) i = encoded_bit (f i) p"
  shows "logic4_ok (mask_unused_bits v)" "i < width4 v \<Longrightarrow> elem9 (mask_unused_bits v) i = f i"
  using logic4_ok_9I [of "mask_unused_bits v" f] assms
  by (simp_all add: logic9_plane_mask read_mask_last_in)

lemma logic4_ok_lengths:
  assumes "logic4_ok v"
  shows "length (aval_words v) = words_for (width4 v)" "length (bval_words v) = words_for (width4 v)"
    "is_logic9 v \<Longrightarrow> 0 < width4 v \<Longrightarrow> p < 4 \<Longrightarrow> length (logic9_plane v p) = words_for (width4 v)"
proof -
  show "length (aval_words v) = words_for (width4 v)" "length (bval_words v) = words_for (width4 v)"
    using assms by (simp_all add: logic4_ok_def plane_ok_length)
  show "length (logic9_plane v p) = words_for (width4 v)" if "is_logic9 v" "0 < width4 v" "p < 4"
    using assms that by (simp add: logic4_ok_9 plane_ok_length)
qed

lemma logic4_ok_planes4: "logic4_ok v \<Longrightarrow> \<not> is_logic9 v \<Longrightarrow> plane2_words v = [] \<and> plane3_words v = []"
  by (simp add: logic4_ok_def)

lemma logic4_ok_width: "logic4_ok v \<Longrightarrow> width4 v \<le> size_max div 4"
  by (simp add: logic4_ok_def)

lemma width_le_words: "logic4_ok v \<Longrightarrow> width4 v \<le> 64 * words_for (width4 v)"
  by (simp add: le_words_for)

subsection \<open>Insertion and extraction of ranges\<close>

lemma insert_bits_error:
  "width4 s = 0 \<or> width4 v < off + width4 s \<Longrightarrow> insert_bits v s off = Inl Invalid_argument"
  by (auto simp: insert_bits_def)

lemma insert_bits_ok:
  assumes "logic4_ok v" "logic4_ok s" "0 < width4 s" "off + width4 s \<le> width4 v"
  shows "\<exists>r. insert_bits v s off = Inr r \<and> logic4_ok r \<and> width4 r = width4 v \<and>
    is_logic9 r = (is_logic9 v \<or> is_logic9 s) \<and>
    (\<forall>i<width4 v. elem9 r i = (if off \<le> i \<and> i < off + width4 s then elem9 s (i - off) else elem9 v i))"
proof (cases "is_logic9 v \<or> is_logic9 s")
  case False
  define u where "u = v\<lparr>
    aval_words := copy_bit_range (aval_words v) (aval_words s) off (width4 s),
    bval_words := copy_bit_range (bval_words v) (bval_words s) off (width4 s)\<rparr>"
  have eq: "insert_bits v s off = Inr (mask_unused_bits u)"
    using False assms(3,4) by (simp add: insert_bits_def u_def)
  note len = logic4_ok_lengths [OF assms(1)] logic4_ok_lengths [OF assms(2)]
  have b: "off + width4 s \<le> 64 * length (aval_words v)" "width4 s \<le> 64 * length (aval_words s)"
    "off + width4 s \<le> 64 * length (bval_words v)" "width4 s \<le> 64 * length (bval_words s)"
    using assms(4) le_words_for [of "width4 v"] le_words_for [of "width4 s"] len by linarith+
  note ok = mask_unused_ok4 [of u]
  have r: "read_bit (aval_words u) i = aval_of (if off \<le> i \<and> i < off + width4 s then elem4 s (i - off) else elem4 v i)"
    "read_bit (bval_words u) i = bval_of (if off \<le> i \<and> i < off + width4 s then elem4 s (i - off) else elem4 v i)" for i
    using False by (simp_all add: u_def read_copy_bit_range assms(3) b read_plane4)
  have "logic4_ok (mask_unused_bits u)"
    using ok(1) False assms len logic4_ok_planes4 [OF assms(1)] logic4_ok_width [OF assms(1)] by (simp add: u_def)
  moreover have "elem4 (mask_unused_bits u) i = (if off \<le> i \<and> i < off + width4 s then elem4 s (i - off) else elem4 v i)"
    if "i < width4 v" for i
  proof -
    have "elem4 (mask_unused_bits u) i = logic4_of_bits (read_bit (aval_words u) i) (read_bit (bval_words u) i)"
      using ok(2) [of i] that False len logic4_ok_planes4 [OF assms(1)] logic4_ok_width [OF assms(1)] by (simp add: u_def)
    then show ?thesis unfolding r logic4_of_bits_of .
  qed
  ultimately show ?thesis
    using False eq by (auto simp: elem9_logic4 u_def)
next
  case True
  define v' where "v' = promote_to_logic9 v"
  define s' where "s' = promote_to_logic9 s"
  have v': "logic4_ok v'" "is_logic9 v'" "width4 v' = width4 v" "\<And>i. i < width4 v \<Longrightarrow> elem9 v' i = elem9 v i"
    and s': "logic4_ok s'" "is_logic9 s'" "width4 s' = width4 s" "\<And>i. i < width4 s \<Longrightarrow> elem9 s' i = elem9 s i"
    using promote_ok [OF assms(1)] promote_ok [OF assms(2)] by (simp_all add: v'_def s'_def)
  have w: "0 < width4 v" using assms(3,4) by simp
  define u where "u = for_range 0 4 (\<lambda>p v. set_plane v p
    (copy_bit_range (logic9_plane v p) (logic9_plane s' p) off (width4 s))) v'"
  have eq: "insert_bits v s off = Inr (mask_unused_bits u)"
    using True assms(3,4) unfolding insert_bits_def u_def v'_def s'_def promoted_to_logic9_def Let_def
    by (auto simp: promote_to_logic9_def [of s])
  have planes: "logic9_plane u p = copy_bit_range (logic9_plane v' p) (logic9_plane s' p) off (width4 s)" if "p < 4" for p
    using plane_loop [of v' p "\<lambda>p ws. copy_bit_range ws (logic9_plane s' p) off (width4 s)"] that v' w by (simp add: u_def)
  have len: "length (logic9_plane v' p) = words_for (width4 v)" "length (logic9_plane s' p) = words_for (width4 s)" if "p < 4" for p
    using logic4_ok_lengths(3) [OF v'(1,2)] logic4_ok_lengths(3) [OF s'(1,2)] v'(3) s'(3) w assms(3) that by simp_all
  have read: "read_bit (logic9_plane u p) i = encoded_bit (if off \<le> i \<and> i < off + width4 s then elem9 s (i - off) else elem9 v i) p"
    if "i < width4 v" "p < 4" for i p
    using that len assms(3,4) le_words_for [of "width4 v"] le_words_for [of "width4 s"] v'
      read_plane9 [OF s'(1,2), of "i - off" p] s'(3) s'(4) [of "i - off"]
    by (auto simp: planes read_copy_bit_range read_plane9)
  have "is_logic9 u" "width4 u = width4 v" using v' by (simp_all add: u_def)
  then show ?thesis
    using mask_unused_ok9 [of u "\<lambda>i. if off \<le> i \<and> i < off + width4 s then elem9 s (i - off) else elem9 v i"]
      read planes len w logic4_ok_width [OF assms(1)] eq True by simp
qed

lemma extract_bits_error:
  "width = 0 \<or> width4 v < off + width \<Longrightarrow> extract_bits v off width = Inl Invalid_argument"
  by (auto simp: extract_bits_def)

lemma extract_bits_ok:
  assumes "logic4_ok v" "0 < width" "off + width \<le> width4 v"
  shows "\<exists>r. extract_bits v off width = Inr r \<and> logic4_ok r \<and> width4 r = width \<and>
    is_logic9 r = is_logic9 v \<and> (\<forall>i<width. elem9 r i = elem9 v (off + i))"
proof -
  have "width \<le> size_max div 4" using assms(3) logic4_ok_width [OF assms(1)] by simp
  then obtain z where z: "PackedLogic4 width Zero4 = Inr z" "logic4_ok z" "\<not> is_logic9 z" "width4 z = width"
    using PackedLogic4_obtain [of width Zero4] by blast
  have bounds: "i < 64 * words_for width" "off + i < 64 * words_for (width4 v)" if "i < width" for i
    using that assms(3) le_words_for [of "width4 v"] le_words_for [of width] by linarith+
  show ?thesis
  proof (cases "is_logic9 v")
    case False
    define u where "u = z\<lparr>aval_words := extract_bit_range (aval_words v) off (aval_words z),
      bval_words := extract_bit_range (bval_words v) off (bval_words z)\<rparr>"
    have eq: "extract_bits v off width = Inr (mask_unused_bits u)"
      using False assms(2,3) z by (simp add: extract_bits_def u_def)
    note side = False z logic4_ok_planes4 [OF z(2)] logic4_ok_width [OF z(2)] logic4_ok_lengths [OF z(2)]
    have "elem4 (mask_unused_bits u) i = elem4 v (off + i)" if "i < width" for i
      using mask_unused_ok4(2) [of u i] side that bounds [OF that] logic4_ok_lengths [OF assms(1)]
      by (simp add: u_def read_extract_bit_range elem4_eq)
    moreover have "logic4_ok (mask_unused_bits u)"
      using mask_unused_ok4(1) [of u] side by (simp add: u_def)
    ultimately show ?thesis using eq False z by (auto simp: u_def elem9_logic4)
  next
    case True
    define z' where "z' = promote_to_logic9 z"
    have z': "logic4_ok z'" "is_logic9 z'" "width4 z' = width" using promote_ok [OF z(2)] z by (simp_all add: z'_def)
    define u where "u = for_range 0 4 (\<lambda>p r. set_plane r p (extract_bit_range (logic9_plane v p) off (logic9_plane r p))) z'"
    have eq: "extract_bits v off width = Inr (mask_unused_bits u)"
      using True assms(2,3) z by (simp add: extract_bits_def u_def z'_def)
    have planes: "logic9_plane u p = extract_bit_range (logic9_plane v p) off (logic9_plane z' p)" if "p < 4" for p
      using plane_loop [of z' p "\<lambda>p. extract_bit_range (logic9_plane v p) off"] that z' assms(2) by (simp add: u_def)
    have len: "length (logic9_plane z' p) = words_for width" "length (logic9_plane v p) = words_for (width4 v)" if "p < 4" for p
      using logic4_ok_lengths(3) [OF z'(1,2)] logic4_ok_lengths(3) [OF assms(1) True] z' assms(2,3) that by simp_all
    have "read_bit (logic9_plane u p) i = encoded_bit (elem9 v (off + i)) p" if "i < width" "p < 4" for i p
      using that len bounds [OF that(1)] assms True by (simp add: planes read_extract_bit_range read_plane9)
    moreover have "is_logic9 u" "width4 u = width" using z' by (simp_all add: u_def)
    ultimately show ?thesis
      using mask_unused_ok9 [of u "\<lambda>i. elem9 v (off + i)"] planes len assms(2) logic4_ok_width [OF z'(1)] z'(3) eq True
      by simp
  qed
qed

subsection \<open>Conversions\<close>

lemma collapse_to_logic4_ok:
  assumes "logic4_ok v"
  shows "\<exists>r. collapse_to_logic4 v = Inr r \<and> logic4_ok r \<and> \<not> is_logic9 r \<and> width4 r = width4 v \<and>
    (\<forall>i<width4 v. elem4 r i = elem4 v i)"
proof (cases "is_logic9 v")
  case True
  obtain z where z: "PackedLogic4 (width4 v) Zero4 = Inr z" "logic4_ok z \<and> \<not> is_logic9 z" "width4 z = width4 v"
    using PackedLogic4_obtain [OF logic4_ok_width [OF assms], of Zero4] by blast
  show ?thesis
    using True z l4.write_loop [OF z(2,3), where f = "\<lambda>i. to_logic4 (elem9 v i)"]
    by (auto simp: collapse_to_logic4_def elem4_elem9)
qed (use assms in \<open>simp add: collapse_to_logic4_def\<close>)

lemma expand_to_logic9_ok:
  assumes "logic4_ok v"
  shows "\<exists>r. expand_to_logic9 v = Inr r \<and> logic9_ok r \<and> width9 r = width4 v \<and>
    (\<forall>i<width4 v. logic9_elem r i = elem9 v i)"
proof -
  have "width4 v \<le> size_max - 63" using logic4_ok_width [OF assms] by (simp add: size_max_def)
  then obtain z where z: "PackedLogic9 (width4 v) Zero9 = Inr z" "logic9_ok z" "width9 z = width4 v"
    using PackedLogic9_ok by blast
  show ?thesis
    using z p9.write_loop [OF z(2,3), where f = "elem9 v"] by (auto simp: expand_to_logic9_def)
qed

lemma collapse_logic9_ok:
  assumes "logic9_ok v" "width9 v \<le> size_max div 4"
  shows "\<exists>r. collapse_logic9_to_logic4 v = Inr r \<and> logic4_ok r \<and> \<not> is_logic9 r \<and> width4 r = width9 v \<and>
    (\<forall>i<width9 v. elem4 r i = to_logic4 (logic9_elem v i))"
proof -
  obtain z where z: "PackedLogic4 (width9 v) Zero4 = Inr z" "logic4_ok z \<and> \<not> is_logic9 z" "width4 z = width9 v"
    using PackedLogic4_obtain [OF assms(2), of Zero4] by blast
  show ?thesis
    using z l4.write_loop [OF z(2,3), where f = "\<lambda>i. to_logic4 (logic9_elem v i)"]
    by (auto simp: collapse_logic9_to_logic4_def)
qed

subsection \<open>Single words\<close>

lemma aval_of_word_elem [simp]:
  "aval_of (word_elem w i) = bit (w4_aval w) i" "bval_of (word_elem w i) = bit (w4_bval w) i"
  by (simp_all add: word_elem_def)

lemma logic4_eq_bits: "e = e' \<longleftrightarrow> aval_of e = aval_of e' \<and> bval_of e = bval_of e'"
  by (cases e; cases e') (simp_all add: aval_of_def bval_of_def)

lemma bit_and_final_mask:
  "0 < w \<Longrightarrow> w \<le> 64 \<Longrightarrow> bit (x AND final_word_mask w) i \<longleftrightarrow> i < w \<and> bit x i"
  by (auto simp: bit_and_iff)

lemma read_bit_singleton [simp]: "i < 64 \<Longrightarrow> read_bit [w] i = bit w i"
  by (simp add: read_bit_eq_bit)

lemma plane_ok_singleton:
  assumes "0 < w" "w \<le> 64"
  shows "plane_ok w [x] \<longleftrightarrow> (\<forall>i. bit x i \<longrightarrow> i < w)"
proof
  assume "plane_ok w [x]"
  then have "\<not> bit x i" if "w \<le> i" "i < 64" for i using that by (simp add: plane_ok_def)
  then show "\<forall>i. bit x i \<longrightarrow> i < w" by (metis bit_u64_ge not_le)
next
  assume "\<forall>i. bit x i \<longrightarrow> i < w"
  with assms show "plane_ok w [x]" by (auto simp: plane_ok_def)
qed

lemma plane_ok_single:
  assumes "plane_ok w ws" "0 < w" "w \<le> 64"
  obtains x where "ws = [x]" "\<forall>i. bit x i \<longrightarrow> i < w"
proof -
  have "length ws = 1" using assms by (simp add: plane_ok_length)
  then obtain x where "ws = [x]" by (cases ws) auto
  with that assms plane_ok_singleton show thesis by blast
qed

lemma from_aval_bval_error: "w = 0 \<or> 64 < w \<Longrightarrow> from_aval_bval w a b = Inl Invalid_argument"
  by (auto simp: from_aval_bval_def)

lemma from_aval_bval_eq:
  assumes "0 < w" "w \<le> 64"
  shows "from_aval_bval w a b = Inr \<lparr>width4 = w, is_logic9 = False, aval_words = [a AND final_word_mask w],
    bval_words = [b AND final_word_mask w], plane2_words = [], plane3_words = []\<rparr>"
proof -
  have "w \<le> size_max div 4" using assms by (simp add: size_max_def)
  then obtain z where z: "PackedLogic4 w Zero4 = Inr z" "logic4_ok z" "\<not> is_logic9 z" "width4 z = w"
    using PackedLogic4_obtain [of w Zero4] by blast
  have l: "length (aval_words z) = 1" "length (bval_words z) = 1"
    using logic4_ok_lengths [OF z(2)] z(4) assms by simp_all
  then obtain x y where xy: "aval_words z = [x]" "bval_words z = [y]"
    by (metis One_nat_def length_0_conv length_Suc_conv)
  have m: "(if w = 64 then NOT 0 else push_bit w 1 - 1) = final_word_mask w"
    using assms by (simp add: final_word_mask_def)
  from z xy assms logic4_ok_planes4 [OF z(2,3)] show ?thesis
    unfolding from_aval_bval_def m
    by (cases z) (simp add: Let_def)
qed

lemma from_aval_bval_ok:
  assumes "0 < w" "w \<le> 64"
  shows "\<exists>r. from_aval_bval w a b = Inr r \<and> logic4_ok r \<and> \<not> is_logic9 r \<and> width4 r = w \<and>
    (\<forall>i<w. elem4 r i = logic4_of_bits (bit a i) (bit b i))"
  using assms
  by (auto simp: from_aval_bval_eq logic4_ok_def plane_ok_singleton bit_and_final_mask elem4_eq size_max_def)

lemma low_word_ok:
  assumes "logic4_ok v" "\<not> is_logic9 v" "0 < width4 v" "width4 v \<le> 64"
  obtains w where "low_word v = Inr w" "unchecked_low_word v = w" "w4_width w = width4 v"
    "aval_words v = [w4_aval w]" "bval_words v = [w4_bval w]"
    "\<forall>i. bit (w4_aval w) i \<longrightarrow> i < width4 v" "\<forall>i. bit (w4_bval w) i \<longrightarrow> i < width4 v"
    "\<forall>i<width4 v. elem4 v i = word_elem w i"
proof -
  have ok: "plane_ok (width4 v) (aval_words v)" "plane_ok (width4 v) (bval_words v)"
    using assms(1) by (simp_all add: logic4_ok_def)
  obtain x where x: "aval_words v = [x]" "\<forall>i. bit x i \<longrightarrow> i < width4 v"
    by (rule plane_ok_single [OF ok(1) assms(3,4)])
  obtain y where y: "bval_words v = [y]" "\<forall>i. bit y i \<longrightarrow> i < width4 v"
    by (rule plane_ok_single [OF ok(2) assms(3,4)])
  show thesis
    using assms x y
    by (intro that [of "\<lparr>w4_width = width4 v, w4_aval = x, w4_bval = y\<rparr>"])
       (simp_all add: low_word_def unchecked_low_word_def elem4_eq word_elem_def)
qed

lemma assign_word_ok:
  assumes "logic4_ok v" "\<not> is_logic9 v" "0 < width4 v" "width4 v \<le> 64" "w4_width s = width4 v"
  shows "\<exists>r. assign_word v s = Inr r \<and> logic4_ok r \<and> \<not> is_logic9 r \<and> width4 r = width4 v \<and>
    (\<forall>i<width4 v. elem4 r i = word_elem s i)"
proof -
  obtain w :: logic4_word where w: "aval_words v = [w4_aval w]" "bval_words v = [w4_bval w]"
    by (rule low_word_ok [OF assms(1-4)]) (rule that, assumption+)
  show ?thesis
    using assms w
    by (intro exI [of _ "v\<lparr>aval_words := [w4_aval s AND final_word_mask (width4 v)],
                           bval_words := [w4_bval s AND final_word_mask (width4 v)]\<rparr>"])
       (simp add: assign_word_def logic4_ok_def plane_ok_singleton bit_and_final_mask elem4_eq word_elem_def Let_def)
qed

lemma from_word_planes_ok:
  assumes "0 < w" "w \<le> size_max div 4" "length a = words_for w" "length b = words_for w"
  shows "\<exists>r. from_word_planes w a b = Inr r \<and> logic4_ok r \<and> \<not> is_logic9 r \<and> width4 r = w \<and>
    (\<forall>i<w. elem4 r i = logic4_of_bits (read_bit a i) (read_bit b i))"
proof -
  obtain z where z: "PackedLogic4 w Zero4 = Inr z" "logic4_ok z" "\<not> is_logic9 z" "width4 z = w"
    using PackedLogic4_obtain [OF assms(2), of Zero4] by blast
  have "w \<le> size_max - 63" using assms(2) by (simp add: size_max_def)
  then have eq: "from_word_planes w a b = Inr (mask_unused_bits (z\<lparr>aval_words := a, bval_words := b\<rparr>))"
    using assms z by (simp add: from_word_planes_def word_count_def)
  show ?thesis
    using mask_unused_ok4 [of "z\<lparr>aval_words := a, bval_words := b\<rparr>"] assms z logic4_ok_planes4 [OF z(2)] eq
    by simp
qed

lemma insert_word_error: "word_range_bad v s off \<Longrightarrow> insert_word v s off = Inl Invalid_argument"
  by (simp add: insert_word_def)

lemma word_range_ok:
  "\<not> word_range_bad v s off \<longleftrightarrow> 0 < w4_width s \<and> w4_width s \<le> 64 \<and> off + w4_width s \<le> width4 v"
  by (auto simp: word_range_bad_def)

lemma insert_word_ok:
  assumes "logic4_ok v" "0 < w4_width s" "w4_width s \<le> 64" "off + w4_width s \<le> width4 v"
  shows "\<exists>r. insert_word v s off = Inr r \<and> logic4_ok r \<and> width4 r = width4 v \<and> is_logic9 r = is_logic9 v \<and>
    (\<forall>i<width4 v. elem9 r i = (if off \<le> i \<and> i < off + w4_width s then to_logic9 (word_elem s (i - off)) else elem9 v i))"
proof (cases "is_logic9 v")
  case False
  define u where "u = v\<lparr>aval_words := copy_word_range (aval_words v) (w4_aval s) off (w4_width s),
    bval_words := copy_word_range (bval_words v) (w4_bval s) off (w4_width s)\<rparr>"
  have eq: "insert_word v s off = Inr (mask_unused_bits u)"
    using False assms(2-4) word_range_ok [of v s off] by (simp add: insert_word_def u_def)
  note len = logic4_ok_lengths [OF assms(1)]
  have b: "off + w4_width s \<le> 64 * length (aval_words v)" "off + w4_width s \<le> 64 * length (bval_words v)"
    using assms(4) le_words_for [of "width4 v"] len by linarith+
  have r: "read_bit (aval_words u) i = aval_of (if off \<le> i \<and> i < off + w4_width s then word_elem s (i - off) else elem4 v i)"
    "read_bit (bval_words u) i = bval_of (if off \<le> i \<and> i < off + w4_width s then word_elem s (i - off) else elem4 v i)" for i
    using False by (simp_all add: u_def read_copy_word_range assms(2,3) b read_plane4)
  note side = False len logic4_ok_planes4 [OF assms(1)] logic4_ok_width [OF assms(1)]
  have "logic4_ok (mask_unused_bits u)"
    using mask_unused_ok4(1) [of u] side by (simp add: u_def)
  moreover have "elem4 (mask_unused_bits u) i = (if off \<le> i \<and> i < off + w4_width s then word_elem s (i - off) else elem4 v i)"
    if "i < width4 v" for i
  proof -
    have "elem4 (mask_unused_bits u) i = logic4_of_bits (read_bit (aval_words u) i) (read_bit (bval_words u) i)"
      using mask_unused_ok4(2) [of u i] that side by (simp add: u_def)
    then show ?thesis unfolding r logic4_of_bits_of .
  qed
  ultimately show ?thesis using False eq by (auto simp: elem9_logic4 u_def)
next
  case True
  define m where "m = final_word_mask (w4_width s)"
  define src where "src p = (if p = 0 then w4_aval s AND m else if p = 1 then NOT (w4_bval s AND m)
    else if p = 2 then NOT (w4_aval s AND m) AND (w4_bval s AND m) else 0)" for p :: nat
  define u where "u = for_range 0 4 (\<lambda>p v. set_plane v p (copy_word_range (logic9_plane v p) (src p) off (w4_width s))) v"
  have eq: "insert_word v s off = Inr (mask_unused_bits u)"
    using True assms(2-4) word_range_ok [of v s off]
    by (simp add: insert_word_def u_def src_def m_def for_range_4 Let_def)
  have w: "0 < width4 v" using assms by simp
  have planes: "logic9_plane u p = copy_word_range (logic9_plane v p) (src p) off (w4_width s)" if "p < 4" for p
    using plane_loop [of v p "\<lambda>p ws. copy_word_range ws (src p) off (w4_width s)"] that True w by (simp add: u_def)
  note len = logic4_ok_lengths(3) [OF assms(1) True w]
  have "bit (src p) j = encoded_bit (to_logic9 (word_elem s j)) p" if "p < 4" "j < w4_width s" for p j
    using lt4_cases [OF that(1)] that(2) assms(2,3)
    by (auto simp: src_def m_def encoded_to_logic9 bit_u64_simps)
  then have "read_bit (logic9_plane u p) i =
      encoded_bit (if off \<le> i \<and> i < off + w4_width s then to_logic9 (word_elem s (i - off)) else elem9 v i) p"
    if "i < width4 v" "p < 4" for i p
    using that len assms le_words_for [of "width4 v"] True
    by (auto simp: planes read_copy_word_range read_plane9)
  moreover have "is_logic9 u" "width4 u = width4 v" using True by (simp_all add: u_def)
  ultimately show ?thesis
    using mask_unused_ok9 [of u "\<lambda>i. if off \<le> i \<and> i < off + w4_width s then to_logic9 (word_elem s (i - off)) else elem9 v i"]
      planes len w logic4_ok_width [OF assms(1)] eq True by simp
qed

lemma word_all_bits0: "(w :: u64) = 0 \<longleftrightarrow> (\<forall>i<64. \<not> bit w i)"
  by (metis bit_0_eq bot_apply bot_bool_def u64_eqI)

lemma masked_word_eq:
  assumes "0 < w" "w \<le> 64"
  shows "x AND final_word_mask w = y AND final_word_mask w \<longleftrightarrow> (\<forall>i<w. bit x i = bit y i)"
proof
  assume "\<forall>i<w. bit x i = bit y i"
  with assms show "x AND final_word_mask w = y AND final_word_mask w"
    by (intro u64_eqI) (auto simp: bit_and_final_mask)
next
  assume eq: "x AND final_word_mask w = y AND final_word_mask w"
  show "\<forall>i<w. bit x i = bit y i"
    using assms arg_cong [OF eq, of "\<lambda>z. bit z i" for i] by (simp add: bit_and_final_mask) blast
qed

lemma read_word_range_eq:
  assumes "0 < w" "w \<le> 64" "off + w \<le> 64 * length ws"
  shows "read_word_range ws off w = y AND final_word_mask w \<longleftrightarrow> (\<forall>i<w. read_bit ws (off + i) = bit y i)"
proof -
  have "read_word_range ws off w = read_word_range ws off w AND final_word_mask w"
    using assms by (intro u64_eqI) (auto simp: bit_and_final_mask bit_read_word_range)
  then have "read_word_range ws off w = y AND final_word_mask w \<longleftrightarrow> (\<forall>i<w. bit (read_word_range ws off w) i = bit y i)"
    using masked_word_eq [OF assms(1,2), of "read_word_range ws off w" y] by simp
  then show ?thesis using assms by (simp add: bit_read_word_range)
qed

lemma bit_nth_aligned: "off mod 64 = 0 \<Longrightarrow> i < 64 \<Longrightarrow> bit (ws ! (off div 64)) i = read_bit ws (off + i)"
  by (auto simp: mod_eq_0_iff_dvd dvd_def read_bit_eq_bit)

lemma matches_word_iff:
  assumes "logic4_ok v" "0 < w4_width s" "w4_width s \<le> 64" "off + w4_width s \<le> width4 v"
  shows "matches_word v s off = Inr (\<not> is_logic9 v \<and> (\<forall>i<w4_width s. elem4 v (off + i) = word_elem s i))"
proof (cases "is_logic9 v")
  case True
  with assms word_range_ok [of v s off] show ?thesis by (simp add: matches_word_def)
next
  case False
  have e: "elem4 v (off + i) = word_elem s i \<longleftrightarrow>
      read_bit (aval_words v) (off + i) = bit (w4_aval s) i \<and> read_bit (bval_words v) (off + i) = bit (w4_bval s) i" for i
    using False by (simp add: logic4_eq_bits read_plane4)
  note len = logic4_ok_lengths [OF assms(1)]
  show ?thesis
  proof (cases "width4 v \<le> 64")
    case True
    have pos: "0 < width4 v" using assms(2,4) by simp
    obtain w :: logic4_word where w: "aval_words v = [w4_aval w]" "bval_words v = [w4_bval w]"
      by (rule low_word_ok [OF assms(1) False pos True]) (rule that, assumption+)
    have "bit (drop_bit off x) i = bit x (off + i)" for x :: u64 and i by (rule bit_drop_u64)
    then show ?thesis
      using False True assms word_range_ok [of v s off] w
      by (auto simp: matches_word_def masked_word_eq e)
  next
    case wide: False
    have "off + w4_width s \<le> 64 * length (aval_words v)" "off + w4_width s \<le> 64 * length (bval_words v)"
      using assms(4) le_words_for [of "width4 v"] len by linarith+
    then show ?thesis
      using False wide assms word_range_ok [of v s off]
      by (auto simp: matches_word_def read_word_range_eq e)
  qed
qed

lemma xor_mask_zero:
  fixes x y m :: u64
  shows "(x XOR y) AND m = 0 \<longleftrightarrow> (\<forall>i<64. bit m i \<longrightarrow> bit x i = bit y i)"
  unfolding word_all_bits0 by (auto simp: bit_u64_simps)

lemma matches_masked_word_iff:
  assumes "logic4_ok v" "0 < w4_width s" "w4_width s \<le> 64" "off + w4_width s \<le> width4 v"
  shows "matches_masked_word v s m off = Inr (\<not> is_logic9 v \<and>
    (\<forall>i<w4_width s. bit m i \<longrightarrow> elem4 v (off + i) = word_elem s i))"
proof (cases "is_logic9 v")
  case True
  with assms word_range_ok [of v s off] show ?thesis by (simp add: matches_masked_word_def)
next
  case False
  let ?m = "m AND final_word_mask (w4_width s)"
  have e: "elem4 v (off + i) = word_elem s i \<longleftrightarrow>
      read_bit (aval_words v) (off + i) = bit (w4_aval s) i \<and> read_bit (bval_words v) (off + i) = bit (w4_bval s) i" for i
    using False by (simp add: logic4_eq_bits read_plane4)
  have m: "bit ?m i \<longleftrightarrow> i < w4_width s \<and> bit m i" for i using assms by (simp add: bit_and_final_mask)
  have zero: "?m = 0 \<Longrightarrow> i < w4_width s \<Longrightarrow> \<not> bit m i" for i
    using m [of i] by simp
  have mm: "(\<forall>i<64. bit ?m i \<longrightarrow> P i) \<longleftrightarrow> (\<forall>i<w4_width s. bit m i \<longrightarrow> P i)" for P
    using assms(3) unfolding m by auto
  note len = logic4_ok_lengths [OF assms(1)]
  have b: "off + w4_width s \<le> 64 * length (aval_words v)" "off + w4_width s \<le> 64 * length (bval_words v)"
    using assms(4) le_words_for [of "width4 v"] len by linarith+
  have eq: "matches_masked_word v s m off = (if ?m = 0 then Inr True
     else if off mod 64 = 0
     then Inr ((aval_words v ! (off div 64) XOR w4_aval s) AND ?m = 0 \<and> (bval_words v ! (off div 64) XOR w4_bval s) AND ?m = 0)
     else Inr ((read_word_range (aval_words v) off (w4_width s) XOR w4_aval s) AND ?m = 0
            \<and> (read_word_range (bval_words v) off (w4_width s) XOR w4_bval s) AND ?m = 0))"
    using False assms word_range_ok [of v s off] by (simp add: matches_masked_word_def Let_def)
  show ?thesis
  proof (cases "?m = 0")
    case True
    with zero False show ?thesis unfolding eq by auto
  next
    case nz: False
    show ?thesis
    proof (cases "off mod 64 = 0")
      case True
      then have "bit (ws ! (off div 64)) i = read_bit ws (off + i)" if "i < 64" for ws i
        using that by (rule bit_nth_aligned)
      then show ?thesis
        using nz True False assms(3) unfolding eq xor_mask_zero mm e by auto
    next
      case unaligned: False
      have "bit (read_word_range (aval_words v) off (w4_width s)) i = read_bit (aval_words v) (off + i)"
        "bit (read_word_range (bval_words v) off (w4_width s)) i = read_bit (bval_words v) (off + i)"
        if "i < w4_width s" for i using that assms b by (simp_all add: bit_read_word_range)
      then show ?thesis using nz unaligned False unfolding eq xor_mask_zero mm e by auto
    qed
  qed
qed


lemma masked_word_update:
  fixes x y m :: u64
  shows "bit ((x AND NOT m) OR (y AND m)) i \<longleftrightarrow> (if bit m i then bit y i else bit x i)"
  by (cases "i < 64") (auto simp: bit_u64_simps)

lemma logic4_planes_update:
  fixes f :: "nat \<Rightarrow> logic4"
  assumes "logic4_ok v" "\<not> is_logic9 v" "length A = words_for (width4 v)" "length B = words_for (width4 v)"
    and "\<And>i. i < width4 v \<Longrightarrow> read_bit A i = aval_of (f i)" "\<And>i. i < width4 v \<Longrightarrow> read_bit B i = bval_of (f i)"
  shows "logic4_ok (mask_unused_bits (v\<lparr>aval_words := A, bval_words := B\<rparr>))"
    "i < width4 v \<Longrightarrow> elem4 (mask_unused_bits (v\<lparr>aval_words := A, bval_words := B\<rparr>)) i = f i"
  using mask_unused_ok4 [of "v\<lparr>aval_words := A, bval_words := B\<rparr>"] assms
    logic4_ok_planes4 [OF assms(1,2)] logic4_ok_width [OF assms(1)]
  by simp_all

lemma drop_bit_and_1: "drop_bit n w AND 1 = 0 \<longleftrightarrow> \<not> bit (w :: u64) n"
  by (simp add: and_one_eq bit_iff_odd_drop_bit mod2_eq_if)

lemma put4_loop9:
  fixes g :: "nat \<Rightarrow> logic4" and M :: "nat set"
  assumes "logic4_ok v" "is_logic9 v" "off + n \<le> width4 v"
  defines "r \<equiv> for_range 0 n (\<lambda>b v. if b \<in> M then put4 v (off + b) (g b) else v) v"
  shows "logic4_ok r \<and> is_logic9 r \<and> width4 r = width4 v \<and>
    (\<forall>i<width4 v. elem9 r i = (if off \<le> i \<and> i < off + n \<and> i - off \<in> M then to_logic9 (g (i - off)) else elem9 v i))"
proof -
  define P where "P k t \<longleftrightarrow> logic4_ok t \<and> is_logic9 t \<and> width4 t = width4 v \<and>
    (\<forall>i<width4 v. elem9 t i = (if off \<le> i \<and> i < off + k \<and> i - off \<in> M then to_logic9 (g (i - off)) else elem9 v i))" for k t
  have "P n r"
    unfolding r_def
  proof (rule for_range_invariant)
    show "P 0 v" using assms(1,2) by (auto simp: P_def)
    fix b t
    assume b: "b < n" and P: "P b t"
    have "i < off + Suc b \<longleftrightarrow> i < off + b \<or> i = off + b" for i by auto
    with b P assms(3) show "P (Suc b) (if b \<in> M then put4 t (off + b) (g b) else t)"
      by (auto simp: P_def put4_elem9 put4_ok_any)
  qed simp
  then show ?thesis by (simp add: P_def)
qed

lemma insert_masked_word_ok:
  assumes "logic4_ok v" "0 < w4_width s" "w4_width s \<le> 64" "off + w4_width s \<le> width4 v"
  shows "\<exists>r. insert_masked_word v s m off = Inr r \<and> logic4_ok r \<and> width4 r = width4 v \<and> is_logic9 r = is_logic9 v \<and>
    (\<forall>i<width4 v. elem9 r i = (if off \<le> i \<and> i < off + w4_width s \<and> bit m (i - off)
       then to_logic9 (word_elem s (i - off)) else elem9 v i))"
proof -
  define W where "W = w4_width s"
  define M where "M = m AND final_word_mask W"
  have M: "bit M i \<longleftrightarrow> i < W \<and> bit m i" for i using assms by (simp add: M_def W_def bit_and_final_mask)
  have ok: "\<not> word_range_bad v s off" using assms word_range_ok by blast
  define f where "f i = (if off \<le> i \<and> i < off + W \<and> bit m (i - off) then word_elem s (i - off) else elem4 v i)" for i
  consider (none) "M = 0" | (all) "M \<noteq> 0" "M = final_word_mask W"
    | (nine) "M \<noteq> 0" "M \<noteq> final_word_mask W" "is_logic9 v"
    | (aligned) "M \<noteq> 0" "M \<noteq> final_word_mask W" "\<not> is_logic9 v" "off mod 64 = 0"
    | (split) "M \<noteq> 0" "M \<noteq> final_word_mask W" "\<not> is_logic9 v" "off mod 64 \<noteq> 0" by blast
  then show ?thesis
  proof cases
    case none
    then have "\<not> (i < W \<and> bit m i)" for i using M [of i] by simp
    then have "i < off + W \<Longrightarrow> off \<le> i \<Longrightarrow> \<not> bit m (i - off)" for i
      by (metis add_diff_inverse_nat linorder_not_less nat_add_left_cancel_less)
    with none ok assms(1) show ?thesis
      by (auto simp: insert_masked_word_def M_def W_def)
  next
    case all
    then have "bit m i" if "i < W" for i
      using M [of i] that assms by (simp add: W_def)
    then have "bit m (i - off)" if "off \<le> i" "i < off + W" for i using that by simp
    with insert_word_ok [OF assms] all ok show ?thesis
      by (auto simp: insert_masked_word_def M_def W_def cong: conj_cong)
  next
    case nine
    have "insert_masked_word v s m off = Inr (for_range 0 W (\<lambda>b v. if b \<in> {b. bit M b} then put4 v (off + b) (word_elem s b) else v) v)"
      using nine ok unfolding insert_masked_word_def Let_def W_def [symmetric] M_def [symmetric] drop_bit_and_1
      by (auto simp: word_elem_def logic4_of_bits_def intro!: for_range_cong)
    with put4_loop9 [OF assms(1) nine(3) assms(4), of "{b. bit M b}" "word_elem s"] nine(3) show ?thesis
      by (auto simp: M W_def [symmetric])
  next
    case aligned
    define k where "k = off div 64"
    have k: "k < words_for (width4 v)"
      using less_words_for [of off "width4 v"] assms(2,4) by (simp add: k_def)
    note len = logic4_ok_lengths [OF assms(1)]
    have rd: "read_bit (ws[k := (ws ! k AND NOT M) OR (y AND M)]) i =
        (if off \<le> i \<and> i < off + W \<and> bit m (i - off) then bit y (i - off) else read_bit ws i)"
      if "length ws = words_for (width4 v)" for ws y i
    proof -
      obtain q where q: "off = 64 * q" using aligned(4) by (auto simp: mod_eq_0_iff_dvd)
      obtain p n where i: "i = 64 * p + n" "n < 64" "i div 64 = p" "i mod 64 = n" by (rule split64E)
      have "k = q" by (simp add: k_def q)
      then show ?thesis
        using k that i q assms(3) unfolding read_bit_list_update [OF k [folded that]] i(3,4) masked_word_update M
        by (cases "p = q") (auto simp: read_bit_eq_bit W_def)
    qed
    have eq: "insert_masked_word v s m off = Inr (mask_unused_bits (v\<lparr>
        aval_words := (aval_words v)[k := (aval_words v ! k AND NOT M) OR (w4_aval s AND M)],
        bval_words := (bval_words v)[k := (bval_words v ! k AND NOT M) OR (w4_bval s AND M)]\<rparr>))"
      using aligned ok by (simp add: insert_masked_word_def M_def W_def k_def Let_def)
    show ?thesis
      unfolding eq using logic4_planes_update [OF assms(1) aligned(3), of
          "(aval_words v)[k := (aval_words v ! k AND NOT M) OR (w4_aval s AND M)]"
          "(bval_words v)[k := (bval_words v ! k AND NOT M) OR (w4_bval s AND M)]" f]
        len aligned(3) rd
      by (simp add: f_def read_plane4 elem9_logic4 W_def)
  next
    case split
    note len = logic4_ok_lengths [OF assms(1)]
    have b: "off + W \<le> 64 * words_for (width4 v)"
      using assms(4) le_words_for [of "width4 v"] by (simp add: W_def)
    have rd: "read_bit (copy_word_range ws ((read_word_range ws off W AND NOT M) OR (y AND M)) off W) i =
        (if off \<le> i \<and> i < off + W \<and> bit m (i - off) then bit y (i - off) else read_bit ws i)"
      if "length ws = words_for (width4 v)" for ws y i
      using that b assms(2,3)
      by (auto simp: read_copy_word_range masked_word_update M bit_read_word_range W_def)
    have eq: "insert_masked_word v s m off = Inr (mask_unused_bits (v\<lparr>
        aval_words := copy_word_range (aval_words v) ((read_word_range (aval_words v) off W AND NOT M) OR (w4_aval s AND M)) off W,
        bval_words := copy_word_range (bval_words v) ((read_word_range (bval_words v) off W AND NOT M) OR (w4_bval s AND M)) off W\<rparr>))"
      using split ok by (simp add: insert_masked_word_def M_def W_def Let_def)
    show ?thesis
      unfolding eq using logic4_planes_update [OF assms(1) split(3), of
          "copy_word_range (aval_words v) ((read_word_range (aval_words v) off W AND NOT M) OR (w4_aval s AND M)) off W"
          "copy_word_range (bval_words v) ((read_word_range (bval_words v) off W AND NOT M) OR (w4_bval s AND M)) off W" f]
        len split(3) rd
      by (simp add: f_def read_plane4 elem9_logic4 W_def)
  qed
qed

subsection \<open>Nine-state words\<close>

lemma normalize_bit:
  assumes "p < 4"
  shows "bit (w9_planes (normalize_invalid_codes_to_x w) ! p) i \<longleftrightarrow> i < 64 \<and> encoded_bit (word9_elem w i) p"
proof (cases "i < 64")
  case True
  show ?thesis
    using lt4_cases [OF assms] True
    by (elim disjE; cases "bit (w9_planes w ! 0) i"; cases "bit (w9_planes w ! 1) i";
        cases "bit (w9_planes w ! 2) i"; cases "bit (w9_planes w ! 3) i")
       (simp_all add: normalize_invalid_codes_to_x_def Let_def word9_elem_def gather_code_eq
          logic9_of_code_def encoded_bit_simps bit_u64_simps)
qed simp

lemma normalize_width [simp]: "w9_width (normalize_invalid_codes_to_x w) = w9_width w"
  by (simp add: normalize_invalid_codes_to_x_def Let_def)

lemma normalize_length [simp]: "length (w9_planes (normalize_invalid_codes_to_x w)) = 4"
  by (simp add: normalize_invalid_codes_to_x_def Let_def)

lemma has_canonical_codes_normalize: "has_canonical_codes (normalize_invalid_codes_to_x w)"
proof -
  define n where "n = normalize_invalid_codes_to_x w"
  have b: "bit (w9_planes n ! 0) i \<longleftrightarrow> i < 64 \<and> encoded_bit (word9_elem w i) 0"
    "bit (w9_planes n ! Suc 0) i \<longleftrightarrow> i < 64 \<and> encoded_bit (word9_elem w i) (Suc 0)"
    "bit (w9_planes n ! 2) i \<longleftrightarrow> i < 64 \<and> encoded_bit (word9_elem w i) 2"
    "bit (w9_planes n ! 3) i \<longleftrightarrow> i < 64 \<and> encoded_bit (word9_elem w i) 3" for i
    unfolding n_def by (simp_all add: normalize_bit)
  have "w9_planes n ! 3 AND (w9_planes n ! 2 OR w9_planes n ! Suc 0 OR w9_planes n ! 0) = 0"
    unfolding word_all_bits0 by (auto simp: bit_u64_simps b encoded_bit_simps)
  then show ?thesis by (simp add: has_canonical_codes_def n_def)
qed

lemma single_planes9:
  assumes "logic4_ok v" "is_logic9 v" "0 < width4 v" "width4 v \<le> 64" "p < 4"
  shows "\<exists>x. logic9_plane v p = [x]"
  using logic4_ok_lengths(3) [OF assms(1-3,5)] assms(3,4) by (cases "logic9_plane v p") auto

lemma from_logic9_word_ok:
  assumes "0 < w9_width w" "w9_width w \<le> 64"
  shows "\<exists>r. from_logic9_word w = Inr r \<and> logic4_ok r \<and> is_logic9 r \<and> width4 r = w9_width w \<and>
    (\<forall>i<w9_width w. elem9 r i = word9_elem w i)"
proof -
  have m: "w9_width w \<le> size_max div 4" using assms by (simp add: size_max_def)
  obtain z where z: "PackedLogic4 (w9_width w) Zero4 = Inr z" "width4 z = w9_width w"
    using PackedLogic4_obtain [OF m, of Zero4] by blast
  define p where "p = w9_planes (normalize_invalid_codes_to_x w)"
  define u where "u = z\<lparr>is_logic9 := True, aval_words := [p ! 0], bval_words := [p ! 1],
                  plane2_words := [p ! 2], plane3_words := [p ! 3]\<rparr>"
  have eq: "from_logic9_word w = Inr (mask_unused_bits u)"
    using assms z by (simp add: from_logic9_word_def u_def p_def Let_def)
  have planes: "logic9_plane u q = [p ! q]" if "q < 4" for q
    using lt4_cases [OF that] assms z by (auto simp: u_def logic9_plane_def)
  have fr: "is_logic9 u" "width4 u = w9_width w" using z by (simp_all add: u_def)
  have "read_bit (logic9_plane u q) i = encoded_bit (word9_elem w i) q" if "i < w9_width w" "q < 4" for i q
    using that assms by (simp add: planes p_def normalize_bit)
  then show ?thesis
    using mask_unused_ok9 [of u "word9_elem w"] assms m fr eq planes by simp
qed

lemma assign_logic9_word_ok:
  assumes "logic4_ok v" "is_logic9 v" "0 < width4 v" "width4 v \<le> 64" "w9_width w = width4 v"
  shows "\<exists>r. assign_logic9_word v w = Inr r \<and> logic4_ok r \<and> is_logic9 r \<and> width4 r = width4 v \<and>
    (\<forall>i<width4 v. elem9 r i = word9_elem w i)"
proof -
  define p where "p = w9_planes (normalize_invalid_codes_to_x w)"
  define u where "u = for_range 0 4 (\<lambda>q v. set_plane v q ((logic9_plane v q)[0 := p ! q])) v"
  have planes: "logic9_plane u q = [p ! q]" if "q < 4" for q
    using plane_loop [OF assms(2,3) that, of "\<lambda>q ws. ws[0 := p ! q]"] single_planes9 [OF assms(1-4) that]
    by (auto simp: u_def)
  have "assign_logic9_word v w = Inr (mask_unused_bits u)" "is_logic9 u" "width4 u = width4 v"
    using assms by (simp_all add: assign_logic9_word_def u_def p_def Let_def)
  moreover have "read_bit (logic9_plane u q) i = encoded_bit (word9_elem w i) q" if "i < width4 v" "q < 4" for i q
    using that assms by (simp add: planes p_def normalize_bit)
  ultimately show ?thesis
    using mask_unused_ok9 [of u "word9_elem w"] assms logic4_ok_width [OF assms(1)] planes by simp
qed

lemma insert_masked_logic9_word_ok:
  assumes "logic4_ok v" "is_logic9 v" "0 < width4 v" "width4 v \<le> 64" "w9_width w = width4 v"
  shows "\<exists>r. insert_masked_logic9_word v w m = Inr r \<and> logic4_ok r \<and> is_logic9 r \<and> width4 r = width4 v \<and>
    (\<forall>i<width4 v. elem9 r i = (if bit m i then word9_elem w i else elem9 v i))"
proof -
  define p where "p = w9_planes (normalize_invalid_codes_to_x w)"
  define M where "M = m AND final_word_mask (width4 v)"
  define u where "u = for_range 0 4 (\<lambda>q v. set_plane v q ((logic9_plane v q)[0 := (logic9_plane v q ! 0 AND NOT M) OR (p ! q AND M)])) v"
  have M: "bit M i \<longleftrightarrow> i < width4 v \<and> bit m i" for i using assms by (simp add: M_def bit_and_final_mask)
  have planes: "logic9_plane u q = [(logic9_plane v q ! 0 AND NOT M) OR (p ! q AND M)]" if "q < 4" for q
    using plane_loop [OF assms(2,3) that, of "\<lambda>q ws. ws[0 := (ws ! 0 AND NOT M) OR (p ! q AND M)]"] single_planes9 [OF assms(1-4) that]
    by (auto simp: u_def)
  have old: "bit (logic9_plane v q ! 0) i = encoded_bit (elem9 v i) q" if "i < width4 v" "q < 4" for i q
    using read_plane9 [OF assms(1,2) that] that assms(4) by (simp add: read_bit_eq_bit)
  have hi: "\<not> bit (logic9_plane v q ! 0) i" if "width4 v \<le> i" "q < 4" for i q
  proof -
    have "plane_ok (width4 v) (logic9_plane v q)" using assms that by (auto simp: logic4_ok_9)
    then have "plane_ok (width4 v) [logic9_plane v q ! 0]"
      using single_planes9 [OF assms(1-4) that(2)] by auto
    with plane_ok_singleton [OF assms(3,4)] that(1) show ?thesis by (meson not_le)
  qed
  have rd: "bit ((logic9_plane v q ! 0 AND NOT M) OR (p ! q AND M)) i =
      encoded_bit (if bit m i then word9_elem w i else elem9 v i) q" if "i < width4 v" "q < 4" for i q
    using that assms(4) unfolding masked_word_update M by (simp add: old p_def normalize_bit)
  have "plane_ok (width4 v) (logic9_plane u q)" if "q < 4" for q
    unfolding planes [OF that] plane_ok_singleton [OF assms(3,4)]
    using hi [OF _ that] by (auto simp: masked_word_update M split: if_splits) (meson not_le)
  moreover have "read_bit (logic9_plane u q) i = encoded_bit (if bit m i then word9_elem w i else elem9 v i) q"
    if "i < width4 v" "q < 4" for i q
    using that rd assms(4) by (simp add: planes)
  moreover have "insert_masked_logic9_word v w m = Inr u" "is_logic9 u" "width4 u = width4 v"
    using assms by (simp_all add: insert_masked_logic9_word_def u_def p_def M_def Let_def)
  ultimately show ?thesis
    using logic4_ok_9I [of u "\<lambda>i. if bit m i then word9_elem w i else elem9 v i"] assms(3) logic4_ok_width [OF assms(1)]
    by simp
qed


lemma encoded_bit_inject: "(\<forall>p<4. encoded_bit a p = encoded_bit b p) \<longleftrightarrow> a = b"
proof
  assume "\<forall>p<4. encoded_bit a p = encoded_bit b p"
  then have "gather_code (encoded_bit a) = gather_code (encoded_bit b)" by (intro gather_code_cong) simp
  then show "a = b" by (metis logic9_of_code_encoded)
qed simp

lemma matches_masked_logic9_word_iff:
  assumes "logic4_ok v" "is_logic9 v" "0 < width4 v" "width4 v \<le> 64" "w9_width w = width4 v"
  shows "matches_masked_logic9_word v w m \<longleftrightarrow> (\<forall>i<width4 v. bit m i \<longrightarrow> elem9 v i = word9_elem w i)"
proof -
  define M where "M = m AND final_word_mask (width4 v)"
  have M: "bit M i \<longleftrightarrow> i < width4 v \<and> bit m i" for i using assms by (simp add: M_def bit_and_final_mask)
  have old: "bit (logic9_plane v q ! 0) i = encoded_bit (elem9 v i) q" if "i < width4 v" "q < 4" for i q
    using read_plane9 [OF assms(1,2) that] that assms(4) by (simp add: read_bit_eq_bit)
  have "matches_masked_logic9_word v w m \<longleftrightarrow>
      (\<forall>q<4. (logic9_plane v q ! 0 XOR w9_planes (normalize_invalid_codes_to_x w) ! q) AND M = 0)"
    using assms by (simp add: matches_masked_logic9_word_def M_def Let_def list_all_iff Ball_def)
  also have "\<dots> \<longleftrightarrow> (\<forall>q<4. \<forall>i<width4 v. bit m i \<longrightarrow> encoded_bit (elem9 v i) q = encoded_bit (word9_elem w i) q)"
  proof -
    have mm: "(\<forall>i<64. bit M i \<longrightarrow> P i) \<longleftrightarrow> (\<forall>i<width4 v. bit m i \<longrightarrow> P i)" for P
      using assms(4) unfolding M by auto
    have "(\<forall>i<width4 v. bit m i \<longrightarrow> bit (logic9_plane v q ! 0) i = bit (w9_planes (normalize_invalid_codes_to_x w) ! q) i) \<longleftrightarrow>
        (\<forall>i<width4 v. bit m i \<longrightarrow> encoded_bit (elem9 v i) q = encoded_bit (word9_elem w i) q)" if "q < 4" for q
      using that assms(4) by (simp add: old normalize_bit)
    then show ?thesis unfolding xor_mask_zero mm by simp
  qed
  also have "\<dots> \<longleftrightarrow> (\<forall>i<width4 v. bit m i \<longrightarrow> elem9 v i = word9_elem w i)"
    unfolding encoded_bit_inject [symmetric] by blast
  finally show ?thesis .
qed

lemma or_planes_loop:
  assumes "length ps = 4" "p < 4"
  shows "for_range 0 4 (\<lambda>q ps. if c q then ps[q := ps ! q OR x] else ps) ps ! p = (if c p then ps ! p OR x else ps ! p)"
    and "length (for_range 0 4 (\<lambda>q ps. if c q then ps[q := ps ! q OR x] else ps) ps) = 4"
proof -
  show "for_range 0 4 (\<lambda>q ps. if c q then ps[q := ps ! q OR x] else ps) ps ! p = (if c p then ps ! p OR x else ps ! p)"
    using lt4_cases [OF assms(2)] assms(1) by (elim disjE) (simp_all add: for_range_4)
  show "length (for_range 0 4 (\<lambda>q ps. if c q then ps[q := ps ! q OR x] else ps) ps) = 4"
    using assms(1) by (simp add: for_range_4)
qed

lemma logic9_low_word_ok:
  assumes "logic4_ok v" "0 < width4 v" "width4 v \<le> 64"
  shows "\<exists>w. logic9_low_word v = Inr w \<and> w9_width w = width4 v \<and> length (w9_planes w) = 4 \<and>
    (\<forall>p<4. \<forall>i<width4 v. bit (w9_planes w ! p) i = encoded_bit (elem9 v i) p)"
proof (cases "is_logic9 v")
  case True
  define w where "w = \<lparr>w9_width = width4 v, w9_planes = map (\<lambda>p. logic9_plane v p ! 0) [0..<4]\<rparr>"
  have old: "bit (logic9_plane v q ! 0) i = encoded_bit (elem9 v i) q" if "i < width4 v" "q < 4" for i q
    using read_plane9 [OF assms(1) True that] that assms(3) by (simp add: read_bit_eq_bit)
  have "word9_elem w i = elem9 v i" if "i < width4 v" for i
  proof -
    have "gather_code (\<lambda>p. bit (w9_planes w ! p) i) = gather_code (encoded_bit (elem9 v i))"
      using that by (intro gather_code_cong) (simp add: w_def old)
    then show ?thesis by (simp add: word9_elem_def)
  qed
  then show ?thesis
    using assms True by (intro exI [of _ "normalize_invalid_codes_to_x w"])
      (simp add: logic9_low_word_def w_def [symmetric] normalize_bit, simp add: w_def)
next
  case False
  define loop where "loop n = for_range 0 n (\<lambda>index planes.
      for_range 0 4 (\<lambda>plane planes. if encoded_bit (to_logic9 (elem4 v index)) plane
        then planes[plane := planes ! plane OR push_bit index 1] else planes) planes) (replicate 4 (0 :: u64))" for n
  define P where "P n ps \<longleftrightarrow> length ps = 4 \<and>
    (\<forall>p<4. \<forall>i<64. bit (ps ! p) i = (i < n \<and> encoded_bit (elem9 v i) p))" for n and ps :: "u64 list"
  have "P (width4 v) (loop (width4 v))"
    unfolding loop_def
  proof (rule for_range_invariant)
    fix k and ps :: "u64 list"
    assume k: "k < width4 v" and P: "P k ps"
    then have l: "length ps = 4" by (simp add: P_def)
    have b: "bit (2 ^ k :: u64) i \<longleftrightarrow> i = k" if "i < 64" for i
      using that k assms(3) by (auto simp: bit_exp_iff possible_bit_word)
    show "P (Suc k) (for_range 0 4 (\<lambda>plane planes. if encoded_bit (to_logic9 (elem4 v k)) plane
        then planes[plane := planes ! plane OR push_bit k 1] else planes) ps)"
      unfolding P_def
    proof (intro conjI allI impI)
      fix p i :: nat
      assume p: "p < 4" and i: "i < 64"
      from P p i have "bit (ps ! p) i = (i < k \<and> encoded_bit (elem9 v i) p)" by (simp add: P_def)
      then show "bit (for_range 0 4 (\<lambda>plane planes. if encoded_bit (to_logic9 (elem4 v k)) plane
        then planes[plane := planes ! plane OR push_bit k 1] else planes) ps ! p) i = (i < Suc k \<and> encoded_bit (elem9 v i) p)"
        unfolding or_planes_loop(1) [OF l p] elem9_logic4 [OF False]
        by (cases "encoded_bit (to_logic9 (elem4 v k)) p") (auto simp: bit_or_iff b [OF i] less_Suc_eq)
    qed (rule or_planes_loop(2) [OF l, of 0], simp)
  qed (simp_all add: P_def)
  then have P: "P (width4 v) (loop (width4 v))" .
  define w where "w = \<lparr>w9_width = width4 v, w9_planes = loop (width4 v)\<rparr>"
  have "word9_elem w i = elem9 v i" if "i < width4 v" for i
  proof -
    have "gather_code (\<lambda>p. bit (w9_planes w ! p) i) = gather_code (encoded_bit (elem9 v i))"
      using that P assms(3) by (intro gather_code_cong) (simp add: w_def P_def)
    then show ?thesis by (simp add: word9_elem_def)
  qed
  then show ?thesis
    using assms False by (intro exI [of _ "normalize_invalid_codes_to_x w"])
      (simp add: logic9_low_word_def w_def [symmetric] loop_def [symmetric] normalize_bit, simp add: w_def)
qed

lemma plane_loop_word:
  assumes "is_logic9 v" "0 < width4 v" "q < 4"
  shows "logic9_plane (for_range 0 4 (\<lambda>p v. set_plane v p ((logic9_plane v p)[k := X ! p])) v) q = (logic9_plane v q)[k := X ! q]"
  using plane_loop [OF assms, of "\<lambda>p ws. ws[k := X ! p]"] by simp

lemma from_logic9_word_planes_ok:
  assumes "0 < w" "w \<le> size_max div 4" "length P0 = words_for w" "length P1 = words_for w"
    "length P2 = words_for w" "length P3 = words_for w"
  shows "\<exists>r. from_logic9_word_planes w P0 P1 P2 P3 = Inr r \<and> logic4_ok r \<and> is_logic9 r \<and> width4 r = w \<and>
    (\<forall>i<w. elem9 r i = logic9_of_code (gather_code (\<lambda>p. read_bit ([P0, P1, P2, P3] ! p) i)))"
proof -
  define P where "P = [P0, P1, P2, P3]"
  have lP: "length (P ! p) = words_for w" if "p < 4" for p
    using lt4_cases [OF that] assms by (auto simp: P_def)
  obtain z where z: "PackedLogic4 w Zero4 = Inr z" "logic4_ok z" "width4 z = w"
    using PackedLogic4_obtain [OF assms(2), of Zero4] by blast
  define N where "N k = w9_planes (normalize_invalid_codes_to_x
     \<lparr>w9_width = 0, w9_planes = map (\<lambda>p. P ! p ! k) [0..<4]\<rparr>)" for k
  have N: "w9_planes (normalize_invalid_codes_to_x \<lparr>w9_width = x, w9_planes = map (\<lambda>p. P ! p ! k) [0..<4]\<rparr>) = N k" for x k
    by (simp add: N_def normalize_invalid_codes_to_x_def Let_def)
  define u0 where "u0 = set_plane (set_plane (set_plane (set_plane (promote_to_logic9 z) 0 P0) 1 P1) 2 P2) 3 P3"
  have fr0: "is_logic9 u0" "width4 u0 = w" using z by (simp_all add: u0_def)
  have u0: "logic9_plane u0 p = P ! p" if "p < 4" for p
    using lt4_cases [OF that] assms(1) z by (auto simp: u0_def P_def logic9_plane_set_plane)
  define step where "step k v = (let remaining_width = w - k * 64;
                   value = normalize_invalid_codes_to_x
                     \<lparr>w9_width = min remaining_width 64,
                      w9_planes = map (\<lambda>plane. logic9_plane v plane ! k) [0..<4]\<rparr>
               in for_range 0 4 (\<lambda>plane result.
                    set_plane result plane ((logic9_plane result plane)[k := w9_planes value ! plane])) v)" for k v
  define u where "u = for_range 0 (words_for w) step u0"
  define I where "I k v \<longleftrightarrow> is_logic9 v \<and> width4 v = w \<and> (\<forall>p<4. length (logic9_plane v p) = words_for w \<and>
     (\<forall>j<words_for w. logic9_plane v p ! j = (if j < k then N j ! p else P ! p ! j)))" for k v
  have "I (words_for w) u"
    unfolding u_def
  proof (rule for_range_invariant)
    show "I 0 u0" using fr0 u0 lP by (simp add: I_def)
    fix k v
    assume k: "k < words_for w" and I: "I k v"
    have "map (\<lambda>plane. logic9_plane v plane ! k) [0..<4] = map (\<lambda>p. P ! p ! k) [0..<4]"
      using I k by (simp add: I_def)
    then have s: "step k v = for_range 0 4 (\<lambda>p r. set_plane r p ((logic9_plane r p)[k := N k ! p])) v"
      unfolding step_def Let_def by (simp only: N)
    have fr: "is_logic9 v" "0 < width4 v" using I assms(1) by (simp_all add: I_def)
    show "I (Suc k) (step k v)"
      using I k unfolding I_def s
      by (simp add: plane_loop_word [OF fr] nth_list_update less_Suc_eq)
  qed simp
  then have fr: "is_logic9 u" "width4 u = w" and pl: "\<And>p. p < 4 \<Longrightarrow> length (logic9_plane u p) = words_for w"
    and nth: "\<And>p j. p < 4 \<Longrightarrow> j < words_for w \<Longrightarrow> logic9_plane u p ! j = N j ! p"
    by (simp_all add: I_def)
  have read: "read_bit (logic9_plane u p) i = encoded_bit (logic9_of_code (gather_code (\<lambda>p. read_bit (P ! p) i))) p"
    if "i < w" "p < 4" for i p
  proof -
    have d: "i div 64 < words_for w" using that(1) by (rule less_words_for)
    have "gather_code (\<lambda>p. bit (map (\<lambda>p. P ! p ! (i div 64)) [0..<4] ! p) (i mod 64)) =
        gather_code (\<lambda>p. read_bit (P ! p) i)"
      by (rule gather_code_cong) (simp add: read_bit_eq_bit)
    then show ?thesis
      using that by (simp add: read_bit_eq_bit [of "logic9_plane u p"] nth [OF that(2) d] N_def normalize_bit word9_elem_def)
  qed
  have "w \<le> size_max - 63" using assms(2) by (simp add: size_max_def)
  then have "from_logic9_word_planes w P0 P1 P2 P3 = Inr (mask_unused_bits u)"
    using assms z unfolding from_logic9_word_planes_def word_count_def u_def step_def u0_def by simp
  then show ?thesis
    using mask_unused_ok9 [of u "\<lambda>i. logic9_of_code (gather_code (\<lambda>p. read_bit (P ! p) i))"] fr pl read assms(1,2)
    unfolding P_def by simp
qed

subsection \<open>Numeric values\<close>

lemma bit_unsigned_value: "bit (unsigned_value v) i \<longleftrightarrow> i < width4 v \<and> elem4 v i = One4"
  by (auto simp: unsigned_value_def bit_horner_sum_bit_iff)

lemma unsigned_value_bounds: "0 \<le> unsigned_value v" "unsigned_value v < 2 ^ width4 v"
proof -
  have "unsigned_value v = take_bit (width4 v) (unsigned_value v)"
    by (rule bit_eqI) (auto simp: bit_take_bit_iff bit_unsigned_value)
  then show "0 \<le> unsigned_value v" "unsigned_value v < 2 ^ width4 v"
    by (metis take_bit_nonnegative, metis take_bit_int_less_exp)
qed

lemma bit_signed_value:
  "0 < width4 v \<Longrightarrow> bit (signed_value v) i \<longleftrightarrow> elem4 v (min i (width4 v - 1)) = One4"
  by (auto simp: signed_value_def bit_signed_take_bit_iff bit_unsigned_value min_def)

lemma signed_value_eq:
  assumes "0 < width4 v"
  shows "signed_value v = unsigned_value v - (if elem4 v (width4 v - 1) = One4 then 2 ^ width4 v else 0)"
proof -
  obtain n where n: "width4 v = Suc n" using assms by (cases "width4 v") auto
  have "signed_value v = take_bit (Suc n) (unsigned_value v) - 2 ^ Suc n * of_bool (bit (unsigned_value v) n)"
    unfolding signed_value_def n diff_Suc_1
    using signed_take_bit_eq_take_bit_minus [of n "unsigned_value v"] by simp
  moreover have "take_bit (Suc n) (unsigned_value v) = unsigned_value v"
    using unsigned_value_bounds [of v] n by (simp add: take_bit_int_eq_self)
  ultimately show ?thesis by (simp add: n bit_unsigned_value)
qed

lemma zero_words_iff:
  "(\<forall>x\<in>set ws. x = (0 :: u64)) \<longleftrightarrow> (\<forall>i<64 * length ws. \<not> read_bit ws i)"
proof
  assume "\<forall>x\<in>set ws. x = 0"
  then show "\<forall>i<64 * length ws. \<not> read_bit ws i"
    by (simp add: read_bit_eq_bit all_set_conv_all_nth less_mult_imp_div_less mult.commute)
next
  assume z: "\<forall>i<64 * length ws. \<not> read_bit ws i"
  show "\<forall>x\<in>set ws. x = 0"
  proof
    fix x
    assume "x \<in> set ws"
    then obtain k where k: "k < length ws" "x = ws ! k" by (auto simp: in_set_conv_nth)
    have "\<not> bit (ws ! k) n" if "n < 64" for n
      using z k(1) that by (simp add: bit_nth_eq_read_bit)
    with k show "x = 0" by (simp add: word_all_bits0)
  qed
qed

lemma plane_zero_iff:
  assumes "plane_ok w ws"
  shows "(\<forall>x\<in>set ws. x = 0) \<longleftrightarrow> (\<forall>i<w. \<not> read_bit ws i)"
  using assms plane_ok_bound [OF assms] unfolding zero_words_iff plane_ok_def
  by (metis atLeastLessThan_iff not_le order_less_le_trans)

lemma all_known_bval:
  assumes "logic4_ok v" "\<not> is_logic9 v"
  shows "all_known v \<longleftrightarrow> (\<forall>x\<in>set (bval_words v). x = 0)"
proof -
  have "plane_ok (width4 v) (bval_words v)" using assms(1) by (simp add: logic4_ok_def)
  then show ?thesis
    unfolding all_known_def plane_zero_iff [OF \<open>plane_ok (width4 v) (bval_words v)\<close>] read_plane4 [OF assms(2)] bval_of_def
    by (metis logic4.distinct(3,5,7,9) logic4.exhaust)
qed

lemma known_elem: "all_known v \<Longrightarrow> i < width4 v \<Longrightarrow> elem4 v i = One4 \<longleftrightarrow> aval_of (elem4 v i)"
  by (auto simp: all_known_def aval_of_def)

lemma high_words_iff:
  assumes "logic4_ok v" "\<not> is_logic9 v" "0 < width4 v" "all_known v"
  shows "(\<forall>x\<in>set (drop 1 (aval_words v)). x = 0) \<longleftrightarrow> unsigned_value v < 2 ^ 64"
proof -
  have ok: "plane_ok (width4 v) (aval_words v)" using assms(1) by (simp add: logic4_ok_def)
  then have "aval_words v \<noteq> []" using assms(3) by (auto dest: plane_ok_length)
  then obtain a as where aas: "aval_words v = a # as" by (cases "aval_words v") auto
  have shift: "read_bit as i = read_bit (a # as) (64 + i)" for i
  proof -
    have "(64 + i) div 64 = Suc (i div 64)" by simp
    then show ?thesis by (simp only: read_bit_eq_bit nth_Cons_Suc) simp
  qed
  have "(\<forall>x\<in>set as. x = 0) \<longleftrightarrow> (\<forall>i<64 * length as. \<not> read_bit (aval_words v) (64 + i))"
    unfolding zero_words_iff aas by (simp only: shift)
  also have "\<dots> \<longleftrightarrow> (\<forall>i. 64 \<le> i \<longrightarrow> i < width4 v \<longrightarrow> \<not> read_bit (aval_words v) i)"
  proof -
    have len: "width4 v \<le> 64 + 64 * length as" using plane_ok_bound [OF ok] aas by simp
    have out: "\<not> read_bit (aval_words v) j" if "width4 v \<le> j" "j < 64 + 64 * length as" for j
      using ok that aas by (simp add: plane_ok_def)
    show ?thesis
    proof (rule iffI; intro allI impI)
      fix i
      assume "\<forall>i<64 * length as. \<not> read_bit (aval_words v) (64 + i)" "64 \<le> i" "i < width4 v"
      moreover from this len have "i - 64 < 64 * length as" "64 + (i - 64) = i" by simp_all
      ultimately show "\<not> read_bit (aval_words v) i" by metis
    next
      fix i
      assume "\<forall>i\<ge>64. i < width4 v \<longrightarrow> \<not> read_bit (aval_words v) i" "i < 64 * length as"
      then show "\<not> read_bit (aval_words v) (64 + i)" using out [of "64 + i"] by (cases "64 + i < width4 v") auto
    qed
  qed
  also have "\<dots> \<longleftrightarrow> (\<forall>i\<ge>64. \<not> bit (unsigned_value v) i)"
    using known_elem [OF assms(4)] by (auto simp: bit_unsigned_value read_plane4 [OF assms(2)])
  also have "\<dots> \<longleftrightarrow> take_bit 64 (unsigned_value v) = unsigned_value v"
    unfolding bit_eq_iff [of "take_bit 64 (unsigned_value v)"] bit_take_bit_iff by simp (metis not_le)
  also have "\<dots> \<longleftrightarrow> unsigned_value v < 2 ^ 64"
    using unsigned_value_bounds(1) [of v] by (simp add: take_bit_int_eq_self_iff)
  finally show ?thesis using aas by simp
qed

lemma known_unsigned_value_eq:
  assumes "logic4_ok v"
  shows "known_unsigned_value v =
    (if 0 < width4 v \<and> \<not> is_logic9 v \<and> all_known v \<and> unsigned_value v < 2 ^ 64
     then Some (word_of_int (unsigned_value v)) else None)"
proof (cases "0 < width4 v \<and> \<not> is_logic9 v \<and> all_known v")
  case True
  then have t: "0 < width4 v" "\<not> is_logic9 v" "all_known v" by simp_all
  have ok: "plane_ok (width4 v) (aval_words v)" using assms by (simp add: logic4_ok_def)
  have "hd (aval_words v) = word_of_int (unsigned_value v)"
  proof (rule u64_eqI)
    fix n :: nat
    assume n: "n < 64"
    have ne: "aval_words v \<noteq> []" using t plane_ok_length [OF ok] by auto
    then have "bit (hd (aval_words v)) n = read_bit (aval_words v) n"
      using n by (simp add: hd_conv_nth read_bit_eq_bit)
    also have "\<dots> = bit (unsigned_value v) n"
    proof (cases "n < width4 v")
      case True
      then show ?thesis using known_elem [OF t(3)] by (simp add: bit_unsigned_value read_plane4 [OF t(2)])
    next
      case False
      have "n < 64 * length (aval_words v)" using n ne by (cases "aval_words v") auto
      with False ok show ?thesis by (simp add: bit_unsigned_value plane_ok_def)
    qed
    finally show "bit (hd (aval_words v)) n = bit (word_of_int (unsigned_value v) :: u64) n"
      using n by (simp add: bit_word_of_int_iff)
  qed
  moreover have "list_ex (\<lambda>word. word \<noteq> 0) (drop 1 (aval_words v)) \<longleftrightarrow> \<not> unsigned_value v < 2 ^ 64"
    using high_words_iff [OF assms t(2,1,3)] by (auto simp: list_ex_iff)
  moreover have "\<not> list_ex (\<lambda>word. word \<noteq> 0) (bval_words v)"
    using all_known_bval [OF assms t(2)] t(3) by (auto simp: list_ex_iff)
  ultimately show ?thesis using t by (simp add: known_unsigned_value_def)
next
  case False
  then show ?thesis
    using all_known_bval [OF assms] by (auto simp: known_unsigned_value_def list_ex_iff)
qed


lemma u64_eq_iff: "(v :: u64) = w \<longleftrightarrow> (\<forall>n<64. bit v n = bit w n)"
  using u64_eqI by blast

lemma bit_sint_u64: "bit (sint (w :: u64)) i \<longleftrightarrow> bit w (min i 63)"
  by (auto simp: bit_sint_iff min_def)

text \<open>A two's complement number fits 64 bits when its sign bits agree from bit 63 upwards.\<close>

lemma fits64_iff: "- (2 ^ 63) \<le> k \<and> k < 2 ^ 63 \<longleftrightarrow> (\<forall>i\<ge>63. bit (k :: int) i = bit k 63)"
proof -
  have "- (2 ^ 63) \<le> k \<and> k < 2 ^ 63 \<longleftrightarrow> signed_take_bit 63 k = k"
    using signed_take_bit_int_eq_self_iff [of 63 k] by simp
  also have "\<dots> \<longleftrightarrow> (\<forall>i\<ge>63. bit k i = bit k 63)"
    by (auto simp: bit_eq_iff [of "signed_take_bit 63 k"] bit_signed_take_bit_iff min_def)
  finally show ?thesis .
qed

lemma signed_narrow_fits:
  assumes "0 < width4 v" "width4 v \<le> 64"
  shows "- (2 ^ 63) \<le> signed_value v \<and> signed_value v < 2 ^ 63"
  unfolding fits64_iff
proof (intro allI impI)
  fix i :: nat
  assume "63 \<le> i"
  with assms(2) have "min i (width4 v - 1) = min 63 (width4 v - 1)" by simp
  with assms(1) show "bit (signed_value v) i = bit (signed_value v) 63" by (simp only: bit_signed_value)
qed

lemma known_signed_narrow:
  assumes "logic4_ok v" "\<not> is_logic9 v" "0 < width4 v" "width4 v < 64" "all_known v"
  shows "known_signed_value v = Some (signed_value v)"
proof -
  have le: "width4 v \<le> 64" using assms(4) by simp
  obtain w :: logic4_word where w: "aval_words v = [w4_aval w]" "\<forall>i. bit (w4_aval w) i \<longrightarrow> i < width4 v"
      "\<forall>i<width4 v. elem4 v i = word_elem w i"
    by (rule low_word_ok [OF assms(1-3) le]) (rule that, assumption+)
  define a where "a = w4_aval w"
  have b: "bit a i \<longleftrightarrow> i < width4 v \<and> elem4 v i = One4" for i
    using w known_elem [OF assms(5), of i] by (auto simp: a_def)
  define sgn where "sgn = (a AND push_bit (width4 v - 1) 1 \<noteq> 0)"
  have s: "sgn \<longleftrightarrow> bit a (width4 v - 1)"
    unfolding sgn_def by (rule bit_iff_and_push_bit_not_eq_0 [symmetric])
  have x: "bit (if sgn then a OR NOT (final_word_mask (width4 v)) else a) j =
      (elem4 v (min j (width4 v - 1)) = One4)" if "j < 64" for j
  proof (cases "j < width4 v")
    case True
    then have "min j (width4 v - 1) = j" by simp
    with True that le assms(3) show ?thesis by (simp add: bit_or_iff bit_not_iff b)
  next
    case False
    then have "min j (width4 v - 1) = width4 v - 1" by simp
    with False that le assms(3) s b [of "width4 v - 1"] show ?thesis
      by (simp add: bit_or_iff bit_not_iff possible_bit_word b)
  qed
  have "sint (if sgn then a OR NOT (final_word_mask (width4 v)) else a) = signed_value v"
  proof (rule bit_eqI)
    fix i
    have "min (min i 63) (width4 v - 1) = min i (width4 v - 1)" using assms(4) by simp
    then show "bit (sint (if sgn then a OR NOT (final_word_mask (width4 v)) else a)) i = bit (signed_value v) i"
      unfolding bit_sint_u64 bit_signed_value [OF assms(3)] by (subst x) simp_all
  qed
  moreover have "\<not> list_ex (\<lambda>word. word \<noteq> 0) (bval_words v)"
    using all_known_bval [OF assms(1,2)] assms(5) by (auto simp: list_ex_iff)
  moreover from calculation(2) have "known_signed_value v =
      Some (sint (if sgn then a OR NOT (final_word_mask (width4 v)) else a))"
    using assms(2-4) w(1) unfolding known_signed_value_def Let_def sgn_def a_def by simp
  ultimately show ?thesis by simp
qed


lemma known_signed_wide:
  assumes "logic4_ok v" "\<not> is_logic9 v" "64 \<le> width4 v" "all_known v"
  shows "known_signed_value v =
    (if - (2 ^ 63) \<le> signed_value v \<and> signed_value v < 2 ^ 63 then Some (signed_value v) else None)"
proof -
  define A where "A = aval_words v"
  have ok: "plane_ok (width4 v) A" using assms(1) by (simp add: logic4_ok_def A_def)
  have pos: "0 < width4 v" using assms(3) by simp
  have ne: "A \<noteq> []" using pos plane_ok_length [OF ok] by auto
  have b: "read_bit A i \<longleftrightarrow> elem4 v i = One4" if "i < width4 v" for i
    using known_elem [OF assms(4) that] by (simp add: A_def read_plane4 [OF assms(2)])
  have low: "bit (hd A) i = read_bit A i" if "i < 64" for i
    using that ne by (simp add: hd_conv_nth read_bit_eq_bit)
  define neg where "neg = (hd A AND push_bit 63 1 \<noteq> 0)"
  have neg: "neg \<longleftrightarrow> elem4 v 63 = One4"
  proof -
    have "neg = bit (hd A) 63" unfolding neg_def by (rule bit_iff_and_push_bit_not_eq_0 [symmetric])
    with low [of 63] b [of 63] assms(3) show ?thesis by simp
  qed
  define m where "m k = (if k + 1 = length A then final_word_mask (width4 v) else NOT (0 :: u64))" for k
  have len: "length A = words_for (width4 v)" using plane_ok_length [OF ok] .
  have m: "bit (m k) n \<longleftrightarrow> n < 64 \<and> 64 * k + n < width4 v" if "k < length A" for k n
  proof -
    obtain q r where w: "width4 v = 64 * q + r" "r < 64" "width4 v div 64 = q" "width4 v mod 64 = r" by (rule split64E)
    have l: "length A = q + (if r = 0 then 0 else 1)" using len w by (simp add: words_for_alt)
    show ?thesis
    proof (cases "k + 1 = length A")
      case True
      then have "64 * k + n < width4 v \<longleftrightarrow> r = 0 \<and> n < 64 \<or> r \<noteq> 0 \<and> n < r"
        using w(1) l by (cases "r = 0") auto
      with True w(2) show ?thesis unfolding m_def by (auto simp: bit_final_word_mask w(4))
    next
      case False
      with that l have "k + 1 \<le> q" by (cases "r = 0") simp_all
      then have "64 * k + 64 \<le> width4 v" using w(1) by simp
      with False show ?thesis unfolding m_def by auto
    qed
  qed
  have word: "A ! k AND m k = (if neg then m k else 0) \<longleftrightarrow>
      (\<forall>n<64. 64 * k + n < width4 v \<longrightarrow> (elem4 v (64 * k + n) = One4) = neg)" if k: "k < length A" for k
  proof -
    have "A ! k AND m k = (if neg then m k else 0) \<longleftrightarrow>
        (\<forall>n<64. bit (A ! k AND m k) n = bit (if neg then m k else 0) n)"
      by (rule u64_eq_iff)
    also have "\<dots> \<longleftrightarrow> (\<forall>n<64. 64 * k + n < width4 v \<longrightarrow> read_bit A (64 * k + n) = neg)"
      by (cases neg) (simp_all add: bit_and_iff m [OF k] bit_nth_eq_read_bit cong: imp_cong, blast+)
    finally show ?thesis by (simp add: b cong: imp_cong)
  qed
  have all: "(\<forall>k\<in>{1..<length A}. A ! k AND m k = (if neg then m k else 0)) \<longleftrightarrow>
      (\<forall>i\<ge>64. i < width4 v \<longrightarrow> (elem4 v i = One4) = neg)"
  proof (rule iffI; intro ballI allI impI)
    fix i
    assume h: "\<forall>k\<in>{1..<length A}. A ! k AND m k = (if neg then m k else 0)" and i: "64 \<le> i" "i < width4 v"
    obtain q r where q: "i = 64 * q + r" "r < 64" "i div 64 = q" by (rule split64E)
    have "q < length A" using i(2) less_words_for [of i "width4 v"] q(3) len by simp
    moreover have "1 \<le> q" using i(1) q(1,2) by linarith
    ultimately show "(elem4 v i = One4) = neg" using h word [of q] q i(2) by auto
  next
    fix k
    assume h: "\<forall>i\<ge>64. i < width4 v \<longrightarrow> (elem4 v i = One4) = neg" and k: "k \<in> {1..<length A}"
    then show "A ! k AND m k = (if neg then m k else 0)" by (subst word) auto
  qed
  have fits: "- (2 ^ 63) \<le> signed_value v \<and> signed_value v < 2 ^ 63 \<longleftrightarrow>
      (\<forall>i\<ge>64. i < width4 v \<longrightarrow> (elem4 v i = One4) = neg)"
  proof -
    have "(\<forall>i\<ge>63. (elem4 v (min i (width4 v - 1)) = One4) = (elem4 v 63 = One4)) \<longleftrightarrow>
      (\<forall>i\<ge>64. i < width4 v \<longrightarrow> (elem4 v i = One4) = (elem4 v 63 = One4))"
    proof (rule iffI; intro allI impI)
      fix i :: nat
      assume "\<forall>i\<ge>63. (elem4 v (min i (width4 v - 1)) = One4) = (elem4 v 63 = One4)" "64 \<le> i" "i < width4 v"
      moreover from this have "min i (width4 v - 1) = i" "63 \<le> i" by simp_all
      ultimately show "(elem4 v i = One4) = (elem4 v 63 = One4)" by metis
    next
      fix i :: nat
      assume h: "\<forall>i\<ge>64. i < width4 v \<longrightarrow> (elem4 v i = One4) = (elem4 v 63 = One4)" and "63 \<le> i"
      then have "min i (width4 v - 1) = 63 \<or> 64 \<le> min i (width4 v - 1) \<and> min i (width4 v - 1) < width4 v"
        using assms(3) by auto
      with h show "(elem4 v (min i (width4 v - 1)) = One4) = (elem4 v 63 = One4)" by metis
    qed
    moreover have "min 63 (width4 v - 1) = 63" using assms(3) by simp
    ultimately show ?thesis unfolding fits64_iff bit_signed_value [OF pos] neg by simp
  qed
  have sint: "sint (hd A) = signed_value v" if "\<forall>i\<ge>64. i < width4 v \<longrightarrow> (elem4 v i = One4) = neg"
  proof (rule bit_eqI)
    fix i
    have "bit (sint (hd A)) i = (elem4 v (min i 63) = One4)"
      using low [of "min i 63"] b [of "min i 63"] assms(3) by (simp add: bit_sint_u64)
    moreover have "\<forall>i\<ge>63. bit (signed_value v) i = bit (signed_value v) 63"
      using that fits fits64_iff by blast
    then have "bit (signed_value v) i = bit (signed_value v) (min i 63)"
      by (metis min_def nat_le_linear)
    moreover have "min (min i 63) (width4 v - 1) = min i 63" using assms(3) by simp
    ultimately show "bit (sint (hd A)) i = bit (signed_value v) i" by (simp add: bit_signed_value [OF pos])
  qed
  have "known_signed_value v = (if list_ex (\<lambda>k. A ! k AND m k \<noteq> (if neg then m k else 0)) [1..<length A] then None else Some (sint (hd A)))"
    using assms(2,3) all_known_bval [OF assms(1,2)] assms(4)
    unfolding known_signed_value_def Let_def A_def [symmetric] neg_def m_def by (simp add: list_ex_iff)
  moreover have "list_ex (\<lambda>k. A ! k AND m k \<noteq> (if neg then m k else 0)) [1..<length A] \<longleftrightarrow>
      \<not> (\<forall>i\<ge>64. i < width4 v \<longrightarrow> (elem4 v i = One4) = neg)"
    unfolding all [symmetric] list_ex_iff set_upt by blast
  ultimately show ?thesis using fits sint by simp
qed

lemma known_signed_value_eq:
  assumes "logic4_ok v"
  shows "known_signed_value v =
    (if 0 < width4 v \<and> \<not> is_logic9 v \<and> all_known v \<and> - (2 ^ 63) \<le> signed_value v \<and> signed_value v < 2 ^ 63
     then Some (signed_value v) else None)"
proof (cases "0 < width4 v \<and> \<not> is_logic9 v \<and> all_known v")
  case True
  then show ?thesis
    using known_signed_narrow [OF assms] known_signed_wide [OF assms] signed_narrow_fits [of v]
    by (cases "width4 v < 64") auto
next
  case False
  then show ?thesis
    using all_known_bval [OF assms] by (auto simp: known_signed_value_def list_ex_iff)
qed

subsection \<open>Parsing and printing\<close>

lemma and_mask_bit: "(ws ! (i div 64) AND push_bit (i mod 64) 1 \<noteq> 0) = read_bit ws i"
  unfolding read_bit_eq_bit by (rule bit_iff_and_push_bit_not_eq_0 [symmetric])

lemma to_char4_bits:
  "(if b then (if a then CHR ''X'' else CHR ''Z'') else (if a then CHR ''1'' else CHR ''0'')) = to_char4 (logic4_of_bits a b)"
  by (simp add: logic4_of_bits_def)

lemma to_char9_code: "''UX01ZWLH-'' ! (if n \<le> logic9_code DontCare9 then n else logic9_code X9) = to_char9 (logic9_of_code n)"
proof (cases "n \<le> 8")
  case True
  then have "n \<in> {0, 1, 2, 3, 4, 5, 6, 7, 8}" by auto
  then show ?thesis by (auto simp: to_char9_def logic9_of_code_def)
next
  case False
  then show ?thesis by (simp add: to_char9_def logic9_of_code_def)
qed

lemma encoded_or:
  "(if a then 1 else 0 :: nat) OR (if b then 2 else 0) OR (if c then 4 else 0) OR (if d then 8 else 0) =
    of_bool a + 2 * of_bool b + 4 * of_bool c + 8 * of_bool d"
  by (cases a; cases b; cases c; cases d) simp_all

lemma to_msb_string_eq: "to_msb_string v = rev (map (elem_char v) [0..<width4 v])"
proof (cases "width4 v = 0")
  case True
  then show ?thesis by (simp add: to_msb_string_def)
next
  case False
  then have w: "0 < width4 v" by simp
  show ?thesis
  proof (cases "is_logic9 v")
    case True
    have "to_msb_string v = for_range 0 (width4 v) (\<lambda>i s. s[width4 v - i - 1 := elem_char v i]) (replicate (width4 v) CHR ''X'')"
      using True unfolding to_msb_string_def Let_def and_mask_bit to_char9_code encoded_or
      by (simp add: elem_char_def elem9_def planes_elem_def gather_code_eq logic9_plane_simps [OF w])
    then show ?thesis using for_range_fill_back [of "replicate (width4 v) CHR ''X''" "width4 v" "elem_char v"] by simp
  next
    case False
    have "to_msb_string v = for_range 0 (width4 v) (\<lambda>i s. s[width4 v - i - 1 := elem_char v i]) (replicate (width4 v) CHR ''X'')"
      using False unfolding to_msb_string_def Let_def and_mask_bit to_char4_bits
      by (simp add: elem_char_def elem4_eq)
    then show ?thesis using for_range_fill_back [of "replicate (width4 v) CHR ''X''" "width4 v" "elem_char v"] by simp
  qed
qed

text \<open>One word of a parsed string.\<close>

lemma or_bit_step:
  assumes "k < 64" "\<And>n. n < 64 \<Longrightarrow> bit (w :: u64) n \<longleftrightarrow> n < k \<and> f n"
  shows "n < 64 \<Longrightarrow> bit (if f k then w OR push_bit k 1 else w) n \<longleftrightarrow> n < Suc k \<and> f n"
proof -
  assume n: "n < 64"
  have "bit (push_bit k 1 :: u64) n \<longleftrightarrow> n = k"
    using n assms(1) by (auto simp: bit_exp_iff possible_bit_word)
  with assms(2) [OF n] show ?thesis by (cases "f k") (auto simp: bit_or_iff less_Suc_eq)
qed

lemma parse_word4_eq:
  fixes s :: string
  assumes "first \<le> limit" "limit \<le> first + 64"
  defines "p \<equiv> \<lambda>i. parse_logic4 (s ! (length s - i - 1))"
  shows "if \<forall>i\<in>{first..<limit}. p i \<noteq> None
    then \<exists>a b. parse_word4 s first limit = Inr (a, b) \<and>
      (\<forall>n<64. bit a n = (n < limit - first \<and> aval_of (the (p (first + n))))) \<and>
      (\<forall>n<64. bit b n = (n < limit - first \<and> bval_of (the (p (first + n)))))
    else parse_word4 s first limit = Inl Invalid_argument"
proof -
  define g where "g i e ab =
    (if aval_of e then fst ab OR push_bit (i - first) 1 else fst ab,
     if bval_of e then snd ab OR push_bit (i - first) 1 else snd ab)"
    for i :: nat and e and ab :: "u64 \<times> u64"
  have body: "(case ab of (a, b) \<Rightarrow>
      (case p i of None \<Rightarrow> Inl Invalid_argument | Some parsed \<Rightarrow>
        let bit = push_bit (i - first) 1
        in Inr (case parsed of Zero4 \<Rightarrow> (a, b) | One4 \<Rightarrow> (a OR bit, b) | X4 \<Rightarrow> (a OR bit, b OR bit) | Z4 \<Rightarrow> (a, b OR bit)))) =
    (case p i of None \<Rightarrow> Inl Invalid_argument | Some e \<Rightarrow> Inr (g i e ab))" for i ab
    by (cases ab; cases "p i") (auto simp: g_def aval_of_def bval_of_def Let_def split: logic4.split)
  define R where "R = for_range first limit (\<lambda>i. g i (the (p i))) (0, 0)"
  have eq: "parse_word4 s first limit = (if \<forall>i\<in>{first..<limit}. p i \<noteq> None then Inr R else Inl Invalid_argument)"
  proof -
    have "parse_word4 s first limit =
        for_result first limit (\<lambda>i ab. case p i of None \<Rightarrow> Inl Invalid_argument | Some e \<Rightarrow> Inr (g i e ab)) (0, 0)"
      unfolding parse_word4_def
      by (intro arg_cong [where f = "\<lambda>b. for_result first limit b (0, 0)"] ext) (unfold p_def, rule body [unfolded p_def])
    then show ?thesis unfolding for_result_option R_def .
  qed
  define P where "P k ab \<longleftrightarrow> (\<forall>n<64. bit (fst ab :: u64) n = (n < k - first \<and> aval_of (the (p (first + n))))) \<and>
      (\<forall>n<64. bit (snd ab :: u64) n = (n < k - first \<and> bval_of (the (p (first + n)))))" for k ab
  have "P limit R"
    unfolding R_def
  proof (rule for_range_invariant [OF assms(1)])
    fix k ab
    assume k: "first \<le> k" "k < limit" and P: "P k ab"
    have d: "k - first < 64" "Suc k - first = Suc (k - first)" "first + (k - first) = k" using k assms(2) by auto
    have "bit (fst (g k (the (p k)) ab)) n = (n < Suc (k - first) \<and> aval_of (the (p (first + n))))" if "n < 64" for n
      using or_bit_step [OF d(1) _ that, of "fst ab" "\<lambda>n. aval_of (the (p (first + n)))"] P
      unfolding g_def fst_conv d(3) P_def by blast
    moreover have "bit (snd (g k (the (p k)) ab)) n = (n < Suc (k - first) \<and> bval_of (the (p (first + n))))" if "n < 64" for n
      using or_bit_step [OF d(1) _ that, of "snd ab" "\<lambda>n. bval_of (the (p (first + n)))"] P
      unfolding g_def snd_conv d(3) P_def by blast
    ultimately show "P (Suc k) (g k (the (p k)) ab)" unfolding P_def d(2) by blast
  qed (simp add: P_def)
  then show ?thesis unfolding eq P_def by (cases R) auto
qed


text \<open>The words of a string: every offset is in exactly one of them.\<close>

lemma all_words_iff:
  fixes P :: "nat \<Rightarrow> bool"
  shows "(\<forall>k<words_for n. \<forall>i\<in>{k * 64..<min n (k * 64 + 64)}. P i) \<longleftrightarrow> (\<forall>i<n. P i)"
proof (intro iffI allI impI ballI)
  fix i
  assume h: "\<forall>k<words_for n. \<forall>i\<in>{k * 64..<min n (k * 64 + 64)}. P i" and i: "i < n"
  obtain q r where q: "i = 64 * q + r" "r < 64" "i div 64 = q" by (rule split64E)
  have "q < words_for n" using less_words_for [OF i] q(3) by simp
  with h i q show "P i" by auto
qed auto

lemma word_start_le:
  assumes "k < words_for n"
  shows "k * 64 \<le> min n (k * 64 + 64)" "min n (k * 64 + 64) \<le> k * 64 + 64"
  using assms words_for_le [of n] by auto

text \<open>A plane whose word \<open>k\<close> holds the bits of the offsets \<open>64 * k\<close> onwards.\<close>

lemma plane_of_words:
  assumes "length ws = words_for w"
    and "\<And>k n. k < words_for w \<Longrightarrow> n < 64 \<Longrightarrow> bit (ws ! k) n \<longleftrightarrow> n < min w (k * 64 + 64) - k * 64 \<and> f (k * 64 + n)"
  shows "plane_ok w ws" "\<And>i. i < w \<Longrightarrow> read_bit ws i = f i"
proof -
  have r: "read_bit ws i \<longleftrightarrow> i < w \<and> f i" if "i < 64 * length ws" for i
  proof -
    obtain q r where q: "i = 64 * q + r" "r < 64" "i div 64 = q" "i mod 64 = r" by (rule split64E)
    have k: "q < words_for w" using that q(1) assms(1) by simp
    have "r < min w (q * 64 + 64) - q * 64 \<longleftrightarrow> i < w" using q(1,2) by auto
    then show ?thesis
      using assms(2) [OF k q(2)] by (simp add: read_bit_eq_bit q(3,4)) (simp add: q(1) mult.commute)
  qed
  show "plane_ok w ws" using r assms(1) by (auto simp: plane_ok_def)
  show "\<And>i. i < w \<Longrightarrow> read_bit ws i = f i" using r le_words_for [of w] assms(1) by simp
qed

lemma from_msb_string_cases:
  assumes "length s \<le> size_max div 4"
  shows "if \<forall>c\<in>set s. parse_logic4 c \<noteq> None
    then \<exists>v. from_msb_string s = Inr v \<and> logic4_ok v \<and> \<not> is_logic9 v \<and> width4 v = length s \<and>
      (\<forall>i<length s. elem4 v i = the (parse_logic4 (s ! (length s - i - 1))))
    else from_msb_string s = Inl Invalid_argument"
proof -
  define p where "p i = parse_logic4 (s ! (length s - i - 1))" for i
  define N where "N = words_for (length s)"
  define lim where "lim k = min (length s) (k * 64 + 64)" for k
  obtain z where z: "PackedLogic4 (length s) Zero4 = Inr z" "logic4_ok z" "\<not> is_logic9 z" "width4 z = length s"
    using PackedLogic4_obtain [OF assms, of Zero4] by blast
  note len = logic4_ok_lengths(1,2) [OF z(2), unfolded z(4)]
  have pw: "if \<forall>i\<in>{k * 64..<lim k}. p i \<noteq> None
    then \<exists>a b. parse_word4 s (k * 64) (lim k) = Inr (a, b) \<and>
      (\<forall>n<64. bit a n = (n < lim k - k * 64 \<and> aval_of (the (p (k * 64 + n))))) \<and>
      (\<forall>n<64. bit b n = (n < lim k - k * 64 \<and> bval_of (the (p (k * 64 + n)))))
    else parse_word4 s (k * 64) (lim k) = Inl Invalid_argument" if "k < N" for k
    using parse_word4_eq [OF word_start_le [of k "length s"], of s] that unfolding p_def N_def lim_def by blast
  define f where "f k = (case parse_word4 s (k * 64) (lim k) of Inl _ \<Rightarrow> None | Inr ab \<Rightarrow> Some ab)" for k
  define g where "g k ab r = r\<lparr>aval_words := (aval_words r)[k := fst ab], bval_words := (bval_words r)[k := snd ab]\<rparr>"
    for k and ab :: "u64 \<times> u64" and r :: packed_logic4
  have f: "f k \<noteq> None \<longleftrightarrow> (\<forall>i\<in>{k * 64..<lim k}. p i \<noteq> None)" if "k < N" for k
    using pw [OF that] by (auto simp: f_def split: if_splits)
  define R where "R = for_range 0 N (\<lambda>k. g k (the (f k))) z"
  have "from_msb_string s = for_result 0 N (\<lambda>k r. case f k of None \<Rightarrow> Inl Invalid_argument | Some ab \<Rightarrow> Inr (g k ab r)) z"
  proof (cases "s = []")
    case True
    then show ?thesis using z(1) by (simp add: from_msb_string_def N_def)
  next
    case False
    have body: "bind_result (parse_word4 s (k * 64) (lim k)) (\<lambda>(a, b). Inr (r\<lparr>aval_words := (aval_words r)[k := a],
        bval_words := (bval_words r)[k := b]\<rparr>)) = (case f k of None \<Rightarrow> Inl Invalid_argument | Some ab \<Rightarrow> Inr (g k ab r))"
      if "k < N" for k r
      using pw [OF that] by (auto simp: f_def g_def split: if_splits)
    have "from_msb_string s = for_result 0 N (\<lambda>k r. bind_result (parse_word4 s (k * 64) (lim k)) (\<lambda>(a, b).
        Inr (r\<lparr>aval_words := (aval_words r)[k := a], bval_words := (bval_words r)[k := b]\<rparr>))) z"
      using False z(1) len unfolding from_msb_string_def N_def lim_def Let_def by simp
    also have "\<dots> = for_result 0 N (\<lambda>k r. case f k of None \<Rightarrow> Inl Invalid_argument | Some ab \<Rightarrow> Inr (g k ab r)) z"
      unfolding for_result_def by (rule for_range_cong) (simp_all add: body)
    finally show ?thesis .
  qed
  then have eq: "from_msb_string s = (if \<forall>k\<in>{0..<N}. f k \<noteq> None then Inr R else Inl Invalid_argument)"
    unfolding for_result_option R_def .
  have all: "(\<forall>k\<in>{0..<N}. f k \<noteq> None) \<longleftrightarrow> (\<forall>c\<in>set s. parse_logic4 c \<noteq> None)"
  proof -
    have "(\<forall>k\<in>{0..<N}. f k \<noteq> None) \<longleftrightarrow> (\<forall>i<length s. p i \<noteq> None)"
      using all_words_iff [of "length s" "\<lambda>i. p i \<noteq> None"] f unfolding N_def lim_def by auto
    also have "\<dots> \<longleftrightarrow> (\<forall>c\<in>set s. parse_logic4 c \<noteq> None)"
      unfolding p_def by (rule all_rev_nth)
    finally show ?thesis .
  qed
  define P where "P k r \<longleftrightarrow> length (aval_words r) = N \<and> length (bval_words r) = N \<and> width4 r = length s \<and>
      \<not> is_logic9 r \<and> plane2_words r = [] \<and> plane3_words r = [] \<and>
      (\<forall>j<k. aval_words r ! j = fst (the (f j)) \<and> bval_words r ! j = snd (the (f j)))" for k and r :: packed_logic4
  have P: "P N R"
    unfolding R_def
    by (rule for_range_invariant)
       (use z len logic4_ok_planes4 [OF z(2,3)] in \<open>auto simp: P_def g_def N_def nth_list_update less_Suc_eq\<close>)
  show ?thesis
  proof (cases "\<forall>c\<in>set s. parse_logic4 c \<noteq> None")
    case True
    then have fs: "f k \<noteq> None" if "k < N" for k using all that by simp
    have w: "bit (fst (the (f k))) n \<longleftrightarrow> n < lim k - k * 64 \<and> aval_of (the (p (k * 64 + n)))"
      "bit (snd (the (f k))) n \<longleftrightarrow> n < lim k - k * 64 \<and> bval_of (the (p (k * 64 + n)))" if "k < N" "n < 64" for k n
      using pw [OF that(1)] f [OF that(1)] fs [OF that(1)] that(2) by (auto simp: f_def)
    have pa: "plane_ok (length s) (aval_words R)" "\<And>i. i < length s \<Longrightarrow> read_bit (aval_words R) i = aval_of (the (p i))"
      using plane_of_words [of "aval_words R" "length s" "\<lambda>i. aval_of (the (p i))"] P w unfolding P_def N_def lim_def by simp_all
    have pb: "plane_ok (length s) (bval_words R)" "\<And>i. i < length s \<Longrightarrow> read_bit (bval_words R) i = bval_of (the (p i))"
      using plane_of_words [of "bval_words R" "length s" "\<lambda>i. bval_of (the (p i))"] P w unfolding P_def N_def lim_def by simp_all
    have "logic4_ok R" using P pa pb assms unfolding P_def by (simp add: logic4_ok_def)
    moreover have "elem4 R i = the (p i)" if "i < length s" for i
      using that P pa(2) pb(2) unfolding P_def by (simp add: elem4_eq)
    ultimately show ?thesis using True eq all P unfolding P_def p_def by auto
  next
    case False
    with eq all show ?thesis by auto
  qed
qed


lemma parse_word9_eq:
  fixes s :: string
  assumes "first \<le> limit" "limit \<le> first + 64"
  defines "q \<equiv> \<lambda>i. parse_logic9 (s ! (length s - i - 1))"
  shows "if \<forall>i\<in>{first..<limit}. q i \<noteq> None
    then \<exists>ps. parse_word9 s first limit = Inr ps \<and> length ps = 4 \<and>
      (\<forall>p<4. \<forall>n<64. bit (ps ! p) n = (n < limit - first \<and> encoded_bit (the (q (first + n))) p))
    else parse_word9 s first limit = Inl Invalid_argument"
proof -
  define g where "g i e = for_range 0 4 (\<lambda>p ps. if encoded_bit e p then ps[p := ps ! p OR push_bit (i - first) (1 :: u64)] else ps)"
    for i :: nat and e
  define R where "R = for_range first limit (\<lambda>i. g i (the (q i))) (replicate 4 0)"
  have eq: "parse_word9 s first limit = (if \<forall>i\<in>{first..<limit}. q i \<noteq> None then Inr R else Inl Invalid_argument)"
  proof -
    have "parse_word9 s first limit =
        for_result first limit (\<lambda>i ps. case q i of None \<Rightarrow> Inl Invalid_argument | Some e \<Rightarrow> Inr (g i e ps)) (replicate 4 0)"
      unfolding parse_word9_def g_def q_def Let_def canonical_logic9_value_id ..
    then show ?thesis unfolding for_result_option R_def .
  qed
  define P where "P k ps \<longleftrightarrow> length ps = 4 \<and>
      (\<forall>p<4. \<forall>n<64. bit (ps ! p :: u64) n = (n < k - first \<and> encoded_bit (the (q (first + n))) p))" for k ps
  have "P limit R"
    unfolding R_def
  proof (rule for_range_invariant [OF assms(1)])
    fix k ps
    assume k: "first \<le> k" "k < limit" and P: "P k ps"
    have d: "k - first < 64" "Suc k - first = Suc (k - first)" "first + (k - first) = k" using k assms(2) by auto
    have l: "length ps = 4" using P by (simp add: P_def)
    have "bit (g k (the (q k)) ps ! p) n = (n < Suc (k - first) \<and> encoded_bit (the (q (first + n))) p)" if "n < 64" "p < 4" for n p
      using or_bit_step [OF d(1) _ that(1), of "ps ! p" "\<lambda>n. encoded_bit (the (q (first + n))) p"] P that(2)
      unfolding g_def or_planes_loop(1) [OF l that(2)] d(3) P_def by blast
    moreover have "length (g k (the (q k)) ps) = 4" unfolding g_def by (rule or_planes_loop(2) [OF l, of 0]) simp
    ultimately show "P (Suc k) (g k (the (q k)) ps)" unfolding P_def d(2) by blast
  qed (simp add: P_def)
  then show ?thesis unfolding eq P_def by auto
qed

lemma from_logic9_msb_string_cases:
  assumes "length s \<le> size_max div 4"
  shows "if \<forall>c\<in>set s. parse_logic9 c \<noteq> None
    then \<exists>v. from_logic9_msb_string s = Inr v \<and> logic4_ok v \<and> is_logic9 v \<and> width4 v = length s \<and>
      (\<forall>i<length s. elem9 v i = the (parse_logic9 (s ! (length s - i - 1))))
    else from_logic9_msb_string s = Inl Invalid_argument"
proof -
  define q where "q i = parse_logic9 (s ! (length s - i - 1))" for i
  define N where "N = words_for (length s)"
  define lim where "lim k = min (length s) (k * 64 + 64)" for k
  obtain z0 where z0: "PackedLogic4 (length s) Zero4 = Inr z0" "logic4_ok z0" "width4 z0 = length s"
    using PackedLogic4_obtain [OF assms, of Zero4] by blast
  define z where "z = promote_to_logic9 z0"
  have z: "logic4_ok z" "is_logic9 z" "width4 z = length s"
    using promote_ok(1) [OF z0(2)] z0(3) by (simp_all add: z_def)
  have pw: "if \<forall>i\<in>{k * 64..<lim k}. q i \<noteq> None
    then \<exists>ps. parse_word9 s (k * 64) (lim k) = Inr ps \<and> length ps = 4 \<and>
      (\<forall>p<4. \<forall>n<64. bit (ps ! p) n = (n < lim k - k * 64 \<and> encoded_bit (the (q (k * 64 + n))) p))
    else parse_word9 s (k * 64) (lim k) = Inl Invalid_argument" if "k < N" for k
    using parse_word9_eq [OF word_start_le [of k "length s"], of s] that unfolding q_def N_def lim_def by blast
  define f where "f k = (case parse_word9 s (k * 64) (lim k) of Inl _ \<Rightarrow> None | Inr ab \<Rightarrow> Some ab)" for k
  define g where "g k ps r = for_range 0 4 (\<lambda>p r. set_plane r p ((logic9_plane r p)[k := ps ! p])) r"
    for k and ps :: "u64 list" and r :: packed_logic4
  have f: "f k \<noteq> None \<longleftrightarrow> (\<forall>i\<in>{k * 64..<lim k}. q i \<noteq> None)" if "k < N" for k
    using pw [OF that] by (auto simp: f_def split: if_splits)
  define R where "R = for_range 0 N (\<lambda>k. g k (the (f k))) z"
  have body: "bind_result (parse_word9 s (k * 64) (lim k)) (\<lambda>ps. Inr (g k ps r)) =
      (case f k of None \<Rightarrow> Inl Invalid_argument | Some ab \<Rightarrow> Inr (g k ab r))" if "k < N" for k r
    using pw [OF that] by (auto simp: f_def split: if_splits)
  have "from_logic9_msb_string s = for_result 0 N (\<lambda>k r. bind_result (parse_word9 s (k * 64) (lim k)) (\<lambda>ps. Inr (g k ps r))) z"
    using z0(1) unfolding from_logic9_msb_string_def N_def lim_def Let_def g_def z_def by simp
  also have "\<dots> = for_result 0 N (\<lambda>k r. case f k of None \<Rightarrow> Inl Invalid_argument | Some ab \<Rightarrow> Inr (g k ab r)) z"
    unfolding for_result_def by (rule for_range_cong) (simp_all add: body)
  finally have eq: "from_logic9_msb_string s = (if \<forall>k\<in>{0..<N}. f k \<noteq> None then Inr R else Inl Invalid_argument)"
    unfolding for_result_option R_def .
  have all: "(\<forall>k\<in>{0..<N}. f k \<noteq> None) \<longleftrightarrow> (\<forall>c\<in>set s. parse_logic9 c \<noteq> None)"
  proof -
    have "(\<forall>k\<in>{0..<N}. f k \<noteq> None) \<longleftrightarrow> (\<forall>i<length s. q i \<noteq> None)"
      using all_words_iff [of "length s" "\<lambda>i. q i \<noteq> None"] f unfolding N_def lim_def by auto
    also have "\<dots> \<longleftrightarrow> (\<forall>c\<in>set s. parse_logic9 c \<noteq> None)"
      unfolding q_def by (rule all_rev_nth)
    finally show ?thesis .
  qed
  show ?thesis
  proof (cases "\<forall>c\<in>set s. parse_logic9 c \<noteq> None")
    case False
    with eq all show ?thesis by auto
  next
    case True
    show ?thesis
    proof (cases "s = []")
      case True
      then have "R = z" by (simp add: R_def N_def)
      with True eq all z show ?thesis by auto
    next
      case False
      then have w: "0 < length s" by simp
      define P where "P k r \<longleftrightarrow> is_logic9 r \<and> width4 r = length s \<and> (\<forall>p<4. length (logic9_plane r p) = N \<and>
         (\<forall>j<k. logic9_plane r p ! j = the (f j) ! p))" for k and r :: packed_logic4
      have P: "P N R"
        unfolding R_def
      proof (rule for_range_invariant)
        show "P 0 z" using z logic4_ok_lengths(3) [OF z(1,2)] w by (simp add: P_def N_def)
        fix k r
        assume k: "k < N" and P: "P k r"
        have fr: "is_logic9 r" "0 < width4 r" using P w by (simp_all add: P_def)
        have "is_logic9 (g k X r) = is_logic9 r \<and> width4 (g k X r) = width4 r" for X by (simp add: g_def)
        then show "P (Suc k) (g k (the (f k)) r)"
          using P k plane_loop_word [OF fr] unfolding P_def
          by (simp add: g_def nth_list_update less_Suc_eq)
      qed simp
      have fs: "f k \<noteq> None" if "k < N" for k using all that True by simp
      have pb: "plane_ok (length s) (logic9_plane R p) \<and>
          (\<forall>i<length s. read_bit (logic9_plane R p) i = encoded_bit (the (q i)) p)" if p: "p < 4" for p
      proof -
        have "bit (logic9_plane R p ! k) n \<longleftrightarrow> n < lim k - k * 64 \<and> encoded_bit (the (q (k * 64 + n))) p" if "k < N" "n < 64" for k n
          using pw [OF that(1)] f [OF that(1)] fs [OF that(1)] that P p by (auto simp: f_def P_def)
        then show ?thesis
          using plane_of_words [of "logic9_plane R p" "length s" "\<lambda>i. encoded_bit (the (q i)) p"] P p
          unfolding P_def N_def lim_def by simp
      qed
      have "logic4_ok R" "\<And>i. i < length s \<Longrightarrow> elem9 R i = the (q i)"
        using logic4_ok_9I [of R "\<lambda>i. the (q i)"] P pb w assms unfolding P_def by simp_all
      then show ?thesis using True eq all P unfolding P_def q_def by auto
    qed
  qed
qed

subsection \<open>Properties\<close>

lemma elems9_eq_iff:
  "map f [0..<m] = map g [0..<n] \<longleftrightarrow> m = n \<and> (\<forall>i<n. f i = g i)"
  by (auto simp: list_eq_iff_nth_eq)

lemma insert_elems:
  assumes "off + w \<le> n"
  shows "map (\<lambda>i. if off \<le> i \<and> i < off + w then g (i - off) else f i) [0..<n] =
    take off (map f [0..<n]) @ map g [0..<w] @ drop (off + w) (map f [0..<n])"
  using assms by (auto simp: list_eq_iff_nth_eq nth_append)

lemma extract_elems:
  assumes "off + w \<le> n"
  shows "map (\<lambda>i. f (off + i)) [0..<w] = take w (drop off (map f [0..<n]))"
  using assms by (auto simp: list_eq_iff_nth_eq)

lemma elems9_length [simp]: "length (elems9 v) = width4 v"
  by (simp add: elems9_def)

lemma elems9_nth: "i < width4 v \<Longrightarrow> elem9 v i = elems9 v ! i"
  by (simp add: elems9_def)

lemma rev_map_nth: "map (\<lambda>i. f (s ! (length s - i - 1))) [0..<length s] = rev (map f s)"
  using map_rev_nth [of f s] by (metis rev_rev_ident)

text \<open>The vector written as a string literal, for concrete inputs.\<close>

lemma from_msb_string_elems:
  assumes "length s \<le> size_max div 4" "\<forall>c\<in>set s. parse_logic4 c \<noteq> None"
  shows "\<exists>v. from_msb_string s = Inr v \<and> logic4_ok v \<and> \<not> is_logic9 v \<and> width4 v = length s \<and>
    elems9 v = rev (map (\<lambda>c. to_logic9 (the (parse_logic4 c))) s)"
proof -
  obtain v where v: "from_msb_string s = Inr v" "logic4_ok v" "\<not> is_logic9 v" "width4 v = length s"
      "\<forall>i<length s. elem4 v i = the (parse_logic4 (s ! (length s - i - 1)))"
    using from_msb_string_cases [OF assms(1)] assms(2) by auto
  have "elems9 v = map (\<lambda>i. to_logic9 (the (parse_logic4 (s ! (length s - i - 1))))) [0..<length s]"
    using v by (simp add: elems9_def elem9_logic4)
  then show ?thesis using v rev_map_nth [of "\<lambda>c. to_logic9 (the (parse_logic4 c))" s] by auto
qed

lemma from_logic9_msb_string_elems:
  assumes "length s \<le> size_max div 4" "\<forall>c\<in>set s. parse_logic9 c \<noteq> None"
  shows "\<exists>v. from_logic9_msb_string s = Inr v \<and> logic4_ok v \<and> is_logic9 v \<and> width4 v = length s \<and>
    elems9 v = rev (map (\<lambda>c. the (parse_logic9 c)) s)"
proof -
  obtain v where v: "from_logic9_msb_string s = Inr v" "logic4_ok v" "is_logic9 v" "width4 v = length s"
      "\<forall>i<length s. elem9 v i = the (parse_logic9 (s ! (length s - i - 1)))"
    using from_logic9_msb_string_cases [OF assms(1)] assms(2) by auto
  have "elems9 v = map (\<lambda>i. the (parse_logic9 (s ! (length s - i - 1)))) [0..<length s]"
    using v by (simp add: elems9_def)
  then show ?thesis using v rev_map_nth [of "\<lambda>c. the (parse_logic9 c)" s] by auto
qed

text \<open>
  C26: Inserting a range replaces exactly the selected elements of the target (promoting a
  four-state target when the source is nine-state), extracting it again returns the inserted
  elements in the kind of the target, both keep the invariant, and a range that is empty or leaves
  the target throws invalid_argument.
\<close>

theorem insert_extract_bits:
  assumes "logic4_ok v" "logic4_ok s"
  shows "if 0 < width4 s \<and> off + width4 s \<le> width4 v
    then \<exists>r e. insert_bits v s off = Inr r \<and> logic4_ok r \<and> is_logic9 r = (is_logic9 v \<or> is_logic9 s) \<and>
           elems9 r = take off (elems9 v) @ elems9 s @ drop (off + width4 s) (elems9 v) \<and>
           extract_bits r off (width4 s) = Inr e \<and> logic4_ok e \<and> is_logic9 e = is_logic9 r \<and> elems9 e = elems9 s
    else insert_bits v s off = Inl Invalid_argument \<and> extract_bits v off (width4 s) = Inl Invalid_argument"
proof (cases "0 < width4 s \<and> off + width4 s \<le> width4 v")
  case True
  then obtain r where r: "insert_bits v s off = Inr r" "logic4_ok r" "width4 r = width4 v"
      "is_logic9 r = (is_logic9 v \<or> is_logic9 s)"
      "\<forall>i<width4 v. elem9 r i = (if off \<le> i \<and> i < off + width4 s then elem9 s (i - off) else elem9 v i)"
    using insert_bits_ok [OF assms, of off] by blast
  obtain e where e: "extract_bits r off (width4 s) = Inr e" "logic4_ok e" "width4 e = width4 s"
      "is_logic9 e = is_logic9 r" "\<forall>i<width4 s. elem9 e i = elem9 r (off + i)"
    using extract_bits_ok [OF r(2), of "width4 s" off] True r(3) by auto
  have "elems9 r = map (\<lambda>i. if off \<le> i \<and> i < off + width4 s then elem9 s (i - off) else elem9 v i) [0..<width4 v]"
    using r(3,5) by (simp add: elems9_def)
  then have "elems9 r = take off (elems9 v) @ elems9 s @ drop (off + width4 s) (elems9 v)"
    unfolding elems9_def using insert_elems [of off "width4 s" "width4 v" "elem9 s" "elem9 v"] True by simp
  moreover have "elems9 e = elems9 s"
    using e r(5) True by (simp add: elems9_def)
  ultimately show ?thesis using True r e by auto
next
  case False
  then have "width4 s = 0 \<or> width4 v < off + width4 s" by auto
  with False show ?thesis using insert_bits_error extract_bits_error by auto
qed

theorem insert_extract_bits_witness:
  "\<exists>v s r e. from_msb_string ''0101XX'' = Inr v \<and> from_logic9_msb_string ''LW'' = Inr s \<and>
     insert_bits v s 3 = Inr r \<and> elems9 r = [X9, X9, One9, W9, L9, Zero9] \<and> extract_bits r 3 2 = Inr e \<and> elems9 e = [W9, L9]"
proof -
  obtain v where v: "from_msb_string ''0101XX'' = Inr v" "logic4_ok v" "width4 v = 6"
      "elems9 v = [X9, X9, One9, Zero9, One9, Zero9]"
    using from_msb_string_elems [of "''0101XX''"] by (auto simp: size_max_def parse_logic4_def)
  obtain s where s: "from_logic9_msb_string ''LW'' = Inr s" "logic4_ok s" "width4 s = 2" "elems9 s = [W9, L9]"
    using from_logic9_msb_string_elems [of "''LW''"] by (auto simp: size_max_def parse_logic9_def)
  show ?thesis
    using insert_extract_bits [OF v(2) s(2), of 3] v s by auto
qed

text \<open>
  C27: Strings of the transport value: printing a well-formed value of either kind and parsing it
  with the parser of that kind gives the value back, and each parser accepts exactly the strings
  over its digits, of which the printed form is the upper-case copy, and throws invalid_argument on
  every other string.
\<close>

theorem packed_logic4_string_roundtrip:
  "(logic4_ok v \<longrightarrow> (if is_logic9 v then from_logic9_msb_string else from_msb_string) (to_msb_string v) = Inr v) \<and>
   (length s \<le> size_max div 4 \<longrightarrow>
     (if set s \<subseteq> set ''01xXzZ''
      then \<exists>v. from_msb_string s = Inr v \<and> logic4_ok v \<and> to_msb_string v = map (\<lambda>c. to_char4 (the (parse_logic4 c))) s
      else from_msb_string s = Inl Invalid_argument) \<and>
     (if set s \<subseteq> set ''uUxX01zZwWlLhH-''
      then \<exists>v. from_logic9_msb_string s = Inr v \<and> logic4_ok v \<and> to_msb_string v = map (\<lambda>c. to_char9 (the (parse_logic9 c))) s
      else from_logic9_msb_string s = Inl Invalid_argument))"
proof (intro conjI impI)
  assume ok: "logic4_ok v"
  define s where "s = to_msb_string v"
  have s: "s = rev (map (elem_char v) [0..<width4 v])" by (simp add: s_def to_msb_string_eq)
  then have l: "length s = width4 v" by simp
  have n: "s ! (length s - i - 1) = elem_char v i" if "i < width4 v" for i
    using that by (simp add: s rev_nth)
  show "(if is_logic9 v then from_logic9_msb_string else from_msb_string) (to_msb_string v) = Inr v"
  proof (cases "is_logic9 v")
    case True
    then have "\<forall>c\<in>set s. parse_logic9 c \<noteq> None" by (auto simp: s elem_char_def parse_to_char9)
    then obtain u where u: "from_logic9_msb_string s = Inr u" "logic4_ok u" "is_logic9 u" "width4 u = length s"
        "\<forall>i<length s. elem9 u i = the (parse_logic9 (s ! (length s - i - 1)))"
      using from_logic9_msb_string_cases [of s] logic4_ok_width [OF ok] l by auto
    have "u = v"
      using u ok True l n by (intro logic4_eqI_elem9) (simp_all add: elem_char_def parse_to_char9)
    with u True show ?thesis by (simp add: s_def)
  next
    case False
    then have "\<forall>c\<in>set s. parse_logic4 c \<noteq> None" by (auto simp: s elem_char_def parse_to_char4)
    then obtain u where u: "from_msb_string s = Inr u" "logic4_ok u" "\<not> is_logic9 u" "width4 u = length s"
        "\<forall>i<length s. elem4 u i = the (parse_logic4 (s ! (length s - i - 1)))"
      using from_msb_string_cases [of s] logic4_ok_width [OF ok] l by auto
    have "u = v"
      using u ok False l n by (intro logic4_eqI4) (simp_all add: elem_char_def parse_to_char4)
    with u False show ?thesis by (simp add: s_def)
  qed
next
  assume l: "length s \<le> size_max div 4"
  have dom: "(\<forall>c\<in>set s. parse_logic4 c \<noteq> None) \<longleftrightarrow> set s \<subseteq> set ''01xXzZ''"
    unfolding parse_logic4_domain by blast
  have pr: "to_msb_string v = map (\<lambda>c. to_char4 (the (parse_logic4 c))) s"
    if "\<not> is_logic9 v" "width4 v = length s" "\<forall>i<length s. elem4 v i = the (parse_logic4 (s ! (length s - i - 1)))" for v
  proof -
    have "to_msb_string v = rev (map (\<lambda>i. to_char4 (the (parse_logic4 (s ! (length s - i - 1))))) [0..<length s])"
      using that by (simp add: to_msb_string_eq elem_char_def)
    then show ?thesis by (simp only: map_rev_nth [of "\<lambda>c. to_char4 (the (parse_logic4 c))" s])
  qed
  show "if set s \<subseteq> set ''01xXzZ''
      then \<exists>v. from_msb_string s = Inr v \<and> logic4_ok v \<and> to_msb_string v = map (\<lambda>c. to_char4 (the (parse_logic4 c))) s
      else from_msb_string s = Inl Invalid_argument"
    using from_msb_string_cases [OF l] pr unfolding dom
    by (cases "set s \<subseteq> set ''01xXzZ''") (auto simp only: if_True if_False)
next
  assume l: "length s \<le> size_max div 4"
  have dom: "(\<forall>c\<in>set s. parse_logic9 c \<noteq> None) \<longleftrightarrow> set s \<subseteq> set ''uUxX01zZwWlLhH-''"
    unfolding parse_logic9_domain by blast
  have pr: "to_msb_string v = map (\<lambda>c. to_char9 (the (parse_logic9 c))) s"
    if "is_logic9 v" "width4 v = length s" "\<forall>i<length s. elem9 v i = the (parse_logic9 (s ! (length s - i - 1)))" for v
  proof -
    have "to_msb_string v = rev (map (\<lambda>i. to_char9 (the (parse_logic9 (s ! (length s - i - 1))))) [0..<length s])"
      using that by (simp add: to_msb_string_eq elem_char_def)
    then show ?thesis by (simp only: map_rev_nth [of "\<lambda>c. to_char9 (the (parse_logic9 c))" s])
  qed
  show "if set s \<subseteq> set ''uUxX01zZwWlLhH-''
      then \<exists>v. from_logic9_msb_string s = Inr v \<and> logic4_ok v \<and> to_msb_string v = map (\<lambda>c. to_char9 (the (parse_logic9 c))) s
      else from_logic9_msb_string s = Inl Invalid_argument"
    using from_logic9_msb_string_cases [OF l] pr unfolding dom
    by (cases "set s \<subseteq> set ''uUxX01zZwWlLhH-''") (auto simp only: if_True if_False)
qed

theorem packed_logic4_string_roundtrip_witness:
  "from_msb_string ''01L'' = Inl Invalid_argument \<and>
   (\<exists>v. from_logic9_msb_string ''01l'' = Inr v \<and> to_msb_string v = ''01L'')"
  using packed_logic4_string_roundtrip [of undefined "''01L''"] packed_logic4_string_roundtrip [of undefined "''01l''"]
  by (auto simp: size_max_def to_char9_def parse_logic9_def)

lemma all_known_elems: "all_known v \<longleftrightarrow> (\<forall>e\<in>set (elems9 v). to_logic4 e = Zero4 \<or> to_logic4 e = One4)"
  by (auto simp: all_known_def elems9_def elem4_elem9)

lemma unsigned_value_elems: "unsigned_value v = horner_sum of_bool 2 (map (\<lambda>e. to_logic4 e = One4) (elems9 v))"
  by (simp add: unsigned_value_def elems9_def elem4_elem9 comp_def)

text \<open>
  C28: The masked single-word update writes the source element wherever the mask has a bit inside
  the range and leaves every other element, for aligned and word-crossing offsets and for both
  kinds of value; on a four-state value the masked comparison then answers true, and in general it
  answers whether the selected elements agree.  A range outside the value throws invalid_argument.
\<close>

theorem masked_word_update_compare:
  assumes "logic4_ok v"
  shows "if 0 < w4_width s \<and> w4_width s \<le> 64 \<and> off + w4_width s \<le> width4 v
    then \<exists>r. insert_masked_word v s m off = Inr r \<and> logic4_ok r \<and> width4 r = width4 v \<and> is_logic9 r = is_logic9 v \<and>
           (\<forall>i<width4 v. elem9 r i = (if off \<le> i \<and> i < off + w4_width s \<and> bit m (i - off)
              then to_logic9 (word_elem s (i - off)) else elem9 v i)) \<and>
           matches_masked_word r s m off = Inr (\<not> is_logic9 v) \<and>
           matches_masked_word v s m off = Inr (\<not> is_logic9 v \<and>
             (\<forall>i<w4_width s. bit m i \<longrightarrow> elem4 v (off + i) = word_elem s i))
    else insert_masked_word v s m off = Inl Invalid_argument \<and> matches_masked_word v s m off = Inl Invalid_argument"
proof (cases "0 < w4_width s \<and> w4_width s \<le> 64 \<and> off + w4_width s \<le> width4 v")
  case True
  then have t: "0 < w4_width s" "w4_width s \<le> 64" "off + w4_width s \<le> width4 v" by simp_all
  obtain r where r: "insert_masked_word v s m off = Inr r" "logic4_ok r" "width4 r = width4 v" "is_logic9 r = is_logic9 v"
      "\<forall>i<width4 v. elem9 r i = (if off \<le> i \<and> i < off + w4_width s \<and> bit m (i - off)
         then to_logic9 (word_elem s (i - off)) else elem9 v i)"
    using insert_masked_word_ok [OF assms t, of m] by blast
  have "matches_masked_word r s m off = Inr (\<not> is_logic9 v)"
    using matches_masked_word_iff [OF r(2) t(1,2), of off m] t(3) r(3-5) by (simp add: elem4_elem9)
  then show ?thesis using True r matches_masked_word_iff [OF assms t, of m] by auto
next
  case False
  then have "word_range_bad v s off" using word_range_ok by blast
  with False show ?thesis by (auto simp: insert_masked_word_def matches_masked_word_def)
qed

theorem masked_word_update_compare_witness:
  "\<exists>v r. from_msb_string ''ZZZZ0000'' = Inr v \<and>
     insert_masked_word v \<lparr>w4_width = 4, w4_aval = 15, w4_bval = 0\<rparr> 6 3 = Inr r \<and>
     elem9 r 4 = One9 \<and> elem9 r 5 = One9 \<and> elem9 r 3 = Zero9 \<and> elem9 r 6 = Z9"
proof -
  obtain v where v: "from_msb_string ''ZZZZ0000'' = Inr v" "logic4_ok v" "width4 v = 8"
      "elems9 v = [Zero9, Zero9, Zero9, Zero9, Z9, Z9, Z9, Z9]"
    using from_msb_string_elems [of "''ZZZZ0000''"] by (auto simp: size_max_def parse_logic4_def)
  have b: "bit (6 :: u64) 0 = False" "bit (6 :: u64) 1 = True" "bit (6 :: u64) 2 = True" "bit (6 :: u64) 3 = False"
    "bit (15 :: u64) 1 = True" "bit (15 :: u64) 2 = True"
    by (simp_all add: bit_iff_odd)
  from masked_word_update_compare [OF v(2), of "\<lparr>w4_width = 4, w4_aval = 15, w4_bval = 0\<rparr>" 3 6] v b
  show ?thesis by (auto simp: word_elem_def logic4_of_bits_def elems9_nth [of _ v])
qed

text \<open>
  C29: The same for nine-state words: malformed codes of the source word become X, exactly the
  selected elements change, and the masked comparison afterwards answers true.
\<close>

theorem masked_logic9_word_update_compare:
  assumes "logic4_ok v"
  shows "if is_logic9 v \<and> 0 < width4 v \<and> width4 v \<le> 64 \<and> w9_width s = width4 v
    then \<exists>r. insert_masked_logic9_word v s m = Inr r \<and> logic4_ok r \<and> is_logic9 r \<and> width4 r = width4 v \<and>
           (\<forall>i<width4 v. elem9 r i = (if bit m i then word9_elem s i else elem9 v i)) \<and>
           matches_masked_logic9_word r s m \<and>
           (matches_masked_logic9_word v s m \<longleftrightarrow> (\<forall>i<width4 v. bit m i \<longrightarrow> elem9 v i = word9_elem s i))
    else insert_masked_logic9_word v s m = Inl Invalid_argument \<and> \<not> matches_masked_logic9_word v s m"
proof (cases "is_logic9 v \<and> 0 < width4 v \<and> width4 v \<le> 64 \<and> w9_width s = width4 v")
  case True
  then have t: "is_logic9 v" "0 < width4 v" "width4 v \<le> 64" "w9_width s = width4 v" by simp_all
  obtain r where r: "insert_masked_logic9_word v s m = Inr r" "logic4_ok r" "is_logic9 r" "width4 r = width4 v"
      "\<forall>i<width4 v. elem9 r i = (if bit m i then word9_elem s i else elem9 v i)"
    using insert_masked_logic9_word_ok [OF assms t, of m] by blast
  have "matches_masked_logic9_word r s m"
    using matches_masked_logic9_word_iff [OF r(2,3), of s m] r(4,5) t by simp
  then show ?thesis using True r matches_masked_logic9_word_iff [OF assms t, of m] by auto
next
  case False
  then show ?thesis by (auto simp: insert_masked_logic9_word_def matches_masked_logic9_word_def)
qed

theorem masked_logic9_word_update_compare_witness:
  "\<exists>v r. from_logic9_msb_string ''LH'' = Inr v \<and>
     insert_masked_logic9_word v \<lparr>w9_width = 2, w9_planes = [1, 1, 1, 1]\<rparr> 1 = Inr r \<and>
     elem9 r 0 = X9 \<and> elem9 r 1 = L9"
proof -
  obtain v where v: "from_logic9_msb_string ''LH'' = Inr v" "logic4_ok v" "is_logic9 v" "width4 v = 2" "elems9 v = [H9, L9]"
    using from_logic9_msb_string_elems [of "''LH''"] by (auto simp: size_max_def parse_logic9_def)
  have e: "elem9 v 1 = L9" using v(4,5) elems9_nth [of 1 v] by simp
  have w: "word9_elem \<lparr>w9_width = 2, w9_planes = [1, 1, 1, 1]\<rparr> 0 = X9"
    by (simp add: word9_elem_def gather_code_eq logic9_of_code_def)
  obtain r where r: "insert_masked_logic9_word v \<lparr>w9_width = 2, w9_planes = [1, 1, 1, 1]\<rparr> 1 = Inr r"
      "\<forall>i<2. elem9 r i = (if bit (1 :: u64) i then word9_elem \<lparr>w9_width = 2, w9_planes = [1, 1, 1, 1]\<rparr> i else elem9 v i)"
    using masked_logic9_word_update_compare [OF v(2), of "\<lparr>w9_width = 2, w9_planes = [1, 1, 1, 1]\<rparr>" 1] v by auto
  have "elem9 r 0 = X9" "elem9 r 1 = L9" using r(2) e w by (simp_all add: bit_1_iff)
  with v(1) r(1) show ?thesis by blast
qed

text \<open>
  C30: The numeric readings of a well-formed value: the unsigned reading succeeds exactly for a
  nonempty four-state value without X or Z whose binary value is below 2^64 and returns it; the
  signed reading succeeds exactly when the two's complement value fits a signed 64-bit integer and
  returns it, for any width.
\<close>

theorem known_values:
  assumes "logic4_ok v"
  shows "known_unsigned_value v =
     (if 0 < width4 v \<and> \<not> is_logic9 v \<and> all_known v \<and> unsigned_value v < 2 ^ 64
      then Some (word_of_int (unsigned_value v)) else None) \<and>
    known_signed_value v =
     (if 0 < width4 v \<and> \<not> is_logic9 v \<and> all_known v \<and> - (2 ^ 63) \<le> signed_value v \<and> signed_value v < 2 ^ 63
      then Some (signed_value v) else None)"
  using known_unsigned_value_eq [OF assms] known_signed_value_eq [OF assms] by blast

theorem known_values_witness:
  "\<exists>v u. from_msb_string ''101'' = Inr v \<and> known_unsigned_value v = Some 5 \<and> known_signed_value v = Some (- 3) \<and>
     from_msb_string ''1Z1'' = Inr u \<and> known_unsigned_value u = None"
proof -
  obtain v where v: "from_msb_string ''101'' = Inr v" "logic4_ok v" "\<not> is_logic9 v" "width4 v = 3" "elems9 v = [One9, Zero9, One9]"
    using from_msb_string_elems [of "''101''"] by (auto simp: size_max_def parse_logic4_def)
  obtain u where u: "from_msb_string ''1Z1'' = Inr u" "logic4_ok u" "width4 u = 3" "elems9 u = [One9, Z9, One9]"
    using from_msb_string_elems [of "''1Z1''"] by (auto simp: size_max_def parse_logic4_def)
  have k: "all_known v" "\<not> all_known u"
    using v(5) u(4) by (simp_all add: all_known_elems)
  have n: "unsigned_value v = 5" "signed_value v = - 3"
    using v(3-5) by (simp_all add: unsigned_value_elems signed_value_eq elem4_elem9 elems9_nth)
  from known_values [OF v(2)] known_values [OF u(2)] v u k n show ?thesis by auto
qed

text \<open>
  C31: Conversions: expanding to a nine-state vector and collapsing it, collapsing directly, and
  collapsing the promoted value all give the same well-formed four-state value, whose elements are
  the collapsed elements; on a four-state value it is the value itself.
\<close>

theorem conversion_roundtrip:
  assumes "logic4_ok v"
  shows "\<exists>p c. expand_to_logic9 v = Inr p \<and> logic9_ok p \<and> width9 p = width4 v \<and>
      (\<forall>i<width4 v. logic9_elem p i = elem9 v i) \<and>
      collapse_to_logic4 v = Inr c \<and> logic4_ok c \<and> \<not> is_logic9 c \<and> width4 c = width4 v \<and>
      (\<forall>i<width4 v. elem4 c i = to_logic4 (elem9 v i)) \<and>
      collapse_logic9_to_logic4 p = Inr c \<and> collapse_to_logic4 (promoted_to_logic9 v) = Inr c \<and>
      (\<not> is_logic9 v \<longrightarrow> c = v)"
proof -
  obtain p where p: "expand_to_logic9 v = Inr p" "logic9_ok p" "width9 p = width4 v" "\<forall>i<width4 v. logic9_elem p i = elem9 v i"
    using expand_to_logic9_ok [OF assms] by blast
  obtain c where c: "collapse_to_logic4 v = Inr c" "logic4_ok c" "\<not> is_logic9 c" "width4 c = width4 v" "\<forall>i<width4 v. elem4 c i = elem4 v i"
    using collapse_to_logic4_ok [OF assms] by blast
  obtain d where d: "collapse_logic9_to_logic4 p = Inr d" "logic4_ok d" "\<not> is_logic9 d" "width4 d = width4 v"
      "\<forall>i<width4 v. elem4 d i = to_logic4 (logic9_elem p i)"
    using collapse_logic9_ok [OF p(2)] p(3) logic4_ok_width [OF assms] by auto
  define u where "u = promoted_to_logic9 v"
  have u: "logic4_ok u" "width4 u = width4 v" "\<And>i. i < width4 v \<Longrightarrow> elem9 u i = elem9 v i"
    using promote_ok [OF assms] by (simp_all add: u_def promoted_to_logic9_def)
  obtain e where e: "collapse_to_logic4 u = Inr e" "logic4_ok e" "\<not> is_logic9 e" "width4 e = width4 v" "\<forall>i<width4 v. elem4 e i = elem4 u i"
    using collapse_to_logic4_ok [OF u(1)] u(2) by auto
  have "d = c" using c d p by (intro logic4_eqI4) (simp_all add: elem4_elem9)
  moreover have "e = c" using c e u by (intro logic4_eqI4) (simp_all add: elem4_elem9)
  moreover have "\<not> is_logic9 v \<longrightarrow> c = v" using c(1) by (auto simp: collapse_to_logic4_def)
  ultimately show ?thesis using p c d e by (auto simp: u_def elem4_elem9)
qed

theorem conversion_roundtrip_witness:
  "\<exists>v c. from_logic9_msb_string ''LW1'' = Inr v \<and> collapse_to_logic4 v = Inr c \<and>
     elem4 c 0 = One4 \<and> elem4 c 1 = X4 \<and> elem4 c 2 = Zero4"
proof -
  obtain v where v: "from_logic9_msb_string ''LW1'' = Inr v" "logic4_ok v" "width4 v = 3" "elems9 v = [One9, W9, L9]"
    using from_logic9_msb_string_elems [of "''LW1''"] by (auto simp: size_max_def parse_logic9_def)
  have "elem9 v 0 = One9" "elem9 v 1 = W9" "elem9 v 2 = L9"
    using v(3,4) by (simp_all add: elems9_nth)
  with conversion_roundtrip [OF v(2)] v show ?thesis by auto
qed

end
