(* ===== verification/Packed_Resolve.thy ===== *)
theory Packed_Resolve
  imports Packed_Ops
begin

text \<open>
  Driver resolution of packed values in \<^verbatim>\<open>src/runtime/packed_value.cpp\<close>: the
  allocation-free accumulator for one four-state word, the force overlay, and
  \<^verbatim>\<open>resolve(span<PackedLogic4>)\<close>, which resolves all elements of a word at once by
  recording for every bit which values some driver has.  The word algorithms are proved equal to
  the scalar resolution of \<^verbatim>\<open>logic.hpp\<close>, element by element.

  The source keeps one array of words per recorded value; the model keeps one record of the seven
  words per word position.
\<close>

subsection \<open>The word accumulator\<close>

record resolution_accumulator =
  acc_width :: nat
  acc_width_mask :: u64
  acc_zero_seen :: u64
  acc_one_seen :: u64
  acc_unknown_seen :: u64

definition Logic4ResolutionAccumulator :: "nat \<Rightarrow> resolution_accumulator result" where
  "Logic4ResolutionAccumulator width =
     (if width = 0 \<or> width > 64 then Inl Invalid_argument
      else Inr \<lparr>acc_width = width, acc_width_mask = final_word_mask width,
                acc_zero_seen = 0, acc_one_seen = 0, acc_unknown_seen = 0\<rparr>)"

definition accumulator_add :: "resolution_accumulator \<Rightarrow> logic4_word \<Rightarrow> resolution_accumulator result" where
  "accumulator_add acc driver =
     (if w4_width driver \<noteq> acc_width acc then Inl Invalid_argument
      else
        let aval = w4_aval driver AND acc_width_mask acc;
            bval = w4_bval driver AND acc_width_mask acc;
            known = NOT bval AND acc_width_mask acc
        in Inr (acc\<lparr>acc_zero_seen := acc_zero_seen acc OR (NOT aval AND known),
                     acc_one_seen := acc_one_seen acc OR (aval AND known),
                     acc_unknown_seen := acc_unknown_seen acc OR (aval AND bval)\<rparr>))"

definition accumulator_result :: "resolution_accumulator \<Rightarrow> logic4_word" where
  "accumulator_result acc =
     (let driven = acc_zero_seen acc OR acc_one_seen acc OR acc_unknown_seen acc
      in \<lparr>w4_width = acc_width acc,
          w4_aval = (acc_one_seen acc OR acc_unknown_seen acc) AND acc_width_mask acc,
          w4_bval = (acc_unknown_seen acc OR (acc_zero_seen acc AND acc_one_seen acc)
                      OR (NOT driven AND acc_width_mask acc)) AND acc_width_mask acc\<rparr>)"

definition apply_force_word :: "logic4_word \<Rightarrow> logic4_word \<Rightarrow> u64 \<Rightarrow> logic4_word result" where
  "apply_force_word driven forced mask0 =
     (if w4_width driven = 0 \<or> w4_width driven > 64 \<or> w4_width forced \<noteq> w4_width driven
      then Inl Invalid_argument
      else
        let width_mask = final_word_mask (w4_width driven);
            force_mask = mask0 AND width_mask
        in Inr (driven\<lparr>
             w4_aval := ((w4_aval driven AND NOT force_mask) OR (w4_aval forced AND force_mask)) AND width_mask,
             w4_bval := ((w4_bval driven AND NOT force_mask) OR (w4_bval forced AND force_mask)) AND width_mask\<rparr>))"

subsection \<open>Packed drivers\<close>

record seen_words =
  u_seen :: u64
  x_seen :: u64
  zero_seen :: u64
  one_seen :: u64
  w_seen :: u64
  l_seen :: u64
  h_seen :: u64

definition no_seen :: seen_words where
  "no_seen = \<lparr>u_seen = 0, x_seen = 0, zero_seen = 0, one_seen = 0, w_seen = 0, l_seen = 0, h_seen = 0\<rparr>"

definition see_logic4 :: "u64 \<Rightarrow> u64 \<Rightarrow> seen_words \<Rightarrow> seen_words" where
  "see_logic4 p0 p1 seen =
     (let known = NOT p1
      in seen\<lparr>zero_seen := zero_seen seen OR (NOT p0 AND known),
              one_seen := one_seen seen OR (p0 AND known),
              x_seen := x_seen seen OR (p0 AND p1)\<rparr>)"

definition see_logic9 :: "u64 \<Rightarrow> u64 \<Rightarrow> u64 \<Rightarrow> u64 \<Rightarrow> seen_words \<Rightarrow> seen_words" where
  "see_logic9 p0 p1 p2 p3 seen =
     (let np0 = NOT p0; np1 = NOT p1; np2 = NOT p2; np3 = NOT p3;
          upper_zero = np2 AND np3;
          upper_four = p2 AND np3;
          state_u = np0 AND np1 AND upper_zero;
          state_x = p0 AND np1 AND upper_zero;
          state_zero = np0 AND p1 AND upper_zero;
          state_one = p0 AND p1 AND upper_zero;
          state_z = np0 AND np1 AND upper_four;
          state_w = p0 AND np1 AND upper_four;
          state_l = np0 AND p1 AND upper_four;
          state_h = p0 AND p1 AND upper_four;
          state_dont_care = np0 AND np1 AND np2 AND p3;
          valid = state_u OR state_x OR state_zero OR state_one OR state_z OR state_w OR state_l OR state_h
                  OR state_dont_care
      in seen\<lparr>u_seen := u_seen seen OR state_u,
              x_seen := x_seen seen OR (state_x OR state_dont_care OR NOT valid),
              zero_seen := zero_seen seen OR state_zero,
              one_seen := one_seen seen OR state_one,
              w_seen := w_seen seen OR state_w,
              l_seen := l_seen seen OR state_l,
              h_seen := h_seen seen OR state_h\<rparr>)"

definition resolved_planes :: "seen_words \<Rightarrow> u64 list" where
  "resolved_planes seen =
     (let strong_conflict = zero_seen seen AND one_seen seen;
          state_u = u_seen seen;
          state_x = NOT state_u AND (x_seen seen OR strong_conflict);
          strong_domain = NOT (state_u OR state_x);
          state_zero = strong_domain AND zero_seen seen AND NOT (one_seen seen);
          state_one = strong_domain AND one_seen seen AND NOT (zero_seen seen);
          weak_domain = strong_domain AND NOT (zero_seen seen) AND NOT (one_seen seen);
          state_w = weak_domain AND (w_seen seen OR (l_seen seen AND h_seen seen));
          state_l = weak_domain AND NOT state_w AND l_seen seen AND NOT (h_seen seen);
          state_h = weak_domain AND NOT state_w AND h_seen seen AND NOT (l_seen seen);
          state_z = weak_domain AND NOT (state_w OR state_l OR state_h)
      in [state_x OR state_one OR state_w OR state_h,
          state_zero OR state_one OR state_l OR state_h,
          state_z OR state_w OR state_l OR state_h,
          0])"

definition resolve_logic4_words :: "packed_logic4 list \<Rightarrow> nat \<Rightarrow> packed_logic4 result" where
  "resolve_logic4_words drivers width =
     (let words = (width + 64 - 1) div 64
      in bind_result
           (for_result 0 (length drivers) (\<lambda>d seen.
              let driver = drivers ! d
              in if width4 driver \<noteq> width then Inl Invalid_argument
                 else Inr (for_range 0 words (\<lambda>word seen.
                        seen[word := see_logic4 (aval_words driver ! word) (bval_words driver ! word) (seen ! word)]) seen))
              (replicate words no_seen))
           (\<lambda>seen.
              let driven = (\<lambda>word. zero_seen (seen ! word) OR one_seen (seen ! word) OR x_seen (seen ! word))
              in from_word_planes width
                   (map (\<lambda>word. one_seen (seen ! word) OR x_seen (seen ! word)) [0..<words])
                   (map (\<lambda>word. x_seen (seen ! word) OR (zero_seen (seen ! word) AND one_seen (seen ! word))
                                 OR NOT (driven word)) [0..<words])))"

definition resolve_logic9_word :: "packed_logic4 list \<Rightarrow> nat \<Rightarrow> packed_logic4 result" where
  "resolve_logic9_word drivers width =
     bind_result
       (for_result 0 (length drivers) (\<lambda>d seen.
          let driver = drivers ! d
          in if width4 driver \<noteq> width then Inl Invalid_argument
             else
               let p0 = hd (aval_words driver); p1 = hd (bval_words driver)
               in if \<not> is_logic9 driver then Inr (see_logic4 p0 p1 seen)
                  else Inr (see_logic9 p0 p1 (hd (logic9_plane_words driver 2)) (hd (logic9_plane_words driver 3)) seen))
          no_seen)
       (\<lambda>seen. from_logic9_word \<lparr>w9_width = width, w9_planes = resolved_planes seen\<rparr>)"

definition resolve_logic9_words :: "packed_logic4 list \<Rightarrow> nat \<Rightarrow> packed_logic4 result" where
  "resolve_logic9_words drivers width =
     (let words = (width + 64 - 1) div 64
      in bind_result
           (for_result 0 (length drivers) (\<lambda>d seen.
              let driver = drivers ! d
              in if width4 driver \<noteq> width then Inl Invalid_argument
                 else Inr (for_range 0 words (\<lambda>word seen.
                        let p0 = aval_words driver ! word; p1 = bval_words driver ! word
                        in seen[word := if \<not> is_logic9 driver then see_logic4 p0 p1 (seen ! word)
                             else see_logic9 p0 p1 (logic9_plane_words driver 2 ! word)
                                    (logic9_plane_words driver 3 ! word) (seen ! word)]) seen))
              (replicate words no_seen))
           (\<lambda>seen. from_logic9_word_planes width
              (map (\<lambda>word. resolved_planes (seen ! word) ! 0) [0..<words])
              (map (\<lambda>word. resolved_planes (seen ! word) ! 1) [0..<words])
              (map (\<lambda>word. resolved_planes (seen ! word) ! 2) [0..<words])
              (map (\<lambda>word. resolved_planes (seen ! word) ! 3) [0..<words])))"

definition resolve_packed :: "packed_logic4 list \<Rightarrow> packed_logic4 result" where
  "resolve_packed drivers =
     (if drivers = [] then PackedLogic4 0 X4
      else if length drivers = 1 then Inr (hd drivers)
      else
        let width = width4 (hd drivers);
            logic9 = list_ex is_logic9 drivers
        in if \<not> logic9
           then (if width = 0 then PackedLogic4 0 X4 else resolve_logic4_words drivers width)
           else if width = 0 then PackedLogic4 0 X4
           else if width \<le> 64 then resolve_logic9_word drivers width
           else resolve_logic9_words drivers width)"

subsection \<open>What the recorded words say\<close>

text \<open>Bit \<open>i\<close> of the recorded words describes the set \<open>S\<close> of driver values at that element.\<close>

definition seen_at :: "seen_words \<Rightarrow> nat \<Rightarrow> logic9 set \<Rightarrow> bool" where
  "seen_at seen i S \<longleftrightarrow>
     bit (u_seen seen) i = (U9 \<in> S) \<and> bit (x_seen seen) i = (X9 \<in> S \<or> DontCare9 \<in> S) \<and>
     bit (zero_seen seen) i = (Zero9 \<in> S) \<and> bit (one_seen seen) i = (One9 \<in> S) \<and>
     bit (w_seen seen) i = (W9 \<in> S) \<and> bit (l_seen seen) i = (L9 \<in> S) \<and> bit (h_seen seen) i = (H9 \<in> S)"

subsection \<open>Vocabulary of the specification\<close>

text \<open>What one driver contributes to word \<open>k\<close>.\<close>

definition see_word :: "packed_logic4 \<Rightarrow> nat \<Rightarrow> seen_words \<Rightarrow> seen_words" where
  "see_word d k seen =
     (if \<not> is_logic9 d then see_logic4 (aval_words d ! k) (bval_words d ! k) seen
      else see_logic9 (aval_words d ! k) (bval_words d ! k) (logic9_plane_words d 2 ! k) (logic9_plane_words d 3 ! k) seen)"

primrec accumulate :: "resolution_accumulator \<Rightarrow> logic4_word list \<Rightarrow> resolution_accumulator result" where
  "accumulate acc [] = Inr acc"
| "accumulate acc (d # ds) = bind_result (accumulator_add acc d) (\<lambda>acc. accumulate acc ds)"

text \<open>Bit \<open>i\<close> of the accumulator describes the set of driver values at that element.\<close>

definition acc_at :: "resolution_accumulator \<Rightarrow> nat \<Rightarrow> logic4 set \<Rightarrow> bool" where
  "acc_at acc i S \<longleftrightarrow> bit (acc_zero_seen acc) i = (Zero4 \<in> S) \<and> bit (acc_one_seen acc) i = (One4 \<in> S) \<and>
     bit (acc_unknown_seen acc) i = (X4 \<in> S)"

definition acc_ok :: "nat \<Rightarrow> resolution_accumulator \<Rightarrow> bool" where
  "acc_ok w acc \<longleftrightarrow> acc_width acc = w \<and> acc_width_mask acc = final_word_mask w"

lemma seen_at_none [simp]: "seen_at no_seen i {}"
  by (simp add: seen_at_def no_seen_def)

lemma seen_at_logic4:
  assumes "seen_at seen i S" "i < 64"
  shows "seen_at (see_logic4 p0 p1 seen) i (insert (to_logic9 (logic4_of_bits (bit p0 i) (bit p1 i))) S)"
  using assms
  by (cases "bit p0 i"; cases "bit p1 i")
     (auto simp: seen_at_def see_logic4_def Let_def logic4_of_bits_def bit_u64_simps)

lemma seen_at_logic9:
  assumes "seen_at seen i S" "i < 64" "bit p0 i = encoded_bit e 0" "bit p1 i = encoded_bit e 1"
    "bit p2 i = encoded_bit e 2" "bit p3 i = encoded_bit e 3"
  shows "seen_at (see_logic9 p0 p1 p2 p3 seen) i (insert e S)"
  using assms
  by (cases e) (simp_all add: seen_at_def see_logic9_def Let_def encoded_bit_simps bit_u64_simps)

lemma resolved_planes_bit:
  assumes "seen_at seen i S" "i < 64" "p < 4"
  shows "bit (resolved_planes seen ! p) i = encoded_bit (resolution9 S) p"
  using lt4_cases [OF assms(3)] assms(1,2)
  by (elim disjE) (auto simp: seen_at_def resolved_planes_def Let_def resolution9_def encoded_bit_simps bit_u64_simps)

lemma resolved_planes_length [simp]: "length (resolved_planes seen) = 4"
  by (simp add: resolved_planes_def Let_def)

text \<open>The driver loops: every driver has the width, or the first that differs throws.\<close>

lemma driver_loop:
  assumes "\<And>d t. d < length ds \<Longrightarrow> width4 (ds ! d) = w \<Longrightarrow> body d t = Inr (g (ds ! d) t)"
    and "\<And>d t. d < length ds \<Longrightarrow> width4 (ds ! d) \<noteq> w \<Longrightarrow> body d t = Inl Invalid_argument"
  shows "for_result 0 (length ds) body s =
    (if \<forall>d\<in>set ds. width4 d = w then Inr (fold g ds s) else Inl Invalid_argument)"
proof -
  have "for_result 0 (length ds) body s = for_result 0 (length ds)
      (\<lambda>d t. case if width4 (ds ! d) = w then Some () else None of None \<Rightarrow> Inl Invalid_argument | Some _ \<Rightarrow> Inr (g (ds ! d) t)) s"
    unfolding for_result_def by (rule for_range_cong) (use assms in \<open>auto simp: bind_result_def split: sum.split\<close>)
  also have "\<dots> = (if \<forall>d\<in>{0..<length ds}. (if width4 (ds ! d) = w then Some () else None) \<noteq> None
      then Inr (for_range 0 (length ds) (\<lambda>d. g (ds ! d)) s) else Inl Invalid_argument)"
    unfolding for_result_option ..
  also have "for_range 0 (length ds) (\<lambda>d. g (ds ! d)) s = fold g (map ((!) ds) [0..<length ds]) s"
    unfolding for_range_def fold_map comp_def ..
  also have "map ((!) ds) [0..<length ds] = ds" by (rule map_nth)
  also have "(\<forall>d\<in>{0..<length ds}. (if width4 (ds ! d) = w then Some () else None) \<noteq> None) \<longleftrightarrow> (\<forall>d\<in>set ds. width4 d = w)"
    unfolding all_set_conv_all_nth by auto
  finally show ?thesis .
qed

lemma seen_at_word:
  assumes "logic4_ok d" "i < width4 d" "seen_at seen (i mod 64) S"
  shows "seen_at (see_word d (i div 64) seen) (i mod 64) (insert (elem9 d i) S)"
proof (cases "is_logic9 d")
  case False
  with seen_at_logic4 [OF assms(3), of "aval_words d ! (i div 64)" "bval_words d ! (i div 64)"] show ?thesis
    by (simp add: see_word_def elem9_logic4 elem4_eq read_bit_eq_bit)
next
  case True
  have w: "0 < width4 d" using assms(2) by simp
  have "read_bit (logic9_plane d p) i = encoded_bit (elem9 d i) p" if "p < 4" for p
    using read_plane9 [OF assms(1) True assms(2) that] .
  from this [of 0] this [of 1] this [of 2] this [of 3]
  show ?thesis
    using True by (simp add: see_word_def logic9_plane_words_def logic9_plane_simps [OF w] read_bit_eq_bit seen_at_logic9 [OF assms(3)])
qed

lemma seen_at_fold:
  assumes "\<forall>d\<in>set ds. logic4_ok d \<and> width4 d = w" "i < w" "seen_at seen (i mod 64) S"
  shows "seen_at (fold (\<lambda>d. see_word d (i div 64)) ds seen) (i mod 64) ((\<lambda>d. elem9 d i) ` set ds \<union> S)"
  using assms
proof (induction ds arbitrary: seen S)
  case Nil
  then show ?case by simp
next
  case (Cons d ds)
  have "seen_at (see_word d (i div 64) seen) (i mod 64) (insert (elem9 d i) S)"
    using seen_at_word [of d i seen S] Cons.prems by simp
  with Cons.IH [of "see_word d (i div 64) seen" "insert (elem9 d i) S"] Cons.prems show ?case by simp
qed

lemma word_loop:
  "length seen = n \<Longrightarrow> for_range 0 n (\<lambda>k seen. seen[k := f k (seen ! k)]) seen = map (\<lambda>k. f k (seen ! k)) [0..<n]"
proof -
  assume l: "length seen = n"
  define P where "P m t \<longleftrightarrow> length t = n \<and> (\<forall>k<n. t ! k = (if k < m then f k (seen ! k) else seen ! k))" for m t
  have "P n (for_range 0 n (\<lambda>k seen. seen[k := f k (seen ! k)]) seen)"
    by (rule for_range_invariant) (auto simp: P_def l nth_list_update less_Suc_eq)
  then show ?thesis by (intro nth_equalityI) (simp_all add: P_def)
qed

lemma fold_word_loop:
  assumes "length seen = n"
  shows "length (fold (\<lambda>d seen. for_range 0 n (\<lambda>k seen. seen[k := f d k (seen ! k)]) seen) ds seen) = n \<and>
    (\<forall>k<n. fold (\<lambda>d seen. for_range 0 n (\<lambda>k seen. seen[k := f d k (seen ! k)]) seen) ds seen ! k = fold (\<lambda>d. f d k) ds (seen ! k))"
  using assms
proof (induction ds arbitrary: seen)
  case Nil
  then show ?case by simp
next
  case (Cons d ds)
  have "for_range 0 n (\<lambda>k seen. seen[k := f d k (seen ! k)]) seen = map (\<lambda>k. f d k (seen ! k)) [0..<n]"
    using word_loop [OF Cons.prems, of "f d"] .
  with Cons.IH [of "map (\<lambda>k. f d k (seen ! k)) [0..<n]"] show ?case by simp
qed

lemma fold_cong_set: "(\<And>d t. d \<in> set ds \<Longrightarrow> f d t = g d t) \<Longrightarrow> fold f ds s = fold g ds s"
  by (rule fold_cong) auto

lemma seen_words_loop:
  assumes "\<forall>d\<in>set ds. logic4_ok d \<and> width4 d = w" "\<And>d k seen. d \<in> set ds \<Longrightarrow> f d k seen = see_word d k seen"
    and seen: "seen = fold (\<lambda>d seen. for_range 0 (words_for w) (\<lambda>k seen. seen[k := f d k (seen ! k)]) seen) ds (replicate (words_for w) no_seen)"
  shows "length seen = words_for w \<and>
    (\<forall>i<w. seen_at (seen ! (i div 64)) (i mod 64) ((\<lambda>d. elem9 d i) ` set ds))"
proof (intro conjI allI impI)
  note loop = fold_word_loop [of "replicate (words_for w) no_seen" "words_for w" f ds, folded seen]
  show "length seen = words_for w" using loop by simp
  fix i assume i: "i < w"
  have "seen ! (i div 64) = fold (\<lambda>d. f d (i div 64)) ds no_seen" using loop less_words_for [OF i] by simp
  also have "\<dots> = fold (\<lambda>d. see_word d (i div 64)) ds no_seen" by (rule fold_cong_set) (rule assms(2))
  finally show "seen_at (seen ! (i div 64)) (i mod 64) ((\<lambda>d. elem9 d i) ` set ds)"
    using seen_at_fold [OF assms(1) i, of no_seen "{}"] by simp
qed

subsection \<open>The four-state words\<close>

lemma to_logic9_image:
  "X9 \<in> to_logic9 ` S \<longleftrightarrow> X4 \<in> S" "Zero9 \<in> to_logic9 ` S \<longleftrightarrow> Zero4 \<in> S" "One9 \<in> to_logic9 ` S \<longleftrightarrow> One4 \<in> S"
  "U9 \<notin> to_logic9 ` S" "DontCare9 \<notin> to_logic9 ` S" "W9 \<notin> to_logic9 ` S" "L9 \<notin> to_logic9 ` S" "H9 \<notin> to_logic9 ` S"
proof -
  have m: "e \<in> to_logic9 ` S \<longleftrightarrow> (\<exists>a\<in>S. to_logic9 a = e)" for e by blast
  show "X9 \<in> to_logic9 ` S \<longleftrightarrow> X4 \<in> S" "Zero9 \<in> to_logic9 ` S \<longleftrightarrow> Zero4 \<in> S" "One9 \<in> to_logic9 ` S \<longleftrightarrow> One4 \<in> S"
    unfolding m by (metis to_logic4.simps to_logic4_to_logic9 to_logic9.simps)+
  show "U9 \<notin> to_logic9 ` S" "DontCare9 \<notin> to_logic9 ` S" "W9 \<notin> to_logic9 ` S" "L9 \<notin> to_logic9 ` S" "H9 \<notin> to_logic9 ` S"
    unfolding m by (metis logic4.exhaust logic9.distinct to_logic9.simps)+
qed

lemma to_logic9_resolution4: "to_logic9 (resolution4 S) = resolution9 (to_logic9 ` S)"
  by (simp add: resolution4_def resolution9_def to_logic9_image)

lemma resolution4_bits:
  "logic4_of_bits (One4 \<in> S \<or> X4 \<in> S) (X4 \<in> S \<or> Zero4 \<in> S \<and> One4 \<in> S \<or> \<not> (Zero4 \<in> S \<or> One4 \<in> S \<or> X4 \<in> S)) = resolution4 S"
  by (auto simp: logic4_of_bits_def resolution4_def)

lemma resolve_logic4_words_ok:
  assumes "\<forall>d\<in>set ds. logic4_ok d" "\<forall>d\<in>set ds. \<not> is_logic9 d" "0 < w" "w \<le> size_max div 4"
  shows "if \<forall>d\<in>set ds. width4 d = w
    then \<exists>r. resolve_logic4_words ds w = Inr r \<and> logic4_ok r \<and> \<not> is_logic9 r \<and> width4 r = w \<and>
      (\<forall>i<w. elem9 r i = resolution9 ((\<lambda>d. elem9 d i) ` set ds))
    else resolve_logic4_words ds w = Inl Invalid_argument"
proof -
  define n where "n = words_for w"
  define f where "f (d :: packed_logic4) k = see_logic4 (aval_words d ! k) (bval_words d ! k)" for d k
  define seen where "seen = fold (\<lambda>d seen. for_range 0 n (\<lambda>k seen. seen[k := f d k (seen ! k)]) seen) ds (replicate n no_seen)"
  define A where "A = map (\<lambda>k. one_seen (seen ! k) OR x_seen (seen ! k)) [0..<n]"
  define B where "B = map (\<lambda>k. x_seen (seen ! k) OR (zero_seen (seen ! k) AND one_seen (seen ! k))
      OR NOT (zero_seen (seen ! k) OR one_seen (seen ! k) OR x_seen (seen ! k))) [0..<n]"
  have loop: "for_result 0 (length ds) (\<lambda>d seen. let driver = ds ! d
         in if width4 driver \<noteq> w then Inl Invalid_argument else Inr (for_range 0 n (\<lambda>word seen.
           seen[word := see_logic4 (aval_words driver ! word) (bval_words driver ! word) (seen ! word)]) seen)) (replicate n no_seen)
      = (if \<forall>d\<in>set ds. width4 d = w then Inr seen else Inl Invalid_argument)"
    unfolding seen_def by (rule driver_loop) (simp_all add: f_def Let_def)
  have eq: "resolve_logic4_words ds w = (if \<forall>d\<in>set ds. width4 d = w then from_word_planes w A B else Inl Invalid_argument)"
    unfolding resolve_logic4_words_def words_for_def [symmetric] n_def [symmetric] Let_def [of n]
    unfolding loop by (simp add: A_def B_def Let_def)
  show ?thesis
  proof (cases "\<forall>d\<in>set ds. width4 d = w")
    case True
    have bits: "to_logic9 (logic4_of_bits (read_bit A i) (read_bit B i)) = resolution9 ((\<lambda>d. elem9 d i) ` set ds)" if i: "i < w" for i
    proof -
      define S where "S = (\<lambda>d. elem4 d i) ` set ds"
      have e: "(\<lambda>d. elem9 d i) ` set ds = to_logic9 ` S"
        using assms(2) by (auto simp: S_def elem9_logic4 image_iff)
      have "seen_at (seen ! (i div 64)) (i mod 64) (to_logic9 ` S)"
        using seen_words_loop [of ds w f seen] assms(1,2) True i
        unfolding e [symmetric] by (simp add: f_def see_word_def seen_def n_def)
      with less_words_for [OF i] have "read_bit A i \<longleftrightarrow> One4 \<in> S \<or> X4 \<in> S"
        "read_bit B i \<longleftrightarrow> X4 \<in> S \<or> Zero4 \<in> S \<and> One4 \<in> S \<or> \<not> (Zero4 \<in> S \<or> One4 \<in> S \<or> X4 \<in> S)"
        unfolding seen_at_def by (simp_all add: read_bit_eq_bit A_def B_def n_def bit_u64_simps to_logic9_image)
      then have "logic4_of_bits (read_bit A i) (read_bit B i) = resolution4 S" by (simp only: resolution4_bits)
      then show ?thesis unfolding e by (simp add: to_logic9_resolution4)
    qed
    show ?thesis
      using from_word_planes_ok [of w A B] assms(3,4) True eq bits by (auto simp: A_def B_def n_def elem9_logic4)
  next
    case False
    with eq show ?thesis by simp
  qed
qed

subsection \<open>The nine-state words\<close>

lemma decode_resolved:
  assumes "seen_at seen i S" "i < 64"
  shows "logic9_of_code (gather_code (\<lambda>p. bit (resolved_planes seen ! p) i)) = resolution9 S"
proof -
  have "gather_code (\<lambda>p. bit (resolved_planes seen ! p) i) = gather_code (encoded_bit (resolution9 S))"
    by (rule gather_code_cong) (rule resolved_planes_bit [OF assms])
  then show ?thesis by simp
qed

lemma resolve_logic9_words_ok:
  assumes "\<forall>d\<in>set ds. logic4_ok d" "0 < w" "w \<le> size_max div 4"
  shows "if \<forall>d\<in>set ds. width4 d = w
    then \<exists>r. resolve_logic9_words ds w = Inr r \<and> logic4_ok r \<and> is_logic9 r \<and> width4 r = w \<and>
      (\<forall>i<w. elem9 r i = resolution9 ((\<lambda>d. elem9 d i) ` set ds))
    else resolve_logic9_words ds w = Inl Invalid_argument"
proof -
  define n where "n = words_for w"
  define seen where "seen = fold (\<lambda>d seen. for_range 0 n (\<lambda>k seen. seen[k := see_word d k (seen ! k)]) seen) ds (replicate n no_seen)"
  define Q where "Q p = map (\<lambda>k. resolved_planes (seen ! k) ! p) [0..<n]" for p
  have loop: "for_result 0 (length ds) (\<lambda>d seen. let driver = ds ! d
         in if width4 driver \<noteq> w then Inl Invalid_argument else Inr (for_range 0 n (\<lambda>word seen.
            let p0 = aval_words driver ! word; p1 = bval_words driver ! word
            in seen[word := if \<not> is_logic9 driver then see_logic4 p0 p1 (seen ! word)
                 else see_logic9 p0 p1 (logic9_plane_words driver 2 ! word) (logic9_plane_words driver 3 ! word) (seen ! word)]) seen))
         (replicate n no_seen)
      = (if \<forall>d\<in>set ds. width4 d = w then Inr seen else Inl Invalid_argument)"
    unfolding seen_def by (rule driver_loop) (simp_all add: see_word_def Let_def)
  have eq: "resolve_logic9_words ds w = (if \<forall>d\<in>set ds. width4 d = w then from_logic9_word_planes w (Q 0) (Q 1) (Q 2) (Q 3) else Inl Invalid_argument)"
    unfolding resolve_logic9_words_def words_for_def [symmetric] n_def [symmetric] Let_def [of n]
    unfolding loop Q_def by simp
  show ?thesis
  proof (cases "\<forall>d\<in>set ds. width4 d = w")
    case True
    have "logic9_of_code (gather_code (\<lambda>p. read_bit ([Q 0, Q 1, Q 2, Q 3] ! p) i)) = resolution9 ((\<lambda>d. elem9 d i) ` set ds)" if i: "i < w" for i
    proof -
      have s: "seen_at (seen ! (i div 64)) (i mod 64) ((\<lambda>d. elem9 d i) ` set ds)"
        using seen_words_loop [of ds w see_word seen] assms(1) True i by (simp add: seen_def n_def)
      have "gather_code (\<lambda>p. read_bit ([Q 0, Q 1, Q 2, Q 3] ! p) i) = gather_code (\<lambda>p. bit (resolved_planes (seen ! (i div 64)) ! p) (i mod 64))"
        by (rule gather_code_cong) (use less_words_for [OF i] in \<open>auto dest!: lt4_cases simp: Q_def n_def read_bit_eq_bit\<close>)
      then show ?thesis using decode_resolved [OF s] by simp
    qed
    with from_logic9_word_planes_ok [of w "Q 0" "Q 1" "Q 2" "Q 3"] assms(2,3) True eq show ?thesis
      by (auto simp: Q_def n_def)
  next
    case False
    with eq show ?thesis by simp
  qed
qed

lemma resolve_logic9_word_ok:
  assumes "\<forall>d\<in>set ds. logic4_ok d" "0 < w" "w \<le> 64"
  shows "if \<forall>d\<in>set ds. width4 d = w
    then \<exists>r. resolve_logic9_word ds w = Inr r \<and> logic4_ok r \<and> is_logic9 r \<and> width4 r = w \<and>
      (\<forall>i<w. elem9 r i = resolution9 ((\<lambda>d. elem9 d i) ` set ds))
    else resolve_logic9_word ds w = Inl Invalid_argument"
proof -
  define seen where "seen = fold (\<lambda>d. see_word d 0) ds no_seen"
  define W where "W = \<lparr>w9_width = w, w9_planes = resolved_planes seen\<rparr>"
  have single: "hd (aval_words d) = aval_words d ! 0 \<and> hd (bval_words d) = bval_words d ! 0 \<and>
      (is_logic9 d \<longrightarrow> hd (logic9_plane_words d 2) = logic9_plane_words d 2 ! 0 \<and> hd (logic9_plane_words d 3) = logic9_plane_words d 3 ! 0)"
    if "d \<in> set ds" "width4 d = w" for d
    using assms that by (auto simp: logic4_ok_def plane_ok_def logic9_plane_words_def logic9_plane_simps intro!: hd_conv_nth split: if_splits)
  have loop: "for_result 0 (length ds) (\<lambda>d seen. let driver = ds ! d
          in if width4 driver \<noteq> w then Inl Invalid_argument
             else let p0 = hd (aval_words driver); p1 = hd (bval_words driver)
               in if \<not> is_logic9 driver then Inr (see_logic4 p0 p1 seen)
                  else Inr (see_logic9 p0 p1 (hd (logic9_plane_words driver 2)) (hd (logic9_plane_words driver 3)) seen)) no_seen
      = (if \<forall>d\<in>set ds. width4 d = w then Inr seen else Inl Invalid_argument)"
    unfolding seen_def by (rule driver_loop) (auto simp: see_word_def Let_def single)
  have eq: "resolve_logic9_word ds w = (if \<forall>d\<in>set ds. width4 d = w then from_logic9_word W else Inl Invalid_argument)"
    unfolding resolve_logic9_word_def loop W_def by simp
  show ?thesis
  proof (cases "\<forall>d\<in>set ds. width4 d = w")
    case True
    have "word9_elem W i = resolution9 ((\<lambda>d. elem9 d i) ` set ds)" if i: "i < w" for i
    proof -
      have "seen_at seen i ((\<lambda>d. elem9 d i) ` set ds)"
        using seen_at_fold [of ds w i no_seen "{}"] assms True i by (simp add: seen_def)
      then show ?thesis using decode_resolved [of seen i] assms i by (simp add: word9_elem_def W_def)
    qed
    with from_logic9_word_ok [of W] assms True eq show ?thesis by (auto simp: W_def)
  next
    case False
    with eq show ?thesis by simp
  qed
qed

subsection \<open>The word accumulator against scalar resolution\<close>

lemma accumulator_add_ok:
  assumes "acc_ok w acc" "0 < w" "w \<le> 64" "w4_width d = w"
  shows "\<exists>acc'. accumulator_add acc d = Inr acc' \<and> acc_ok w acc' \<and>
    (\<forall>i<w. \<forall>S. acc_at acc i S \<longrightarrow> acc_at acc' i (insert (word_elem d i) S))"
  using assms
  by (auto simp: accumulator_add_def acc_ok_def acc_at_def Let_def word_elem_def logic4_of_bits_def bit_u64_simps)

lemma accumulate_ok:
  assumes "acc_ok w acc" "0 < w" "w \<le> 64" "\<forall>d\<in>set ds. w4_width d = w"
  shows "\<exists>acc'. accumulate acc ds = Inr acc' \<and> acc_ok w acc' \<and>
    (\<forall>i<w. \<forall>S. acc_at acc i S \<longrightarrow> acc_at acc' i ((\<lambda>d. word_elem d i) ` set ds \<union> S))"
  using assms
proof (induction ds arbitrary: acc)
  case Nil
  then show ?case by simp
next
  case (Cons d ds)
  then obtain a where a: "accumulator_add acc d = Inr a" "acc_ok w a"
      "\<forall>i<w. \<forall>S. acc_at acc i S \<longrightarrow> acc_at a i (insert (word_elem d i) S)"
    using accumulator_add_ok [of w acc d] by auto
  obtain b where b: "accumulate a ds = Inr b" "acc_ok w b"
      "\<forall>i<w. \<forall>S. acc_at a i S \<longrightarrow> acc_at b i ((\<lambda>d. word_elem d i) ` set ds \<union> S)"
    using Cons.IH [of a] Cons.prems a(2) by auto
  have "acc_at b i ((\<lambda>d. word_elem d i) ` set (d # ds) \<union> S)" if "i < w" "acc_at acc i S" for i S
  proof -
    have "acc_at b i ((\<lambda>d. word_elem d i) ` set ds \<union> insert (word_elem d i) S)" using a(3) b(3) that by blast
    then show ?thesis by simp
  qed
  with a b show ?case by simp
qed

lemma accumulator_result_ok:
  assumes "acc_ok w acc" "0 < w" "w \<le> 64" "i < w" "acc_at acc i S"
  shows "word_elem (accumulator_result acc) i = resolution4 S"
proof -
  have "bit (w4_aval (accumulator_result acc)) i \<longleftrightarrow> One4 \<in> S \<or> X4 \<in> S"
    "bit (w4_bval (accumulator_result acc)) i \<longleftrightarrow> X4 \<in> S \<or> Zero4 \<in> S \<and> One4 \<in> S \<or> \<not> (Zero4 \<in> S \<or> One4 \<in> S \<or> X4 \<in> S)"
    using assms by (auto simp: acc_ok_def acc_at_def accumulator_result_def Let_def bit_u64_simps)
  then show ?thesis unfolding word_elem_def by (simp only: resolution4_bits)
qed

lemma accumulator_result_range:
  assumes "acc_ok w acc" "0 < w" "w \<le> 64"
  shows "w4_width (accumulator_result acc) = w" "bit (w4_aval (accumulator_result acc)) i \<Longrightarrow> i < w"
    "bit (w4_bval (accumulator_result acc)) i \<Longrightarrow> i < w"
  using assms by (auto simp: acc_ok_def accumulator_result_def Let_def bit_u64_simps)

lemma logic4_word_eqI:
  assumes "w4_width v = w4_width u" "w4_width v \<le> 64"
    "\<And>i. bit (w4_aval v) i \<Longrightarrow> i < w4_width v" "\<And>i. bit (w4_bval v) i \<Longrightarrow> i < w4_width v"
    "\<And>i. bit (w4_aval u) i \<Longrightarrow> i < w4_width u" "\<And>i. bit (w4_bval u) i \<Longrightarrow> i < w4_width u"
    "\<And>i. i < w4_width v \<Longrightarrow> word_elem v i = word_elem u i"
  shows "(v :: logic4_word) = u"
proof -
  have inj: "bit (w4_aval v) i = bit (w4_aval u) i \<and> bit (w4_bval v) i = bit (w4_bval u) i" if "i < w4_width v" for i
    using assms(7) [OF that] by (simp add: word_elem_def logic4_of_bits_def split: if_splits)
  have "bit (w4_aval v) i = bit (w4_aval u) i" "bit (w4_bval v) i = bit (w4_bval u) i" for i
    using inj [of i] assms(1,3-6) by metis+
  then have "w4_aval v = w4_aval u" "w4_bval v = w4_bval u" by (auto intro: bit_eqI)
  with assms(1) show ?thesis by simp
qed

lemma accumulate_drivers:
  assumes "0 < w" "w \<le> 64" "\<forall>d\<in>set ds. w4_width d = w"
  obtains acc acc' where "Logic4ResolutionAccumulator w = Inr acc" "accumulate acc ds = Inr acc'" "acc_ok w acc'"
    "\<And>i. i < w \<Longrightarrow> word_elem (accumulator_result acc') i = resolution4 ((\<lambda>d. word_elem d i) ` set ds)"
proof -
  obtain acc where acc: "Logic4ResolutionAccumulator w = Inr acc" "acc_ok w acc" "\<And>i. acc_at acc i {}"
    using assms by (auto simp: Logic4ResolutionAccumulator_def acc_ok_def acc_at_def)
  with accumulate_ok [OF acc(2) assms] obtain acc' where acc': "accumulate acc ds = Inr acc'" "acc_ok w acc'"
      "\<forall>i<w. \<forall>S. acc_at acc i S \<longrightarrow> acc_at acc' i ((\<lambda>d. word_elem d i) ` set ds \<union> S)" by blast
  have "acc_at acc' i ((\<lambda>d. word_elem d i) ` set ds)" if "i < w" for i
    using acc'(3) acc(3) that by (metis sup_bot_right)
  with that [OF acc(1) acc'(1,2)] accumulator_result_ok [OF acc'(2) assms(1,2)] show ?thesis by blast
qed

subsection \<open>The force overlay\<close>

lemma apply_force_word_ok:
  assumes "0 < w4_width driven" "w4_width driven \<le> 64" "w4_width forced = w4_width driven"
  shows "\<exists>r. apply_force_word driven forced m = Inr r \<and> w4_width r = w4_width driven \<and>
    (\<forall>i<w4_width driven. word_elem r i = (if bit m i then word_elem forced i else word_elem driven i)) \<and>
    (\<forall>i. bit (w4_aval r) i \<longrightarrow> i < w4_width driven) \<and> (\<forall>i. bit (w4_bval r) i \<longrightarrow> i < w4_width driven)"
  using assms by (auto simp: apply_force_word_def Let_def word_elem_def bit_u64_simps)

subsection \<open>Resolution of packed values\<close>

lemma unchecked_low_word_ok:
  assumes "logic4_ok v" "\<not> is_logic9 v" "0 < width4 v" "width4 v \<le> 64"
  shows "low_word v = Inr (unchecked_low_word v)" "w4_width (unchecked_low_word v) = width4 v"
    "\<And>i. i < width4 v \<Longrightarrow> word_elem (unchecked_low_word v) i = elem4 v i"
    "\<And>i. bit (w4_aval (unchecked_low_word v)) i \<Longrightarrow> i < width4 v"
    "\<And>i. bit (w4_bval (unchecked_low_word v)) i \<Longrightarrow> i < width4 v"
  by (rule low_word_ok [OF assms], simp)+

lemma resolve_packed_ok:
  assumes "\<forall>d\<in>set ds. logic4_ok d" "length ds \<noteq> 1" "ds \<noteq> []" "0 < width4 (hd ds)"
  shows "if \<forall>d\<in>set ds. width4 d = width4 (hd ds)
    then \<exists>r. resolve_packed ds = Inr r \<and> logic4_ok r \<and> is_logic9 r = list_ex is_logic9 ds \<and> width4 r = width4 (hd ds) \<and>
      (\<forall>i<width4 (hd ds). elem9 r i = resolution9 ((\<lambda>d. elem9 d i) ` set ds))
    else resolve_packed ds = Inl Invalid_argument"
proof -
  have m: "width4 (hd ds) \<le> size_max div 4" using assms(1,3) by (simp add: logic4_ok_def)
  consider (four) "\<not> list_ex is_logic9 ds" | (word) "list_ex is_logic9 ds" "width4 (hd ds) \<le> 64"
    | (words) "list_ex is_logic9 ds" "\<not> width4 (hd ds) \<le> 64" by blast
  then show ?thesis
  proof cases
    case four
    then have "resolve_packed ds = resolve_logic4_words ds (width4 (hd ds))" "\<forall>d\<in>set ds. \<not> is_logic9 d"
      using assms by (simp_all add: resolve_packed_def list_ex_iff)
    with four resolve_logic4_words_ok [OF assms(1) _ assms(4) m] show ?thesis by simp
  next
    case word
    then have "resolve_packed ds = resolve_logic9_word ds (width4 (hd ds))"
      using assms by (simp add: resolve_packed_def)
    with word resolve_logic9_word_ok [OF assms(1,4) word(2)] show ?thesis by simp
  next
    case words
    then have "resolve_packed ds = resolve_logic9_words ds (width4 (hd ds))"
      using assms by (simp add: resolve_packed_def)
    with words resolve_logic9_words_ok [OF assms(1,4) m] show ?thesis by simp
  qed
qed

subsection \<open>Properties\<close>

text \<open>
  C3: Resolving two or more packed drivers of one width gives, in every element, the scalar
  resolution of the drivers' elements, for four-state, nine-state and mixed drivers and on the
  one-word and the many-word path alike; the result is well-formed and nine-state exactly when
  some driver is, and unequal widths are refused.
\<close>

theorem resolve_packed_spec:
  assumes "\<forall>d\<in>set ds. logic4_ok d" "2 \<le> length ds" "0 < width4 (hd ds)"
  shows "if \<forall>d\<in>set ds. width4 d = width4 (hd ds)
    then \<exists>r. resolve_packed ds = Inr r \<and> logic4_ok r \<and> is_logic9 r = (\<exists>d\<in>set ds. is_logic9 d) \<and> width4 r = width4 (hd ds) \<and>
      (\<forall>i<width4 r. elem9 r i = resolve9_drivers (map (\<lambda>d. elem9 d i) ds))
    else resolve_packed ds = Inl Invalid_argument"
proof -
  have ds: "length ds \<noteq> 1" "ds \<noteq> []" using assms(2) by auto
  have drivers: "resolve9_drivers (map (\<lambda>d. elem9 d i) ds) = resolution9 ((\<lambda>d. elem9 d i) ` set ds)" for i
    unfolding resolve9_drivers_def using ds(1) by (simp add: fold_resolve9)
  show ?thesis
  proof (cases "\<forall>d\<in>set ds. width4 d = width4 (hd ds)")
    case True
    then obtain r where r: "resolve_packed ds = Inr r" "logic4_ok r" "is_logic9 r = list_ex is_logic9 ds"
        "width4 r = width4 (hd ds)" "\<forall>i<width4 (hd ds). elem9 r i = resolution9 ((\<lambda>d. elem9 d i) ` set ds)"
      using resolve_packed_ok [OF assms(1) ds assms(3)] unfolding if_P [OF True] by blast
    show ?thesis
      unfolding if_P [OF True] drivers by (rule exI [of _ r]) (use r in \<open>simp add: list_ex_iff\<close>)
  next
    case False
    show ?thesis
      using resolve_packed_ok [OF assms(1) ds assms(3)] unfolding if_not_P [OF False] .
  qed
qed

theorem resolve_packed_spec_witness:
  "\<exists>v u r. from_logic9_msb_string ''0L'' = Inr v \<and> from_msb_string ''z1'' = Inr u \<and>
     resolve_packed [v, u] = Inr r \<and> elem9 r 0 = One9 \<and> elem9 r 1 = Zero9"
proof -
  obtain v where v: "from_logic9_msb_string ''0L'' = Inr v" "logic4_ok v" "width4 v = 2" "elem9 v 0 = L9" "elem9 v 1 = Zero9"
    using from_logic9_msb_string_cases [of "''0L''"] by (auto simp: size_max_def parse_logic9_def)
  obtain u where u: "from_msb_string ''z1'' = Inr u" "logic4_ok u" "width4 u = 2" "elem9 u 0 = One9" "elem9 u 1 = Z9"
    using from_msb_string_cases [of "''z1''"] by (auto simp: size_max_def parse_logic4_def elem9_logic4)
  from resolve_packed_spec [of "[v, u]"] v u show ?thesis
    by (auto simp: resolve9_drivers_def)
qed

text \<open>
  C32: The allocation-free accumulator computes the same word as the packed resolution: adding the
  low words of four-state drivers of one width up to 64 never throws, and its result is the low
  word of what \<^verbatim>\<open>resolve\<close> returns for two or more drivers, which in every element is the scalar
  resolution.
\<close>

theorem accumulator_resolution:
  assumes "0 < w" "w \<le> 64" "2 \<le> length ds" "\<forall>d\<in>set ds. logic4_ok d \<and> \<not> is_logic9 d \<and> width4 d = w"
  shows "\<exists>acc acc' r. Logic4ResolutionAccumulator w = Inr acc \<and> accumulate acc (map unchecked_low_word ds) = Inr acc' \<and>
    resolve_packed ds = Inr r \<and> low_word r = Inr (accumulator_result acc') \<and>
    (\<forall>i<w. word_elem (accumulator_result acc') i = resolve4_drivers (map (\<lambda>d. elem4 d i) ds))"
proof -
  have d: "logic4_ok d" "\<not> is_logic9 d" "0 < width4 d" "width4 d \<le> 64" "width4 d = w" if "d \<in> set ds" for d
    using assms that by auto
  have word: "w4_width (unchecked_low_word d) = w" "i < w \<Longrightarrow> word_elem (unchecked_low_word d) i = elem4 d i"
    if "d \<in> set ds" for d i
    using unchecked_low_word_ok(2,3) [OF d(1-4) [OF that]] d(5) [OF that] by auto
  have width: "\<forall>d\<in>set (map unchecked_low_word ds). w4_width d = w" using word(1) by simp
  obtain acc acc' where acc: "Logic4ResolutionAccumulator w = Inr acc"
      "accumulate acc (map unchecked_low_word ds) = Inr acc'" "acc_ok w acc'"
      "\<And>i. i < w \<Longrightarrow> word_elem (accumulator_result acc') i = resolution4 ((\<lambda>d. word_elem d i) ` set (map unchecked_low_word ds))"
    by (rule accumulate_drivers [OF assms(1,2) width]) (rule that, assumption+)
  have elem: "word_elem (accumulator_result acc') i = resolution4 ((\<lambda>d. elem4 d i) ` set ds)" if "i < w" for i
  proof -
    have "(\<lambda>d. word_elem d i) ` set (map unchecked_low_word ds) = (\<lambda>d. elem4 d i) ` set ds"
      using word(2) that by (simp add: image_image cong: image_cong)
    with acc(4) [OF that] show ?thesis by (simp only:)
  qed
  have hd: "length ds \<noteq> 1" "ds \<noteq> []" using assms(3) by auto
  then have w: "width4 (hd ds) = w" "0 < width4 (hd ds)" using assms by auto
  have four: "list_ex is_logic9 ds = False" using assms(4) by (auto simp: list_ex_iff)
  have all: "\<forall>d\<in>set ds. width4 d = width4 (hd ds)" "\<forall>d\<in>set ds. logic4_ok d" using assms(4) w by auto
  obtain r where r: "resolve_packed ds = Inr r" "logic4_ok r" "\<not> is_logic9 r" "width4 r = w"
      "\<forall>i<w. elem9 r i = resolution9 ((\<lambda>d. elem9 d i) ` set ds)"
    using resolve_packed_ok [OF all(2) hd w(2)] unfolding if_P [OF all(1)] unfolding four w(1) by blast
  have "(\<lambda>d. elem9 d i) ` set ds = to_logic9 ` (\<lambda>d. elem4 d i) ` set ds" for i
    using assms(4) by (auto simp: elem9_logic4 image_iff)
  then have e4: "elem4 r i = resolution4 ((\<lambda>d. elem4 d i) ` set ds)" if "i < w" for i
    using r(3,5) that by (metis elem9_logic4 to_logic9_resolution4 to_logic4_to_logic9)
  have rw: "0 < width4 r" "width4 r \<le> 64" using r(4) assms(1,2) by auto
  note low = unchecked_low_word_ok [OF r(2,3) rw, unfolded r(4)]
  have "unchecked_low_word r = accumulator_result acc'"
    by (rule logic4_word_eqI)
       (simp_all add: low accumulator_result_range [OF acc(3) assms(1,2)] elem e4 assms(2))
  with acc(1,2) r(1) low(1) elem show ?thesis
    by (simp add: resolve4_drivers_def fold_resolve4)
qed

theorem accumulator_resolution_witness:
  "\<exists>v u acc acc' r. from_msb_string ''0z1x'' = Inr v \<and> from_msb_string ''1z10'' = Inr u \<and>
     Logic4ResolutionAccumulator 4 = Inr acc \<and> accumulate acc [unchecked_low_word v, unchecked_low_word u] = Inr acc' \<and>
     resolve_packed [v, u] = Inr r \<and> low_word r = Inr (accumulator_result acc')"
proof -
  obtain v where v: "from_msb_string ''0z1x'' = Inr v" "logic4_ok v" "\<not> is_logic9 v" "width4 v = 4"
    using from_msb_string_cases [of "''0z1x''"] by (auto simp: size_max_def parse_logic4_def)
  obtain u where u: "from_msb_string ''1z10'' = Inr u" "logic4_ok u" "\<not> is_logic9 u" "width4 u = 4"
    using from_msb_string_cases [of "''1z10''"] by (auto simp: size_max_def parse_logic4_def)
  from accumulator_resolution [of 4 "[v, u]"] v u show ?thesis by auto
qed

end
