(* ===== verification/Value_Views.thy ===== *)
theory Value_Views
  imports Packed_Resolve
begin

text \<open>
  How the operator theories read packed values: the constructor of \<^verbatim>\<open>PackedLogic4\<close> for a
  width that is already known to be representable, and the views through which results are
  specified.  A result is described by its kind, its width and its elements as a function of the
  index, which determines it; a known value is described by an integer.
\<close>

text \<open>
  The constructor after its width checks.  The operators construct values whose width is that of an
  existing value, or a small constant, so that the checks pass.
\<close>

definition make_packed :: "nat \<Rightarrow> logic4 \<Rightarrow> packed_logic4" where
  "make_packed width initial =
     fill4 \<lparr>width4 = width, is_logic9 = False, aval_words = replicate (words_for width) 0,
            bval_words = replicate (words_for width) 0, plane2_words = [], plane3_words = []\<rparr> initial"

definition is_vec4 :: "packed_logic4 \<Rightarrow> nat \<Rightarrow> (nat \<Rightarrow> logic4) \<Rightarrow> bool" where
  "is_vec4 v w f \<longleftrightarrow> logic4_ok v \<and> \<not> is_logic9 v \<and> width4 v = w \<and> (\<forall>i<w. elem4 v i = f i)"

definition is_vec9 :: "packed_logic4 \<Rightarrow> nat \<Rightarrow> (nat \<Rightarrow> logic9) \<Rightarrow> bool" where
  "is_vec9 v w f \<longleftrightarrow> logic4_ok v \<and> is_logic9 v \<and> width4 v = w \<and> (\<forall>i<w. elem9 v i = f i)"

text \<open>The two's complement digits of an integer, and the number a function of the index denotes.\<close>

definition int_bit4 :: "int \<Rightarrow> nat \<Rightarrow> logic4" where
  "int_bit4 k i = (if bit k i then One4 else Zero4)"

definition val_of :: "nat \<Rightarrow> (nat \<Rightarrow> logic4) \<Rightarrow> int" where
  "val_of w f = horner_sum of_bool 2 (map (\<lambda>i. f i = One4) [0..<w])"

definition sval_of :: "nat \<Rightarrow> (nat \<Rightarrow> logic4) \<Rightarrow> int" where
  "sval_of w f = signed_take_bit (w - 1) (val_of w f)"

definition reads :: "packed_logic4 \<Rightarrow> nat \<Rightarrow> int \<Rightarrow> bool" where
  "reads v w k \<longleftrightarrow> logic4_ok v \<and> width4 v = w \<and> (\<forall>i<w. elem4 v i = int_bit4 k i)"

definition unknown4 :: "logic4 \<Rightarrow> bool" where
  "unknown4 e \<longleftrightarrow> e = X4 \<or> e = Z4"

subsection \<open>The constructor\<close>

lemma PackedLogic4_make:
  "PackedLogic4 w e = (if w \<le> size_max div 4 then Inr (make_packed w e) else Inl Length_error)"
proof (cases "w \<le> size_max div 4")
  case True
  then have "w \<le> size_max - 63" by (simp add: size_max_def)
  with True show ?thesis
    by (simp add: PackedLogic4_def make_packed_def checked_packed_width_def word_count_def)
qed (use PackedLogic4_cases [of w e] in auto)

lemma make_packed_vec [intro]:
  assumes "w \<le> size_max div 4"
  shows "is_vec4 (make_packed w e) w (\<lambda>_. e)"
  using PackedLogic4_cases [of w e] assms by (auto simp: PackedLogic4_make is_vec4_def)

lemma make_packed_frame [simp]: "width4 (make_packed w e) = w" "\<not> is_logic9 (make_packed w e)"
  by (simp_all add: make_packed_def)

lemma width_le: "logic4_ok v \<Longrightarrow> width4 v \<le> size_max div 4"
  by (simp add: logic4_ok_def)

subsection \<open>Views determine values\<close>

lemma is_vec4_unique: "is_vec4 v w f \<Longrightarrow> is_vec4 u w g \<Longrightarrow> (\<And>i. i < w \<Longrightarrow> f i = g i) \<Longrightarrow> v = u"
  by (auto simp: is_vec4_def intro!: logic4_eqI4)

lemma is_vec9_unique: "is_vec9 v w f \<Longrightarrow> is_vec9 u w g \<Longrightarrow> (\<And>i. i < w \<Longrightarrow> f i = g i) \<Longrightarrow> v = u"
  by (auto simp: is_vec9_def intro!: logic4_eqI_elem9)

lemma is_vec4_cong: "is_vec4 v w f \<Longrightarrow> (\<And>i. i < w \<Longrightarrow> f i = g i) \<Longrightarrow> is_vec4 v w g"
  by (simp add: is_vec4_def)

lemma is_vec9_cong: "is_vec9 v w f \<Longrightarrow> (\<And>i. i < w \<Longrightarrow> f i = g i) \<Longrightarrow> is_vec9 v w g"
  by (simp add: is_vec9_def)

lemma is_vec4_self: "logic4_ok v \<Longrightarrow> \<not> is_logic9 v \<Longrightarrow> is_vec4 v (width4 v) (elem4 v)"
  by (simp add: is_vec4_def)

lemma is_vec9_self: "logic4_ok v \<Longrightarrow> is_logic9 v \<Longrightarrow> is_vec9 v (width4 v) (elem9 v)"
  by (simp add: is_vec9_def)

lemma is_vec4D:
  assumes "is_vec4 v w f"
  shows "logic4_ok v" "\<not> is_logic9 v" "width4 v = w" "\<And>i. i < w \<Longrightarrow> elem4 v i = f i"
    "\<And>i. i < w \<Longrightarrow> elem9 v i = to_logic9 (f i)"
  using assms by (auto simp: is_vec4_def elem9_logic4)

lemma is_vec9D:
  assumes "is_vec9 v w f"
  shows "logic4_ok v" "is_logic9 v" "width4 v = w" "\<And>i. i < w \<Longrightarrow> elem9 v i = f i"
    "\<And>i. i < w \<Longrightarrow> elem4 v i = to_logic4 (f i)"
  using assms by (auto simp: is_vec9_def elem4_elem9)

lemma is_vec4_put: "is_vec4 v w f \<Longrightarrow> i < w \<Longrightarrow> is_vec4 (put4 v i e) w (f(i := e))"
  by (auto simp: is_vec4_def put4_ok)

lemma is_vec9_put: "logic4_ok v \<Longrightarrow> width4 v = w \<Longrightarrow> (\<And>j. j < w \<Longrightarrow> elem9 v j = f j) \<Longrightarrow> i < w \<Longrightarrow>
    is_vec9 (put9 v i e) w (f(i := e))"
  by (auto simp: is_vec9_def put9_ok)

lemma fill9_vec:
  assumes "logic4_ok v"
  shows "is_vec9 (fill9 v e) (width4 v) (\<lambda>_. e)"
proof -
  have ok: "logic4_ok (promote_to_logic9 v)" by (rule promote_ok [OF assms])
  have "fill9 v e = fill_planes (promote_to_logic9 v) e"
    by (simp add: fill9_def) (simp add: promote_to_logic9_def)
  with fill_planes_ok [OF _ ok] show ?thesis by (simp add: is_vec9_def)
qed

lemma put4_loop:
  assumes "is_vec4 z w f"
  shows "is_vec4 (for_range 0 w (\<lambda>i r. put4 r i (g i)) z) w g"
  using l4.write_loop [where v = z and n = w and f = g] assms by (simp add: is_vec4_def)

lemma put9_loop:
  assumes "is_vec9 z w f"
  shows "is_vec9 (for_range 0 w (\<lambda>i r. put9 r i (g i)) z) w g"
  using l9.write_loop [where v = z and n = w and f = g] assms by (simp add: is_vec9_def)

text \<open>Loops that carry a scalar next to the vector they write (ripple carries).\<close>

lemma carry_loop:
  fixes c0 :: 'c
  assumes "is_vec4 z w f0"
    and step: "\<And>i r c. i < w \<Longrightarrow> body i (r, c) = (put4 r i (g i c), h i c)"
  defines "state \<equiv> \<lambda>n. for_range 0 n (\<lambda>i c. h i c) c0"
  shows "\<exists>r. for_range 0 w body (z, c0) = (r, state w) \<and> is_vec4 r w (\<lambda>i. g i (state i))"
proof -
  define P where "P n t \<longleftrightarrow> (\<exists>r. t = (r, state n) \<and> is_vec4 r w (\<lambda>i. if i < n then g i (state i) else f0 i))" for n t
  have "P w (for_range 0 w body (z, c0))"
  proof (rule for_range_invariant)
    show "P 0 (z, c0)" using assms(1) by (simp add: P_def state_def)
    fix i t
    assume i: "i < w" and "P i t"
    then obtain r where r: "t = (r, state i)" "is_vec4 r w (\<lambda>j. if j < i then g j (state j) else f0 j)"
      by (auto simp: P_def)
    have "state (Suc i) = h i (state i)" by (simp add: state_def for_range_Suc)
    moreover have "is_vec4 (put4 r i (g i (state i))) w (\<lambda>j. if j < Suc i then g j (state j) else f0 j)"
      by (rule is_vec4_cong [OF is_vec4_put [OF r(2) i]]) (auto simp: less_Suc_eq)
    ultimately show "P (Suc i) (body i t)" using step [OF i] by (auto simp: P_def r(1))
  qed simp
  then obtain r where r: "for_range 0 w body (z, c0) = (r, state w)"
      "is_vec4 r w (\<lambda>i. if i < w then g i (state i) else f0 i)"
    by (auto simp: P_def)
  have "is_vec4 r w (\<lambda>i. g i (state i))" by (rule is_vec4_cong [OF r(2)]) simp
  with r(1) show ?thesis by blast
qed

subsection \<open>Numbers\<close>

lemma val_of_bit: "bit (val_of w f) i \<longleftrightarrow> i < w \<and> f i = One4"
  by (auto simp: val_of_def bit_horner_sum_bit_iff)

lemma val_of_bounds: "0 \<le> val_of w f" "val_of w f < 2 ^ w"
proof -
  have "val_of w f = take_bit w (val_of w f)"
    by (rule bit_eqI) (auto simp: bit_take_bit_iff val_of_bit)
  then show "0 \<le> val_of w f" "val_of w f < 2 ^ w"
    by (metis take_bit_nonnegative, metis take_bit_int_less_exp)
qed

lemma val_of_cong: "(\<And>i. i < w \<Longrightarrow> (f i = One4) = (g i = One4)) \<Longrightarrow> val_of w f = val_of w g"
  by (rule bit_eqI) (auto simp: val_of_bit)

lemma val_of_int_bit4 [simp]: "val_of w (int_bit4 k) = take_bit w k"
  by (rule bit_eqI) (auto simp: val_of_bit bit_take_bit_iff int_bit4_def)

lemma int_bit4_val_of: "i < w \<Longrightarrow> \<not> unknown4 (f i) \<Longrightarrow> int_bit4 (val_of w f) i = f i"
  by (cases "f i") (auto simp: int_bit4_def val_of_bit unknown4_def)

lemma int_bit4_mod: "i < w \<Longrightarrow> int_bit4 (k mod 2 ^ w) i = int_bit4 k i"
  by (simp add: int_bit4_def bit_take_bit_iff flip: take_bit_eq_mod)

lemma int_bit4_cong: "take_bit w k = take_bit w l \<Longrightarrow> i < w \<Longrightarrow> int_bit4 k i = int_bit4 l i"
  by (metis int_bit4_mod take_bit_eq_mod)

lemma int_bit4_known [simp]: "\<not> unknown4 (int_bit4 k i)"
  by (simp add: int_bit4_def unknown4_def)

lemma int_bit4_eq [simp]:
  "int_bit4 k i = One4 \<longleftrightarrow> bit k i" "int_bit4 k i = Zero4 \<longleftrightarrow> \<not> bit k i" "int_bit4 k i \<noteq> X4" "int_bit4 k i \<noteq> Z4"
  by (simp_all add: int_bit4_def)

lemma int_bit4_inject: "int_bit4 k i = int_bit4 l i \<longleftrightarrow> bit k i = bit l i"
  by (simp add: int_bit4_def)

lemma reads_vec4: "is_vec4 v w (int_bit4 k) \<Longrightarrow> reads v w k"
  by (simp add: is_vec4_def reads_def)

lemma reads_val: "reads v w k \<Longrightarrow> val_of w (elem4 v) = take_bit w k"
  by (rule bit_eqI) (auto simp: val_of_bit bit_take_bit_iff reads_def)

lemma reads_known: "logic4_ok v \<Longrightarrow> (\<And>i. i < width4 v \<Longrightarrow> \<not> unknown4 (elem4 v i)) \<Longrightarrow> reads v (width4 v) (val_of (width4 v) (elem4 v))"
  by (simp add: reads_def int_bit4_val_of)

lemma unsigned_value_val_of: "unsigned_value v = val_of (width4 v) (elem4 v)"
  by (simp add: unsigned_value_def val_of_def)

lemma signed_value_sval_of: "signed_value v = sval_of (width4 v) (elem4 v)"
  by (simp add: signed_value_def sval_of_def unsigned_value_val_of)

lemma sval_of_eq:
  assumes "0 < w"
  shows "sval_of w f = (if f (w - 1) = One4 then val_of w f - 2 ^ w else val_of w f)"
proof -
  obtain n where w: "w = Suc n" using assms by (cases w) auto
  have t: "take_bit w (val_of w f) = val_of w f"
    using val_of_bounds [of w f] by (simp add: take_bit_int_eq_self_iff)
  have "signed_take_bit n (val_of w f) = take_bit (Suc n) (val_of w f) - 2 ^ Suc n * of_bool (bit (val_of w f) n)"
    by (rule signed_take_bit_eq_take_bit_minus)
  with t w show ?thesis by (simp add: sval_of_def val_of_bit)
qed

lemma take_bit_sval_of: "0 < w \<Longrightarrow> take_bit w (sval_of w f) = val_of w f"
  using val_of_bounds [of w f] by (simp add: sval_of_def take_bit_signed_take_bit take_bit_int_eq_self_iff)

lemma sval_of_bounds:
  assumes "0 < w"
  shows "- (2 ^ (w - 1)) \<le> sval_of w f" "sval_of w f < 2 ^ (w - 1)"
  by (simp_all add: sval_of_def signed_take_bit_int_greater_eq_minus_exp signed_take_bit_int_less_exp)

lemma sval_of_neg: "0 < w \<Longrightarrow> sval_of w f < 0 \<longleftrightarrow> f (w - 1) = One4"
  using val_of_bounds [of w f] by (simp add: sval_of_eq)

end
