(* ===== verification/Operator_Spec.thy ===== *)
theory Operator_Spec
  imports Value_Views "HOL-Library.Signed_Division"
begin

text \<open>
  The operator enumerations of \<^verbatim>\<open>include/fsim/runtime/simir.hpp\<close> and what each operator means:
  the elements of the result as a function of the elements of the operands.  Both implementations
  of the operators, on packed values of any width and on single words, are proved against these
  definitions.
\<close>

subsection \<open>Operators\<close>

datatype binary_operator =
    Bit_and | Bit_or | Bit_xor
  | Add_unsigned | Subtract_unsigned | Multiply_unsigned | Power_unsigned | Divide_unsigned | Modulo_unsigned
  | Add_signed | Subtract_signed | Multiply_signed | Power_signed | Divide_signed | Remainder_signed | Modulo_signed
  | Equal | Case_equal | Casez_equal | Casex_equal | Wildcard_equal | Not_equal
  | Less_unsigned | Less_equal_unsigned | Greater_unsigned | Greater_equal_unsigned
  | Less_signed | Less_equal_signed | Greater_signed | Greater_equal_signed
  | Vhdl_match_equal

datatype logical_binary_operator = Logical_and | Logical_or

datatype reduction_operator = Reduce_and | Reduce_or | Reduce_xor | One_hot | One_hot_or_zero

datatype shift_operator =
  Logical_left | Logical_right | Arithmetic_right | Arithmetic_left | Rotate_left | Rotate_right

text \<open>
  \<^verbatim>\<open>operation >= equal && operation <= greater_equal_signed\<close>: the enumerators between these
  two.
\<close>

definition is_comparison :: "binary_operator \<Rightarrow> bool" where
  "is_comparison operation \<longleftrightarrow> operation \<in> {Equal, Case_equal, Casez_equal, Casex_equal, Wildcard_equal, Not_equal,
     Less_unsigned, Less_equal_unsigned, Greater_unsigned, Greater_equal_unsigned,
     Less_signed, Less_equal_signed, Greater_signed, Greater_equal_signed}"

definition is_relational :: "binary_operator \<Rightarrow> bool" where
  "is_relational operation \<longleftrightarrow> operation \<in> {Less_unsigned, Less_equal_unsigned, Greater_unsigned, Greater_equal_unsigned,
     Less_signed, Less_equal_signed, Greater_signed, Greater_equal_signed}"

definition is_signed_relational :: "binary_operator \<Rightarrow> bool" where
  "is_signed_relational operation \<longleftrightarrow> operation \<in> {Less_signed, Less_equal_signed, Greater_signed, Greater_equal_signed}"

definition is_arithmetic :: "binary_operator \<Rightarrow> bool" where
  "is_arithmetic operation \<longleftrightarrow> operation \<in> {Add_unsigned, Subtract_unsigned, Multiply_unsigned, Power_unsigned,
     Divide_unsigned, Modulo_unsigned, Add_signed, Subtract_signed, Multiply_signed, Power_signed,
     Divide_signed, Remainder_signed, Modulo_signed}"

subsection \<open>Meaning of the binary operators\<close>

definition any_unknown :: "nat \<Rightarrow> (nat \<Rightarrow> logic4) \<Rightarrow> bool" where
  "any_unknown w f \<longleftrightarrow> (\<exists>i<w. unknown4 (f i))"

definition of_bool4 :: "bool \<Rightarrow> logic4" where
  "of_bool4 b = (if b then One4 else Zero4)"

definition spec_equal :: "nat \<Rightarrow> (nat \<Rightarrow> logic4) \<Rightarrow> (nat \<Rightarrow> logic4) \<Rightarrow> logic4" where
  "spec_equal w f g =
     (if \<exists>i<w. \<not> unknown4 (f i) \<and> \<not> unknown4 (g i) \<and> f i \<noteq> g i then Zero4
      else if any_unknown w f \<or> any_unknown w g then X4 else One4)"

text \<open>
  Four-state operands for which the matching relation of VHDL has a known result: a known pair
  differs, or there is no metavalue.
\<close>

definition match_decided :: "nat \<Rightarrow> (nat \<Rightarrow> logic4) \<Rightarrow> (nat \<Rightarrow> logic4) \<Rightarrow> bool" where
  "match_decided w f g \<longleftrightarrow>
     (\<exists>i<w. \<not> unknown4 (f i) \<and> \<not> unknown4 (g i) \<and> f i \<noteq> g i) \<or> \<not> any_unknown w f \<and> \<not> any_unknown w g"

text \<open>Elements that stand for 0 and for 1 in a matching comparison, and pairs of them.\<close>

definition match_differ :: "logic9 \<Rightarrow> logic9 \<Rightarrow> bool" where
  "match_differ a b \<longleftrightarrow> a \<in> {Zero9, L9} \<and> b \<in> {One9, H9} \<or> a \<in> {One9, H9} \<and> b \<in> {Zero9, L9}"

definition match_agree :: "logic9 \<Rightarrow> logic9 \<Rightarrow> bool" where
  "match_agree a b \<longleftrightarrow> a = DontCare9 \<or> b = DontCare9 \<or> a \<in> {Zero9, L9} \<and> b \<in> {Zero9, L9} \<or> a \<in> {One9, H9} \<and> b \<in> {One9, H9}"

definition spec_wildcard :: "nat \<Rightarrow> (nat \<Rightarrow> logic4) \<Rightarrow> (nat \<Rightarrow> logic4) \<Rightarrow> logic4" where
  "spec_wildcard w f g =
     (if \<exists>i<w. \<not> unknown4 (f i) \<and> \<not> unknown4 (g i) \<and> f i \<noteq> g i then Zero4
      else if \<exists>i<w. unknown4 (f i) \<and> \<not> unknown4 (g i) then X4 else One4)"

definition spec_relation :: "binary_operator \<Rightarrow> int \<Rightarrow> int \<Rightarrow> bool" where
  "spec_relation operation a b =
     (if operation \<in> {Less_unsigned, Less_signed} then a < b
      else if operation \<in> {Less_equal_unsigned, Less_equal_signed} then a \<le> b
      else if operation \<in> {Greater_unsigned, Greater_signed} then a > b
      else a \<ge> b)"

text \<open>
  The number an arithmetic operator computes from the unsigned readings of its operands, taken
  modulo \<open>2 ^ w\<close> by the result; \<open>None\<close> where the result is unknown.
\<close>

definition spec_power :: "nat \<Rightarrow> int \<Rightarrow> int \<Rightarrow> bool \<Rightarrow> int option" where
  "spec_power w a b is_signed =
     (let e = (if is_signed then signed_take_bit (w - 1) b else b)
      in if e \<ge> 0 then Some (a ^ nat e)
         else if a = 0 then None
         else if a = 1 then Some 1
         else if a = 2 ^ w - 1 then Some (if odd b then - 1 else 1)
         else Some 0)"

definition spec_number :: "binary_operator \<Rightarrow> nat \<Rightarrow> int \<Rightarrow> int \<Rightarrow> int option" where
  "spec_number operation w a b =
     (let sa = signed_take_bit (w - 1) a; sb = signed_take_bit (w - 1) b
      in if operation \<in> {Add_unsigned, Add_signed} then Some (a + b)
         else if operation \<in> {Subtract_unsigned, Subtract_signed} then Some (a - b)
         else if operation \<in> {Multiply_unsigned, Multiply_signed} then Some (a * b)
         else if operation = Power_unsigned then spec_power w a b False
         else if operation = Power_signed then spec_power w a b True
         else if b = 0 then None
         else if operation = Divide_unsigned then Some (a div b)
         else if operation = Modulo_unsigned then Some (a mod b)
         else if operation = Divide_signed then Some (sa sdiv sb)
         else if operation = Remainder_signed then Some (sa smod sb)
         else Some (sa mod sb))"

definition spec_arithmetic :: "binary_operator \<Rightarrow> nat \<Rightarrow> (nat \<Rightarrow> logic4) \<Rightarrow> (nat \<Rightarrow> logic4) \<Rightarrow> nat \<Rightarrow> logic4" where
  "spec_arithmetic operation w f g =
     (if any_unknown w f \<or> any_unknown w g then \<lambda>_. X4
      else case spec_number operation w (val_of w f) (val_of w g) of None \<Rightarrow> \<lambda>_. X4 | Some k \<Rightarrow> int_bit4 k)"

definition spec_binary :: "binary_operator \<Rightarrow> nat \<Rightarrow> (nat \<Rightarrow> logic4) \<Rightarrow> (nat \<Rightarrow> logic4) \<Rightarrow> nat \<Rightarrow> logic4" where
  "spec_binary operation w f g =
     (if operation = Bit_and then \<lambda>i. logic_and4 (f i) (g i)
      else if operation = Bit_or then \<lambda>i. logic_or4 (f i) (g i)
      else if operation = Bit_xor then \<lambda>i. logic_xor4 (f i) (g i)
      else if operation \<in> {Equal, Vhdl_match_equal} then \<lambda>_. spec_equal w f g
      else if operation = Not_equal then \<lambda>_. logic_not4 (spec_equal w f g)
      else if operation = Case_equal then \<lambda>_. of_bool4 (\<forall>i<w. f i = g i)
      else if operation = Casez_equal then \<lambda>_. of_bool4 (\<forall>i<w. f i = Z4 \<or> g i = Z4 \<or> f i = g i)
      else if operation = Casex_equal then \<lambda>_. of_bool4 (\<forall>i<w. unknown4 (f i) \<or> unknown4 (g i) \<or> f i = g i)
      else if operation = Wildcard_equal then \<lambda>_. spec_wildcard w f g
      else if is_relational operation
      then \<lambda>_. if any_unknown w f \<or> any_unknown w g then X4
               else of_bool4 (if is_signed_relational operation
                     then spec_relation operation (sval_of w f) (sval_of w g)
                     else spec_relation operation (val_of w f) (val_of w g))
      else spec_arithmetic operation w f g)"

definition result_width :: "binary_operator \<Rightarrow> nat \<Rightarrow> nat" where
  "result_width operation w = (if is_comparison operation \<or> operation = Vhdl_match_equal then 1 else w)"

subsection \<open>Meaning of the unary operators and shifts\<close>

definition spec_truth :: "nat \<Rightarrow> (nat \<Rightarrow> logic4) \<Rightarrow> logic4" where
  "spec_truth w f = (if \<exists>i<w. f i = One4 then One4 else if any_unknown w f then X4 else Zero4)"

definition spec_reduce :: "reduction_operator \<Rightarrow> nat \<Rightarrow> (nat \<Rightarrow> logic4) \<Rightarrow> logic4" where
  "spec_reduce operation w f = (case operation of
       Reduce_and \<Rightarrow> if \<exists>i<w. f i = Zero4 then Zero4 else if any_unknown w f then X4 else One4
     | Reduce_or \<Rightarrow> if \<exists>i<w. f i = One4 then One4 else if any_unknown w f then X4 else Zero4
     | Reduce_xor \<Rightarrow> if any_unknown w f then X4 else of_bool4 (odd (card {i. i < w \<and> f i = One4}))
     | One_hot \<Rightarrow> of_bool4 (card {i. i < w \<and> f i = One4} = 1)
     | One_hot_or_zero \<Rightarrow> of_bool4 (card {i. i < w \<and> f i = One4} \<le> 1))"

text \<open>
  A shift by a non-negative amount, for any type of element; \<open>zero\<close> is what logical shifts bring
  in.
\<close>

definition spec_shift :: "'e \<Rightarrow> shift_operator \<Rightarrow> nat \<Rightarrow> (nat \<Rightarrow> 'e) \<Rightarrow> nat \<Rightarrow> nat \<Rightarrow> 'e" where
  "spec_shift zero operation w f k i = (case operation of
       Logical_left \<Rightarrow> if i < k then zero else f (i - k)
     | Arithmetic_left \<Rightarrow> if i < k then f 0 else f (i - k)
     | Logical_right \<Rightarrow> if i + k < w then f (i + k) else zero
     | Arithmetic_right \<Rightarrow> if i + k < w then f (i + k) else f (w - 1)
     | Rotate_left \<Rightarrow> f ((i + (w - k mod w)) mod w)
     | Rotate_right \<Rightarrow> f ((i + k) mod w))"

fun spec_reverse :: "shift_operator \<Rightarrow> shift_operator" where
  "spec_reverse Logical_left = Logical_right"
| "spec_reverse Logical_right = Logical_left"
| "spec_reverse Arithmetic_left = Arithmetic_right"
| "spec_reverse Arithmetic_right = Arithmetic_left"
| "spec_reverse Rotate_left = Rotate_right"
| "spec_reverse Rotate_right = Rotate_left"

text \<open>A shift by a signed amount: a negative one shifts the other way by its magnitude.\<close>

definition spec_shift_by :: "'e \<Rightarrow> shift_operator \<Rightarrow> nat \<Rightarrow> (nat \<Rightarrow> 'e) \<Rightarrow> int \<Rightarrow> nat \<Rightarrow> 'e" where
  "spec_shift_by zero operation w f k =
     (if k < 0 then spec_shift zero (spec_reverse operation) w f (nat (- k))
      else spec_shift zero operation w f (nat k))"

definition spec_conditional :: "logic4 \<Rightarrow> (nat \<Rightarrow> logic4) \<Rightarrow> (nat \<Rightarrow> logic4) \<Rightarrow> nat \<Rightarrow> logic4" where
  "spec_conditional c f g i =
     (if c = One4 then f i else if c = Zero4 then g i
      else if f i = g i \<and> \<not> unknown4 (f i) then f i else X4)"

end
