(* ===== verification/Kernel_Word.thy ===== *)
theory Kernel_Word
  imports Operator_Spec
begin

text \<open>
  The single-word operations of \<^verbatim>\<open>src/runtime/simir_kernel_word_ops.hpp\<close>: values of at most
  64 elements as an aval/bval pair of words.  Widths are natural numbers (the callers pass 1 to 64).
  Each operation is proved to have the elements that \<open>Operator_Spec\<close> prescribes and to
  leave the bits above the width clear.
\<close>

subsection \<open>Words\<close>

record kernel_word =
  ka :: u64
  kb :: u64

definition kmask :: "nat \<Rightarrow> u64" where
  "kmask width = (if width \<ge> 64 then NOT 0 else push_bit width 1 - 1)"

definition known_word :: "kernel_word \<Rightarrow> bool" where
  "known_word value \<longleftrightarrow> kb value = 0"

definition all_x :: "nat \<Rightarrow> kernel_word" where
  "all_x width = \<lparr>ka = kmask width, kb = kmask width\<rparr>"

definition kbit :: "kernel_word \<Rightarrow> nat \<Rightarrow> logic4" where
  "kbit value index =
     (let a = drop_bit index (ka value) AND 1; b = drop_bit index (kb value) AND 1
      in if b = 0 then (if a \<noteq> 0 then One4 else Zero4) else (if a \<noteq> 0 then X4 else Z4))"

definition from_logic4 :: "logic4 \<Rightarrow> kernel_word" where
  "from_logic4 value = (case value of
       Zero4 \<Rightarrow> \<lparr>ka = 0, kb = 0\<rparr>
     | One4 \<Rightarrow> \<lparr>ka = 1, kb = 0\<rparr>
     | X4 \<Rightarrow> \<lparr>ka = 1, kb = 1\<rparr>
     | Z4 \<Rightarrow> \<lparr>ka = 0, kb = 1\<rparr>)"

subsection \<open>Bitwise and logical operations\<close>

definition kw_and :: "kernel_word \<Rightarrow> kernel_word \<Rightarrow> nat \<Rightarrow> kernel_word" where
  "kw_and l r width =
     (let m = kmask width;
          zero = (NOT (ka l) AND NOT (kb l)) OR (NOT (ka r) AND NOT (kb r));
          one = (ka l AND NOT (kb l)) AND (ka r AND NOT (kb r));
          x = NOT (zero OR one) AND m
      in \<lparr>ka = (one OR x) AND m, kb = x\<rparr>)"

definition kw_or :: "kernel_word \<Rightarrow> kernel_word \<Rightarrow> nat \<Rightarrow> kernel_word" where
  "kw_or l r width =
     (let m = kmask width;
          one = (ka l AND NOT (kb l)) OR (ka r AND NOT (kb r));
          zero = (NOT (ka l) AND NOT (kb l)) AND (NOT (ka r) AND NOT (kb r));
          x = NOT (zero OR one) AND m
      in \<lparr>ka = (one OR x) AND m, kb = x\<rparr>)"

definition kw_xor :: "kernel_word \<Rightarrow> kernel_word \<Rightarrow> nat \<Rightarrow> kernel_word" where
  "kw_xor l r width =
     (let m = kmask width; unknown = (kb l OR kb r) AND m
      in \<lparr>ka = ((ka l XOR ka r) OR unknown) AND m, kb = unknown\<rparr>)"

definition kw_not :: "kernel_word \<Rightarrow> nat \<Rightarrow> kernel_word" where
  "kw_not value width =
     (let m = kmask width
      in \<lparr>ka = (NOT (ka value) OR kb value) AND m, kb = kb value AND m\<rparr>)"

definition kw_truth :: "kernel_word \<Rightarrow> logic4" where
  "kw_truth value =
     (if ka value AND NOT (kb value) \<noteq> 0 then One4 else if kb value \<noteq> 0 then X4 else Zero4)"

definition scalar :: "logic4 \<Rightarrow> kernel_word" where
  "scalar value = from_logic4 value"

definition kw_logical_not :: "kernel_word \<Rightarrow> kernel_word" where
  "kw_logical_not value = scalar (logic_not4 (kw_truth value))"

definition kw_logical_binary :: "logical_binary_operator \<Rightarrow> kernel_word \<Rightarrow> kernel_word \<Rightarrow> kernel_word" where
  "kw_logical_binary operation l r =
     (let left = kw_truth l; right = kw_truth r
      in scalar (if operation = Logical_and then logic_and4 left right else logic_or4 left right))"

text \<open>\<^verbatim>\<open>std::popcount\<close>.\<close>

definition popcount :: "u64 \<Rightarrow> nat" where
  "popcount w = length (filter (bit w) [0..<64])"

definition kw_reduce :: "reduction_operator \<Rightarrow> kernel_word \<Rightarrow> nat \<Rightarrow> kernel_word" where
  "kw_reduce operation value width =
     (let m = kmask width;
          ones = ka value AND NOT (kb value) AND m;
          zeros = NOT (ka value) AND NOT (kb value) AND m;
          unknown = kb value AND m
      in case operation of
           One_hot \<Rightarrow> scalar (if popcount ones = 1 then One4 else Zero4)
         | One_hot_or_zero \<Rightarrow> scalar (if popcount ones \<le> 1 then One4 else Zero4)
         | Reduce_and \<Rightarrow> if zeros \<noteq> 0 then scalar Zero4 else scalar (if unknown \<noteq> 0 then X4 else One4)
         | Reduce_or \<Rightarrow> if ones \<noteq> 0 then scalar One4 else scalar (if unknown \<noteq> 0 then X4 else Zero4)
         | Reduce_xor \<Rightarrow> if unknown \<noteq> 0 then scalar X4
                         else scalar (if popcount ones mod 2 \<noteq> 0 then One4 else Zero4))"

subsection \<open>Numbers\<close>

definition sign_extend :: "u64 \<Rightarrow> nat \<Rightarrow> int" where
  "sign_extend value width =
     (if width \<ge> 64 then sint value
      else let sign = push_bit (width - 1) 1 in sint ((value XOR sign) - sign))"

definition kw_power_known :: "u64 \<Rightarrow> u64 \<Rightarrow> nat \<Rightarrow> nat \<Rightarrow> bool \<Rightarrow> u64" where
  "kw_power_known base exponent base_width exponent_width signed_exponent =
     (let m = kmask base_width;
          negative = signed_exponent \<and> drop_bit (exponent_width - 1) exponent AND 1 \<noteq> 0
      in if negative
         then (if base = 0 then NOT 0
               else if base = 1 then 1
               else if base = m then (if exponent AND 1 \<noteq> 0 then base else 1)
               else 0)
         else fst (for_range 0 exponent_width (\<lambda>bit_index (result, factor).
                (if drop_bit bit_index exponent AND 1 \<noteq> 0 then (result * factor) AND m else result,
                 (factor * factor) AND m)) (1 AND m, base AND m)))"

subsection \<open>Nine-state words\<close>

definition logic9_word_of :: "u64 \<Rightarrow> u64 \<Rightarrow> u64 \<Rightarrow> u64 \<Rightarrow> nat \<Rightarrow> kernel_word option" where
  "logic9_word_of p0 p1 p2 p3 width =
     (let m = kmask width;
          known = p1 AND NOT p2;
          unknown = NOT p2 AND NOT p1 AND p0;
          high_z = p2 AND NOT p1 AND NOT p0
      in if p3 AND m \<noteq> 0 \<or> (known OR unknown OR high_z) AND m \<noteq> m then None
         else Some \<lparr>ka = p0 AND m, kb = (unknown OR high_z) AND m\<rparr>)"

record kernel_uword =
  uvalue :: kernel_word
  uunknown :: u64

definition logic9_uword :: "u64 \<Rightarrow> u64 \<Rightarrow> u64 \<Rightarrow> u64 \<Rightarrow> nat \<Rightarrow> kernel_uword option" where
  "logic9_uword p0 p1 p2 p3 width =
     (let m = kmask width;
          unknown = NOT (p0 OR p1 OR p2 OR p3) AND m
      in case logic9_word_of (p0 OR unknown) p1 p2 p3 width of
           None \<Rightarrow> None
         | Some word \<Rightarrow> Some \<lparr>uvalue = word, uunknown = unknown\<rparr>)"

definition logic9_coerced :: "u64 \<Rightarrow> u64 \<Rightarrow> u64 \<Rightarrow> u64 \<Rightarrow> nat \<Rightarrow> kernel_word" where
  "logic9_coerced p0 p1 p2 p3 width =
     (let m = kmask width;
          zero = NOT p3 AND p1 AND NOT p0;
          one = NOT p3 AND p1 AND p0;
          high_z = NOT p3 AND p2 AND NOT p1 AND NOT p0;
          unknown = NOT (zero OR one OR high_z)
      in \<lparr>ka = (one OR unknown) AND m, kb = (high_z OR unknown) AND m\<rparr>)"

definition logic9_planes :: "kernel_word \<Rightarrow> nat \<Rightarrow> u64 \<Rightarrow> u64 list" where
  "logic9_planes value width unknown =
     (let m = kmask width AND NOT unknown
      in [ka value AND m, NOT (kb value) AND m, NOT (ka value) AND kb value AND m, 0])"

definition front :: "u64 list \<Rightarrow> u64" where
  "front words = (if words = [] then 0 else hd words)"

definition known_bits :: "packed_logic4 \<Rightarrow> u64 option" where
  "known_bits value =
     (if width4 value = 0 \<or> width4 value > 64 then None
      else
        let width = width4 value
        in if \<not> is_logic9 value
           then (if front (bval_words value) AND kmask width \<noteq> 0 then None
                 else Some (front (aval_words value) AND kmask width))
           else case logic9_word_of (front (logic9_plane_words value 0)) (front (logic9_plane_words value 1))
                       (front (logic9_plane_words value 2)) (front (logic9_plane_words value 3)) width of
                  None \<Rightarrow> None
                | Some word \<Rightarrow> if kb word \<noteq> 0 then None else Some (ka word))"

definition logic9_known :: "u64 \<Rightarrow> nat \<Rightarrow> packed_logic4 result" where
  "logic9_known bits width =
     from_logic9_word \<lparr>w9_width = width, w9_planes = logic9_planes \<lparr>ka = bits, kb = 0\<rparr> width 0\<rparr>"

definition unknown_and :: "kernel_word \<Rightarrow> u64 \<Rightarrow> kernel_word \<Rightarrow> u64 \<Rightarrow> u64" where
  "unknown_and l lu r ru =
     (let zero_l = NOT (ka l) AND NOT (kb l); zero_r = NOT (ka r) AND NOT (kb r)
      in (lu OR ru) AND NOT zero_l AND NOT zero_r)"

definition unknown_or :: "kernel_word \<Rightarrow> u64 \<Rightarrow> kernel_word \<Rightarrow> u64 \<Rightarrow> u64" where
  "unknown_or l lu r ru =
     (let one_l = ka l AND NOT (kb l); one_r = ka r AND NOT (kb r)
      in (lu OR ru) AND NOT one_l AND NOT one_r)"

subsection \<open>Binary operators\<close>

definition kw_relation :: "binary_operator \<Rightarrow> kernel_word \<Rightarrow> kernel_word \<Rightarrow> nat \<Rightarrow> kernel_word" where
  "kw_relation operation l r width =
     (let m = kmask width; unknown = (kb l OR kb r) AND m
      in if unknown \<noteq> 0 then scalar X4
         else
           let comparison =
                 (if is_signed_relational operation
                  then (let left = sign_extend (ka l) width; right = sign_extend (ka r) width
                        in if left < right then - 1 else if left > right then 1 else 0)
                  else (if ka l < ka r then - 1 else if ka l > ka r then 1 else 0)) :: int;
               res =
                 (if operation \<in> {Less_unsigned, Less_signed} then comparison < 0
                  else if operation \<in> {Less_equal_unsigned, Less_equal_signed} then comparison \<le> 0
                  else if operation \<in> {Greater_unsigned, Greater_signed} then comparison > 0
                  else comparison \<ge> 0)
           in scalar (if res then One4 else Zero4))"

definition kw_signed_division :: "binary_operator \<Rightarrow> u64 \<Rightarrow> u64 \<Rightarrow> nat \<Rightarrow> kernel_word" where
  "kw_signed_division operation left right width =
     (let m = kmask width
      in if right = 0 then all_x width
         else
           let sign = push_bit (width - 1) 1;
               left_negative = (left AND sign \<noteq> 0);
               right_negative = (right AND sign \<noteq> 0);
               left_magnitude = (if left_negative then (0 - left) AND m else left);
               right_magnitude = (if right_negative then (0 - right) AND m else right);
               quotient = (left_magnitude div right_magnitude) AND m;
               remainder = (left_magnitude mod right_magnitude) AND m;
               quotient = (if left_negative \<noteq> right_negative then (0 - quotient) AND m else quotient);
               remainder = (if left_negative then (0 - remainder) AND m else remainder)
           in if operation = Divide_signed then \<lparr>ka = quotient, kb = 0\<rparr>
              else if operation = Modulo_signed \<and> remainder \<noteq> 0 \<and> left_negative \<noteq> right_negative
              then \<lparr>ka = (remainder + right) AND m, kb = 0\<rparr>
              else \<lparr>ka = remainder, kb = 0\<rparr>)"

definition kw_arithmetic :: "binary_operator \<Rightarrow> kernel_word \<Rightarrow> kernel_word \<Rightarrow> nat \<Rightarrow> kernel_word" where
  "kw_arithmetic operation l r width =
     (let m = kmask width; unknown = (kb l OR kb r) AND m
      in if unknown \<noteq> 0 then all_x width
         else
           let left = ka l; right = ka r
           in if operation \<in> {Add_unsigned, Add_signed} then \<lparr>ka = (left + right) AND m, kb = 0\<rparr>
              else if operation \<in> {Subtract_unsigned, Subtract_signed} then \<lparr>ka = (left - right) AND m, kb = 0\<rparr>
              else if operation \<in> {Multiply_unsigned, Multiply_signed} then \<lparr>ka = (left * right) AND m, kb = 0\<rparr>
              else if operation \<in> {Power_unsigned, Power_signed}
              then (let negative = (operation = Power_signed \<and> drop_bit (width - 1) right AND 1 \<noteq> 0)
                    in if negative \<and> left = 0 then all_x width
                       else \<lparr>ka = kw_power_known left right width width (operation = Power_signed) AND m, kb = 0\<rparr>)
              else if operation = Divide_unsigned
              then (if right = 0 then all_x width else \<lparr>ka = (left div right) AND m, kb = 0\<rparr>)
              else if operation = Modulo_unsigned
              then (if right = 0 then all_x width else \<lparr>ka = (left mod right) AND m, kb = 0\<rparr>)
              else if operation \<in> {Divide_signed, Remainder_signed, Modulo_signed}
              then kw_signed_division operation left right width
              else all_x width)"

definition kw_binary :: "binary_operator \<Rightarrow> kernel_word \<Rightarrow> kernel_word \<Rightarrow> nat \<Rightarrow> kernel_word" where
  "kw_binary operation l r width =
     (let m = kmask width; unknown = (kb l OR kb r) AND m
      in case operation of
           Bit_and \<Rightarrow> kw_and l r width
         | Bit_or \<Rightarrow> kw_or l r width
         | Bit_xor \<Rightarrow> kw_xor l r width
         | Equal \<Rightarrow>
             if (ka l XOR ka r) AND NOT unknown AND m \<noteq> 0 then scalar Zero4
             else if unknown \<noteq> 0 then scalar X4 else scalar One4
         | Case_equal \<Rightarrow> scalar (if ka l = ka r \<and> kb l = kb r then One4 else Zero4)
         | Casez_equal \<Rightarrow>
             let z = ((NOT (ka l) AND kb l) OR (NOT (ka r) AND kb r)) AND m;
                 differ = ((ka l XOR ka r) OR (kb l XOR kb r)) AND m AND NOT z
             in scalar (if differ = 0 then One4 else Zero4)
         | Casex_equal \<Rightarrow>
             let differ = ((ka l XOR ka r) OR (kb l XOR kb r)) AND m AND NOT unknown
             in scalar (if differ = 0 then One4 else Zero4)
         | Wildcard_equal \<Rightarrow>
             let care = NOT (kb r) AND m
             in if (ka l XOR ka r) AND care AND NOT (kb l) \<noteq> 0 then scalar Zero4
                else if kb l AND care \<noteq> 0 then scalar X4
                else scalar (if (ka l XOR ka r) AND care = 0 then One4 else Zero4)
         | Not_equal \<Rightarrow>
             if (ka l XOR ka r) AND NOT unknown AND m \<noteq> 0 then scalar One4
             else if unknown \<noteq> 0 then scalar X4 else scalar Zero4
         | Vhdl_match_equal \<Rightarrow>
             scalar (if (ka l XOR ka r) AND NOT (kb l OR kb r) AND m \<noteq> 0 then Zero4
                     else if (kb l OR kb r) AND m \<noteq> 0 then X4 else One4)
         | _ \<Rightarrow> if is_relational operation then kw_relation operation l r width
                else kw_arithmetic operation l r width)"

subsection \<open>Shifts, ranges, selection\<close>

fun kw_reverse :: "shift_operator \<Rightarrow> shift_operator" where
  "kw_reverse Logical_left = Logical_right"
| "kw_reverse Logical_right = Logical_left"
| "kw_reverse Arithmetic_left = Arithmetic_right"
| "kw_reverse Arithmetic_right = Arithmetic_left"
| "kw_reverse Rotate_left = Rotate_right"
| "kw_reverse Rotate_right = Rotate_left"

definition kw_rotate :: "shift_operator \<Rightarrow> u64 \<Rightarrow> nat \<Rightarrow> nat \<Rightarrow> u64" where
  "kw_rotate operation plane width amount_value =
     (if operation = Rotate_left
      then (push_bit amount_value plane OR drop_bit (width - amount_value) plane) AND kmask width
      else (drop_bit amount_value plane OR push_bit (width - amount_value) plane) AND kmask width)"

definition kw_shift_known :: "shift_operator \<Rightarrow> kernel_word \<Rightarrow> nat \<Rightarrow> u64 \<Rightarrow> kernel_word" where
  "kw_shift_known operation value width magnitude =
     (let m = kmask width;
          fill_bit = (if operation = Arithmetic_right then kbit value (width - 1)
                      else if operation = Arithmetic_left then kbit value 0 else Zero4);
          fill_word = from_logic4 fill_bit;
          fill = \<lparr>ka = if ka fill_word \<noteq> 0 then m else 0, kb = if kb fill_word \<noteq> 0 then m else 0\<rparr>
      in if operation = Rotate_left \<or> operation = Rotate_right
         then (let amount_value = unat magnitude mod width
               in if amount_value = 0 then \<lparr>ka = ka value AND m, kb = kb value AND m\<rparr>
                  else \<lparr>ka = kw_rotate operation (ka value) width amount_value,
                        kb = kw_rotate operation (kb value) width amount_value\<rparr>)
         else if unat magnitude \<ge> width then fill
         else
           let amount_value = unat magnitude
           in if amount_value = 0 then \<lparr>ka = ka value AND m, kb = kb value AND m\<rparr>
              else
                let keep = kmask (width - amount_value)
                in if operation = Logical_left \<or> operation = Arithmetic_left
                   then (let low = kmask amount_value
                         in \<lparr>ka = (push_bit amount_value (ka value) AND m) OR (ka fill AND low),
                             kb = (push_bit amount_value (kb value) AND m) OR (kb fill AND low)\<rparr>)
                   else (let high = m AND NOT keep
                         in \<lparr>ka = (drop_bit amount_value (ka value) AND keep) OR (ka fill AND high),
                             kb = (drop_bit amount_value (kb value) AND keep) OR (kb fill AND high)\<rparr>))"

definition kw_shift :: "shift_operator \<Rightarrow> kernel_word \<Rightarrow> nat \<Rightarrow> kernel_word \<Rightarrow> nat \<Rightarrow> bool \<Rightarrow> kernel_word" where
  "kw_shift operation value width amount amount_width signed_amount =
     (let amount_mask = kmask amount_width
      in if kb amount AND amount_mask \<noteq> 0 then all_x width
         else
           let magnitude = ka amount AND amount_mask
           in if signed_amount \<and> drop_bit (amount_width - 1) magnitude AND 1 \<noteq> 0
              then kw_shift_known (kw_reverse operation) value width ((0 - magnitude) AND amount_mask)
              else kw_shift_known operation value width magnitude)"

definition kw_extract :: "kernel_word \<Rightarrow> nat \<Rightarrow> nat \<Rightarrow> kernel_word" where
  "kw_extract value offset width =
     (let m = kmask width
      in if offset \<ge> 64 then \<lparr>ka = 0, kb = 0\<rparr>
         else \<lparr>ka = drop_bit offset (ka value) AND m, kb = drop_bit offset (kb value) AND m\<rparr>)"

definition kw_insert :: "kernel_word \<Rightarrow> kernel_word \<Rightarrow> nat \<Rightarrow> nat \<Rightarrow> kernel_word" where
  "kw_insert target source offset source_width =
     (let field = push_bit offset (kmask source_width)
      in \<lparr>ka = (ka target AND NOT field) OR (push_bit offset (ka source) AND field),
          kb = (kb target AND NOT field) OR (push_bit offset (kb source) AND field)\<rparr>)"

definition kw_conditional :: "kernel_word \<Rightarrow> kernel_word \<Rightarrow> kernel_word \<Rightarrow> nat \<Rightarrow> kernel_word" where
  "kw_conditional condition when_true when_false width =
     (let selected = kbit condition 0
      in if selected = One4 then when_true
         else if selected = Zero4 then when_false
         else
           let m = kmask width;
               same_known = NOT (kb when_true OR kb when_false OR (ka when_true XOR ka when_false)) AND m;
               unknown = NOT same_known AND m
           in \<lparr>ka = (ka when_true AND same_known) OR unknown, kb = unknown\<rparr>)"

definition to_two_state :: "kernel_word \<Rightarrow> kernel_word" where
  "to_two_state value = \<lparr>ka = ka value AND NOT (kb value), kb = 0\<rparr>"

subsection \<open>Words seen through their elements\<close>

definition word_vec :: "kernel_word \<Rightarrow> nat \<Rightarrow> (nat \<Rightarrow> logic4) \<Rightarrow> bool" where
  "word_vec x w f \<longleftrightarrow> w \<le> 64 \<and> (\<forall>i. bit (ka x) i = (i < w \<and> aval_of (f i))) \<and> (\<forall>i. bit (kb x) i = (i < w \<and> bval_of (f i)))"

lemma kbit_bits: "kbit x i = logic4_of_bits (bit (ka x) i) (bit (kb x) i)"
  by (simp add: kbit_def Let_def logic4_of_bits_def and_one_eq bit_iff_odd_drop_bit odd_iff_mod_2_eq_one)

lemma word_vec_kbit: "word_vec x w f \<Longrightarrow> i < w \<Longrightarrow> kbit x i = f i"
  by (simp add: word_vec_def kbit_bits)

lemma word_vecD:
  assumes "word_vec x w f"
  shows "w \<le> 64" "bit (ka x) i = (i < w \<and> aval_of (f i))" "bit (kb x) i = (i < w \<and> bval_of (f i))"
  using assms by (simp_all add: word_vec_def)

lemma word_vecI:
  assumes "w \<le> 64" "\<And>i. i < 64 \<Longrightarrow> bit (ka x) i = (i < w \<and> aval_of (f i))"
    "\<And>i. i < 64 \<Longrightarrow> bit (kb x) i = (i < w \<and> bval_of (f i))"
  shows "word_vec x w f"
  unfolding word_vec_def
proof (intro conjI allI assms(1))
  fix i
  show "bit (ka x) i = (i < w \<and> aval_of (f i))" "bit (kb x) i = (i < w \<and> bval_of (f i))"
    using assms by (cases "i < 64"; simp)+
qed

lemma word_vec_unique: "word_vec x w f \<Longrightarrow> word_vec y w g \<Longrightarrow> (\<And>i. i < w \<Longrightarrow> f i = g i) \<Longrightarrow> x = y"
proof -
  assume "word_vec x w f" "word_vec y w g" and eq: "\<And>i. i < w \<Longrightarrow> f i = g i"
  then have "bit (ka x) i = bit (ka y) i" "bit (kb x) i = bit (kb y) i" for i
    using eq [of i] by (auto simp: word_vec_def)
  then have "ka x = ka y" "kb x = kb y" by (auto intro: bit_eqI)
  then show "x = y" by simp
qed

lemma word_vec_cong: "word_vec x w f \<Longrightarrow> (\<And>i. i < w \<Longrightarrow> f i = g i) \<Longrightarrow> word_vec x w g"
  by (auto simp: word_vec_def)

lemma bit_kmask [simp]: "bit (kmask w) i \<longleftrightarrow> i < w \<and> i < 64"
  by (auto simp: kmask_def)

lemma kmask_eq_mask: "kmask w = mask w"
  by (rule u64_eqI) (simp add: bit_mask_iff possible_bit_word)

lemma and_kmask: "x AND kmask w = take_bit w x"
  by (simp add: kmask_eq_mask take_bit_eq_mask)

lemma aval_bval_simps [simp]:
  "aval_of Zero4 = False" "aval_of One4 = True" "aval_of X4 = True" "aval_of Z4 = False"
  "bval_of Zero4 = False" "bval_of One4 = False" "bval_of X4 = True" "bval_of Z4 = True"
  by (simp_all add: aval_of_def bval_of_def)

lemma unknown4_bval: "unknown4 e = bval_of e"
  by (cases e) (simp_all add: unknown4_def)

lemma all_x_vec [simp]: "w \<le> 64 \<Longrightarrow> word_vec (all_x w) w (\<lambda>_. X4)"
  by (rule word_vecI) (auto simp: all_x_def)

lemma from_logic4_vec: "word_vec (from_logic4 e) 1 (\<lambda>_. e)"
  by (rule word_vecI) (cases e; simp add: from_logic4_def bit_1_iff)+

lemma scalar_vec: "e = f \<Longrightarrow> word_vec (scalar e) (Suc 0) (\<lambda>_. f)"
  using from_logic4_vec [of e] by (simp add: scalar_def)

subsection \<open>Bitwise operations\<close>

lemma logic4_op_bits:
  "aval_of (logic_and4 a b) \<longleftrightarrow> (aval_of a \<or> bval_of a) \<and> (aval_of b \<or> bval_of b)"
  "bval_of (logic_and4 a b) \<longleftrightarrow> (aval_of a \<or> bval_of a) \<and> (aval_of b \<or> bval_of b) \<and> (bval_of a \<or> bval_of b)"
  "aval_of (logic_or4 a b) \<longleftrightarrow> aval_of a \<or> bval_of a \<or> aval_of b \<or> bval_of b"
  "bval_of (logic_or4 a b) \<longleftrightarrow> (bval_of a \<or> bval_of b) \<and> (aval_of a \<longrightarrow> bval_of a) \<and> (aval_of b \<longrightarrow> bval_of b)"
  "aval_of (logic_xor4 a b) \<longleftrightarrow> bval_of a \<or> bval_of b \<or> aval_of a \<noteq> aval_of b"
  "bval_of (logic_xor4 a b) \<longleftrightarrow> bval_of a \<or> bval_of b"
  "aval_of (logic_not4 a) \<longleftrightarrow> \<not> aval_of a \<or> bval_of a"
  "bval_of (logic_not4 a) \<longleftrightarrow> bval_of a"
  by (cases a; cases b; simp add: logic_and4_def logic_or4_def logic_xor4_def logic_not4_def)+

lemma kw_and_vec: "word_vec l w f \<Longrightarrow> word_vec r w g \<Longrightarrow> word_vec (kw_and l r w) w (\<lambda>i. logic_and4 (f i) (g i))"
  by (rule word_vecI) (auto simp: word_vec_def kw_and_def Let_def bit_u64_simps logic4_op_bits)

lemma kw_or_vec: "word_vec l w f \<Longrightarrow> word_vec r w g \<Longrightarrow> word_vec (kw_or l r w) w (\<lambda>i. logic_or4 (f i) (g i))"
  by (rule word_vecI) (auto simp: word_vec_def kw_or_def Let_def bit_u64_simps logic4_op_bits)

lemma kw_xor_vec: "word_vec l w f \<Longrightarrow> word_vec r w g \<Longrightarrow> word_vec (kw_xor l r w) w (\<lambda>i. logic_xor4 (f i) (g i))"
  by (rule word_vecI) (auto simp: word_vec_def kw_xor_def Let_def bit_u64_simps logic4_op_bits)

lemma kw_not_vec: "word_vec l w f \<Longrightarrow> word_vec (kw_not l w) w (\<lambda>i. logic_not4 (f i))"
  by (rule word_vecI) (auto simp: word_vec_def kw_not_def Let_def bit_u64_simps logic4_op_bits)

subsection \<open>Tests on words\<close>

lemma word_nonzero: "(x :: u64) \<noteq> 0 \<longleftrightarrow> (\<exists>i<64. bit x i)"
  using word_all_bits0 by blast

lemma known_pair: "\<not> bval_of e \<Longrightarrow> e = (if aval_of e then One4 else Zero4)"
  by (cases e) simp_all

lemma eq4_bits: "a = b \<longleftrightarrow> aval_of a = aval_of b \<and> bval_of a = bval_of b"
  by (cases a; cases b) simp_all

lemma ones_iff: "aval_of e \<and> \<not> bval_of e \<longleftrightarrow> e = One4" "\<not> aval_of e \<and> \<not> bval_of e \<longleftrightarrow> e = Zero4"
  "\<not> aval_of e \<and> bval_of e \<longleftrightarrow> e = Z4"
  by (cases e; simp)+

lemma nonzero_iff:
  fixes x :: u64
  assumes "w \<le> 64" "\<And>i. i < 64 \<Longrightarrow> bit x i = (i < w \<and> P i)"
  shows "x \<noteq> 0 \<longleftrightarrow> (\<exists>i<w. P i)"
  unfolding word_nonzero using assms by (meson less_le_trans)

lemma unknown_test:
  assumes "word_vec l w f" "word_vec r w g"
  shows "(kb l OR kb r) AND kmask w \<noteq> 0 \<longleftrightarrow> any_unknown w f \<or> any_unknown w g"
proof -
  have "(kb l OR kb r) AND kmask w \<noteq> 0 \<longleftrightarrow> (\<exists>i<w. bval_of (f i) \<or> bval_of (g i))"
    by (rule nonzero_iff) (use assms in \<open>auto simp: word_vec_def bit_u64_simps\<close>)
  then show ?thesis by (auto simp: any_unknown_def unknown4_bval)
qed

lemma kb_test: "word_vec l w f \<Longrightarrow> kb l \<noteq> 0 \<longleftrightarrow> any_unknown w f"
  unfolding any_unknown_def by (rule nonzero_iff) (auto simp: word_vec_def unknown4_bval)

lemma ones_test: "word_vec l w f \<Longrightarrow> ka l AND NOT (kb l) \<noteq> 0 \<longleftrightarrow> (\<exists>i<w. f i = One4)"
  by (rule nonzero_iff) (auto simp: word_vec_def bit_u64_simps ones_iff(1) [symmetric])

lemma differ_test:
  assumes "word_vec l w f" "word_vec r w g"
  shows "(ka l XOR ka r) AND NOT ((kb l OR kb r) AND kmask w) AND kmask w \<noteq> 0 \<longleftrightarrow>
    (\<exists>i<w. \<not> unknown4 (f i) \<and> \<not> unknown4 (g i) \<and> f i \<noteq> g i)"
  by (rule nonzero_iff) (use assms in \<open>auto simp: word_vec_def bit_u64_simps unknown4_bval eq4_bits\<close>)

subsection \<open>Logical operations and reductions\<close>

lemma kw_truth_spec: "word_vec l w f \<Longrightarrow> kw_truth l = spec_truth w f"
  by (simp add: kw_truth_def spec_truth_def ones_test kb_test)

lemma popcount_card: "popcount x = card {i. i < 64 \<and> bit x i}"
proof -
  have "length (filter (bit x) [0..<64]) = card {i. i < length [0..<64] \<and> bit x ([0..<64] ! i)}"
    by (rule length_filter_conv_card)
  also have "{i. i < length [0..<64] \<and> bit x ([0..<64] ! i)} = {i. i < 64 \<and> bit x i}" by auto
  finally show ?thesis by (simp add: popcount_def)
qed

lemma kw_reduce_vec:
  assumes "word_vec l w f"
  shows "word_vec (kw_reduce operation l w) 1 (\<lambda>_. spec_reduce operation w f)"
proof -
  have ones: "ka l AND NOT (kb l) AND kmask w \<noteq> 0 \<longleftrightarrow> (\<exists>i<w. f i = One4)"
    by (rule nonzero_iff) (use assms in \<open>auto simp: word_vec_def bit_u64_simps ones_iff(1) [symmetric]\<close>)
  have zeros: "NOT (ka l) AND NOT (kb l) AND kmask w \<noteq> 0 \<longleftrightarrow> (\<exists>i<w. f i = Zero4)"
    by (rule nonzero_iff) (use assms in \<open>auto simp: word_vec_def bit_u64_simps ones_iff(2) [symmetric]\<close>)
  have unknown: "kb l AND kmask w \<noteq> 0 \<longleftrightarrow> any_unknown w f"
    using unknown_test [OF assms assms] by simp
  have count: "popcount (ka l AND NOT (kb l) AND kmask w) = card {i. i < w \<and> f i = One4}"
  proof -
    have "i < 64 \<and> bit (ka l AND NOT (kb l) AND kmask w) i \<longleftrightarrow> i < w \<and> f i = One4" for i
      using word_vecD(1) [OF assms] by (cases "f i") (auto simp: word_vecD(2,3) [OF assms] bit_u64_simps)
    then show ?thesis by (simp add: popcount_card)
  qed
  show ?thesis
    unfolding kw_reduce_def Let_def ones zeros unknown count spec_reduce_def of_bool4_def One_nat_def odd_iff_mod_2_eq_one
    by (cases operation) (simp_all add: scalar_vec)
qed

lemma kw_logical_vec:
  assumes "word_vec l w f" "word_vec r v g"
  shows "word_vec (kw_logical_not l) 1 (\<lambda>_. logic_not4 (spec_truth w f))"
    "word_vec (kw_logical_binary operation l r) 1 (\<lambda>_.
       (if operation = Logical_and then logic_and4 else logic_or4) (spec_truth w f) (spec_truth v g))"
  using assms by (auto simp: kw_logical_not_def kw_logical_binary_def kw_truth_spec Let_def intro!: scalar_vec)

subsection \<open>Numbers in words\<close>

lemma int_bit4_planes [simp]: "aval_of (int_bit4 k i) = bit k i" "bval_of (int_bit4 k i) = False"
  by (simp_all add: int_bit4_def)

lemma ka_val: "word_vec l w f \<Longrightarrow> \<not> any_unknown w f \<Longrightarrow> uint (ka l) = val_of w f"
proof (rule bit_eqI)
  fix i
  assume l: "word_vec l w f" and u: "\<not> any_unknown w f"
  have "bit (uint (ka l)) i \<longleftrightarrow> i < w \<and> aval_of (f i)"
    using word_vecD(1) [OF l] by (auto simp: bit_uint_iff word_vecD(2) [OF l])
  moreover have "i < w \<Longrightarrow> aval_of (f i) \<longleftrightarrow> f i = One4"
    using u by (cases "f i") (auto simp: any_unknown_def unknown4_def)
  ultimately show "bit (uint (ka l)) i = bit (val_of w f) i" by (auto simp: val_of_bit)
qed

lemma ka_signed_val:
  "word_vec l w f \<Longrightarrow> \<not> any_unknown w f \<Longrightarrow> signed_take_bit (w - 1) (uint (ka l)) = sval_of w f"
  by (simp add: ka_val sval_of_def)

lemma number_vec:
  assumes "w \<le> 64" "take_bit w (uint x) = take_bit w k"
  shows "word_vec \<lparr>ka = x AND kmask w, kb = 0\<rparr> w (int_bit4 k)"
proof (rule word_vecI)
  fix i :: nat
  assume "i < 64"
  have "i < w \<Longrightarrow> bit x i = bit k i"
    using arg_cong [OF assms(2), of "\<lambda>k. bit k i"] assms(1) by (simp add: bit_take_bit_iff bit_uint_iff)
  then show "bit (ka \<lparr>ka = x AND kmask w, kb = 0\<rparr>) i = (i < w \<and> aval_of (int_bit4 k i))"
    using \<open>i < 64\<close> by (auto simp: bit_and_iff)
qed (use assms in simp_all)

lemma take_uint_of_int: "w \<le> 64 \<Longrightarrow> take_bit w (uint (of_int k :: u64)) = take_bit w k"
  by (simp add: unsigned_of_int min_def)

lemma word_int_ops:
  "(x :: u64) + y = of_int (uint x + uint y)" "x - y = of_int (uint x - uint y)" "x * y = of_int (uint x * uint y)"
  "0 - x = of_int (- uint x)"
  by simp_all

lemma uint_and_kmask: "uint (x AND kmask w) = take_bit w (uint x)"
  by (simp add: and_kmask unsigned_take_bit_eq)

lemma sign_test:
  fixes x :: u64
  assumes "0 < w" "w \<le> 64"
  shows "x AND push_bit (w - 1) 1 \<noteq> 0 \<longleftrightarrow> signed_take_bit (w - 1) (uint x) < 0"
    "drop_bit (w - 1) x AND 1 \<noteq> 0 \<longleftrightarrow> signed_take_bit (w - 1) (uint x) < 0"
proof -
  have "w - 1 < 64" using assms by simp
  then show "x AND push_bit (w - 1) 1 \<noteq> 0 \<longleftrightarrow> signed_take_bit (w - 1) (uint x) < 0"
    using bit_iff_and_push_bit_not_eq_0 [of x "w - 1"] by (simp add: bit_uint_iff)
  have "drop_bit (w - 1) x AND 1 \<noteq> 0 \<longleftrightarrow> bit x (w - 1)"
    by (simp add: and_one_eq bit_iff_odd_drop_bit odd_iff_mod_2_eq_one)
  with \<open>w - 1 < 64\<close> show "drop_bit (w - 1) x AND 1 \<noteq> 0 \<longleftrightarrow> signed_take_bit (w - 1) (uint x) < 0"
    by (simp add: bit_uint_iff)
qed

lemma signed_take_bit_cases:
  fixes k :: int
  assumes "0 < w" "0 \<le> k" "k < 2 ^ w"
  shows "signed_take_bit (w - 1) k = (if signed_take_bit (w - 1) k < 0 then k - 2 ^ w else k)"
proof -
  obtain n where n: "w = Suc n" using assms(1) by (cases w) auto
  have "signed_take_bit n k = take_bit (Suc n) k - 2 ^ Suc n * of_bool (bit k n)"
    by (rule signed_take_bit_eq_take_bit_minus)
  moreover have "take_bit (Suc n) k = k" using assms n by (simp add: take_bit_int_eq_self_iff)
  ultimately show ?thesis using n assms by auto
qed

lemma sign_extend_eq:
  assumes "0 < w" "w \<le> 64" "uint x < 2 ^ w"
  shows "sign_extend x w = signed_take_bit (w - 1) (uint x)"
proof (cases "w = 64")
  case True
  then show ?thesis by (simp add: sign_extend_def sint_uint)
next
  case False
  define s :: u64 where "s = push_bit (w - 1) 1"
  have w: "w < 64" using False assms(2) by simp
  define n where "n = w - 1"
  have n: "w = Suc n" "n < 63" using assms(1) w by (simp_all add: n_def)
  have bs: "bit s i \<longleftrightarrow> i = n" for i using n by (auto simp: s_def n_def bit_simps)
  have us: "uint s = 2 ^ n"
    by (rule bit_eqI) (use n in \<open>auto simp: bit_uint_iff bs bit_exp_iff\<close>)
  have small: "- (2 ^ 63) \<le> k" "k < 2 ^ 63" if "k = uint x - 2 ^ w \<or> k = uint x \<and> \<not> bit x n" for k :: int
  proof -
    have p: "(2 :: int) ^ w \<le> 2 ^ 63" using w by (intro power_increasing) simp_all
    have z: "0 \<le> uint x" "(0 :: int) \<le> 2 ^ 63" by simp_all
    with that p show "- (2 ^ 63) \<le> k" by (elim disjE conjE) linarith+
    from that p z assms(3) show "k < 2 ^ 63" by (elim disjE conjE) linarith+
  qed
  have self: "sint (of_int k :: u64) = k" if "- (2 ^ 63) \<le> k" "k < 2 ^ 63" for k
    using that by (simp add: signed_of_int signed_take_bit_int_eq_self)
  have cases: "signed_take_bit n (uint x) = (if bit x n then uint x - 2 ^ w else uint x)"
    using signed_take_bit_cases [of w "uint x"] assms n by (simp add: bit_uint_iff)
  have "sint ((x XOR s) - s) = signed_take_bit n (uint x)"
  proof (cases "bit x n")
    case True
    have "(x XOR s) AND s = 0" by (rule bit_eqI) (auto simp: bit_simps bs True)
    then have "(x XOR s) + s = x" by (simp add: disjunctive_add_eq_xor xor.assoc)
    then have "(x XOR s) - s = x - (s + s)" by (metis add_diff_cancel_right' diff_diff_eq)
    also have "\<dots> = of_int (uint x - (uint s + uint s))" by simp
    also have "uint s + uint s = 2 ^ w" using us n by simp
    finally show ?thesis using self [of "uint x - 2 ^ w"] small [of "uint x - 2 ^ w"] cases True by simp
  next
    case False
    have "x AND s = 0" by (rule bit_eqI) (auto simp: bit_simps bs False)
    then have "x XOR s = x + s" by (simp add: disjunctive_add_eq_xor)
    then have "(x XOR s) - s = of_int (uint x)" by simp
    then show ?thesis using self [of "uint x"] small [of "uint x"] cases False by simp
  qed
  then show ?thesis using w by (simp add: sign_extend_def s_def n_def)
qed

subsection \<open>Comparisons and arithmetic\<close>

lemma kw_relation_vec:
  assumes "word_vec l w f" "word_vec r w g" "0 < w"
  shows "word_vec (kw_relation operation l r w) (Suc 0) (\<lambda>_.
    if any_unknown w f \<or> any_unknown w g then X4
    else of_bool4 (if is_signed_relational operation then spec_relation operation (sval_of w f) (sval_of w g)
                   else spec_relation operation (val_of w f) (val_of w g)))"
proof (cases "any_unknown w f \<or> any_unknown w g")
  case True
  with unknown_test [OF assms(1,2)] show ?thesis by (simp add: kw_relation_def Let_def scalar_vec)
next
  case False
  have w: "w \<le> 64" by (rule word_vecD(1) [OF assms(1)])
  have u: "uint (ka l) = val_of w f" "uint (ka r) = val_of w g" using False assms by (simp_all add: ka_val)
  have s: "sign_extend (ka l) w = sval_of w f" "sign_extend (ka r) w = sval_of w g"
    using sign_extend_eq [OF assms(3) w] val_of_bounds u by (simp_all add: sval_of_def)
  have "(kb l OR kb r) AND kmask w = 0" using unknown_test [OF assms(1,2)] False by blast
  then show ?thesis
    unfolding kw_relation_def Let_def s word_less_def u of_bool4_def
    using False by (auto simp: spec_relation_def intro!: scalar_vec)
qed

lemma power_loop:
  fixes base exponent :: u64
  assumes "w \<le> 64" "n \<le> 64"
  defines "P \<equiv> for_range 0 n (\<lambda>i (result, factor).
      (if drop_bit i exponent AND 1 \<noteq> 0 then (result * factor) AND kmask w else result, (factor * factor) AND kmask w))
      (1 AND kmask w, base AND kmask w)"
  shows "take_bit w (uint (fst P)) = take_bit w (uint base ^ nat (take_bit n (uint exponent)))"
proof -
  define Q where "Q i t \<longleftrightarrow> take_bit w (uint (fst t)) = take_bit w (uint base ^ nat (take_bit i (uint exponent))) \<and>
      take_bit w (uint (snd t)) = take_bit w (uint base ^ 2 ^ i)" for i and t :: "u64 \<times> u64"
  have mult: "take_bit w (uint ((x * y) AND kmask w)) = take_bit w (a * b)"
    if "take_bit w (uint x) = take_bit w a" "take_bit w (uint y) = take_bit w b" for x y :: u64 and a b :: int
  proof -
    have "take_bit w (uint ((x * y) AND kmask w)) = take_bit w (uint (of_int (uint x * uint y) :: u64))"
      by (simp add: uint_and_kmask)
    also have "\<dots> = take_bit w (uint x * uint y)" by (rule take_uint_of_int [OF assms(1)])
    also have "\<dots> = take_bit w (take_bit w (uint x) * take_bit w (uint y))" by (simp add: take_bit_mult)
    also have "\<dots> = take_bit w (a * b)" unfolding that by (simp add: take_bit_mult)
    finally show ?thesis .
  qed
  have "Q n P"
    unfolding P_def
  proof (rule for_range_invariant)
    show "Q 0 (1 AND kmask w, base AND kmask w)"
      by (simp add: Q_def uint_and_kmask)
    fix i t
    assume i: "i < n" and q: "Q i t"
    obtain result factor where t: "t = (result, factor)" by (cases t)
    have bit: "drop_bit i exponent AND 1 \<noteq> 0 \<longleftrightarrow> bit (uint exponent) i"
      using i assms(2) by (simp add: and_one_eq bit_iff_odd_drop_bit [of exponent] odd_iff_mod_2_eq_one bit_uint_iff)
    have exp: "nat (take_bit (Suc i) (uint exponent)) =
        nat (take_bit i (uint exponent)) + (if bit (uint exponent) i then 2 ^ i else 0)"
      by (simp add: take_bit_Suc_from_most nat_add_distrib nat_power_eq add.commute)
    have "take_bit w (uint ((factor * factor) AND kmask w)) = take_bit w (uint base ^ 2 ^ i * uint base ^ 2 ^ i)"
      using q by (intro mult) (simp_all add: Q_def t)
    moreover have "uint base ^ 2 ^ i * uint base ^ 2 ^ i = uint base ^ 2 ^ Suc i"
      by (simp flip: power_add mult_2)
    moreover have "take_bit w (uint ((result * factor) AND kmask w)) =
        take_bit w (uint base ^ nat (take_bit i (uint exponent)) * uint base ^ 2 ^ i)"
      using q by (intro mult) (simp_all add: Q_def t)
    ultimately show "Q (Suc i) (case t of (result, factor) \<Rightarrow>
        (if drop_bit i exponent AND 1 \<noteq> 0 then (result * factor) AND kmask w else result, (factor * factor) AND kmask w))"
      using q unfolding Q_def t bit exp by (simp add: power_add)
  qed simp
  then show ?thesis by (simp add: Q_def)
qed

lemma uint_lt_take: "uint x < 2 ^ w \<Longrightarrow> take_bit w (uint (x :: u64)) = uint x"
  by (simp add: take_bit_int_eq_self_iff)

lemma uint_kmask: "w \<le> 64 \<Longrightarrow> uint (kmask w) = 2 ^ w - 1"
proof -
  assume "w \<le> 64"
  then have "uint (kmask w) = mask w" by (intro bit_eqI) (auto simp: bit_uint_iff bit_mask_iff)
  then show ?thesis by (simp add: mask_eq_exp_minus_1)
qed

lemma kw_power_spec:
  assumes "0 < w" "w \<le> 64" "uint x < 2 ^ w" "uint y < 2 ^ w"
  shows "case spec_power w (uint x) (uint y) s of
      None \<Rightarrow> s \<and> signed_take_bit (w - 1) (uint y) < 0 \<and> x = 0
    | Some k \<Rightarrow> \<not> (s \<and> signed_take_bit (w - 1) (uint y) < 0 \<and> x = 0) \<and>
        take_bit w (uint (kw_power_known x y w w s)) = take_bit w k"
proof (cases "s \<and> signed_take_bit (w - 1) (uint y) < 0")
  case True
  have "y AND 1 \<noteq> 0 \<longleftrightarrow> bit y 0" by (simp add: and_one_eq bit_0 odd_iff_mod_2_eq_one)
  then have odd: "y AND 1 \<noteq> 0 \<longleftrightarrow> odd (uint y)" by (simp add: bit_uint_iff flip: bit_0)
  have known: "kw_power_known x y w w s = (if x = 0 then NOT 0 else if x = 1 then 1
      else if x = kmask w then (if y AND 1 \<noteq> 0 then x else 1) else 0)"
    using True sign_test(2) [OF assms(1,2), of y] by (simp add: kw_power_known_def)
  have all: "x = kmask w \<longleftrightarrow> uint x = 2 ^ w - 1" using uint_kmask [OF assms(2)] by (metis word_uint_eqI)
  have one: "x = 1 \<longleftrightarrow> uint x = 1" "x = 0 \<longleftrightarrow> uint x = 0" by (simp_all add: word_uint_eq_iff)
  have m1: "take_bit w (- 1 :: int) = 2 ^ w - 1" by (simp add: take_bit_minus_one_eq_mask mask_eq_exp_minus_1)
  have "take_bit w (2 ^ w - 1 :: int) = 2 ^ w - 1" by (simp add: take_bit_int_eq_self_iff)
  then show ?thesis
    using True m1 unfolding known odd by (simp add: spec_power_def all one)
next
  case False
  define e where "e = (if s then signed_take_bit (w - 1) (uint y) else uint y)"
  have e: "e = uint y"
    using False signed_take_bit_cases [OF assms(1) _ assms(4)] by (auto simp: e_def)
  have pos: "\<not> (s \<and> drop_bit (w - 1) y AND 1 \<noteq> 0)" using False sign_test(2) [OF assms(1,2), of y] by simp
  have "take_bit w (uint (kw_power_known x y w w s)) = take_bit w (uint x ^ nat (take_bit w (uint y)))"
    unfolding kw_power_known_def Let_def if_not_P [OF pos] by (rule power_loop [OF assms(2,2)])
  then have "take_bit w (uint (kw_power_known x y w w s)) = take_bit w (uint x ^ nat (uint y))"
    unfolding uint_lt_take [OF assms(4)] .
  moreover have "spec_power w (uint x) (uint y) s = Some (uint x ^ nat (uint y))"
    using e by (simp add: spec_power_def e_def [symmetric])
  ultimately show ?thesis using False by auto
qed

lemma magnitude:
  fixes x :: u64
  assumes "0 < w" "w \<le> 64" "uint x < 2 ^ w"
  defines "neg \<equiv> signed_take_bit (w - 1) (uint x) < 0"
  shows "uint (if neg then (0 - x) AND kmask w else x) = \<bar>signed_take_bit (w - 1) (uint x)\<bar>"
proof (cases neg)
  case True
  have "uint ((0 - x) AND kmask w) = take_bit w (uint (of_int (- uint x) :: u64))" by (simp add: uint_and_kmask)
  also have "\<dots> = take_bit w (- uint x)" by (rule take_uint_of_int [OF assms(2)])
  also have "\<dots> = take_bit w (2 ^ w - uint x)" by (simp add: take_bit_eq_mod)
  finally have m: "uint ((0 - x) AND kmask w) = take_bit w (2 ^ w - uint x)" .
  have s: "signed_take_bit (w - 1) (uint x) = uint x - 2 ^ w"
    using signed_take_bit_cases [OF assms(1) uint_ge_0 assms(3)] unfolding if_P [OF True [unfolded neg_def]] .
  have "uint x \<noteq> 0" using True by (auto simp: neg_def)
  then have "0 < uint x" using uint_ge_0 [of x] by linarith
  then have "take_bit w (2 ^ w - uint x) = 2 ^ w - uint x"
    using assms(3) by (simp add: take_bit_int_eq_self_iff)
  with m s True assms(3) show ?thesis by simp
next
  case False
  have "signed_take_bit (w - 1) (uint x) = uint x"
    using signed_take_bit_cases [OF assms(1) uint_ge_0 assms(3)] unfolding if_not_P [OF False [unfolded neg_def]] .
  with False show ?thesis by simp
qed

lemma take_bit_zero_small: "\<bar>k :: int\<bar> < 2 ^ w \<Longrightarrow> take_bit w k = 0 \<longleftrightarrow> k = 0"
proof
  assume k: "\<bar>k\<bar> < 2 ^ w" and "take_bit w k = 0"
  then have "2 ^ w dvd k" by (simp add: take_bit_eq_0_iff)
  with k show "k = 0" by (metis abs_ge_zero dvd_abs_iff zdvd_not_zless abs_0_eq order_le_less)
qed simp

lemma take_bit_neg_masked:
  assumes "w \<le> 64" "take_bit w (uint x) = take_bit w k"
  shows "take_bit w (uint ((0 - x) AND kmask w)) = take_bit w (- k)"
proof -
  have "take_bit w (uint ((0 - x) AND kmask w)) = take_bit w (uint (of_int (- uint x) :: u64))" by (simp add: uint_and_kmask)
  also have "\<dots> = take_bit w (- uint x)" by (rule take_uint_of_int [OF assms(1)])
  also have "\<dots> = take_bit w (- take_bit w (uint x))" by (simp add: take_bit_minus)
  also have "\<dots> = take_bit w (- k)" unfolding assms(2) by (simp add: take_bit_minus)
  finally show ?thesis .
qed

lemma masked_self: "x = y AND kmask w \<Longrightarrow> x AND kmask w = (x :: u64)"
  by (simp add: and_kmask)

lemma sdiv_smod_signs:
  fixes a b :: int
  assumes "b \<noteq> 0"
  shows "a sdiv b = (if (a < 0) \<noteq> (b < 0) then - (\<bar>a\<bar> div \<bar>b\<bar>) else \<bar>a\<bar> div \<bar>b\<bar>)"
    "a smod b = (if a < 0 then - (\<bar>a\<bar> mod \<bar>b\<bar>) else \<bar>a\<bar> mod \<bar>b\<bar>)"
  using assms by (auto simp: signed_divide_int_def signed_modulo_int_def sgn_if)

lemma mod_smod:
  fixes a b :: int
  assumes "b \<noteq> 0"
  shows "a mod b = (if a smod b \<noteq> 0 \<and> (a < 0) \<noteq> (b < 0) then a smod b + b else a smod b)"
proof -
  have "a smod b = 0 \<longleftrightarrow> b dvd a"
    using assms by (auto simp: signed_modulo_int_def sgn_if dvd_eq_mod_eq_0 [symmetric])
  moreover have "\<not> b dvd a \<Longrightarrow> (sgn a \<noteq> sgn b) = ((a < 0) \<noteq> (b < 0))"
    using assms by (auto simp: sgn_if)
  ultimately show ?thesis
    unfolding modulo_int_eq_signed_modulo_int [of a b] by auto
qed

lemma masked_number_vec:
  assumes "w \<le> 64" "take_bit w (uint x) = take_bit w k" "x = y AND kmask w"
  shows "word_vec \<lparr>ka = x, kb = 0\<rparr> w (int_bit4 k)"
  using number_vec [OF assms(1,2)] masked_self [OF assms(3)] by simp

lemma kw_signed_division_vec:
  fixes x y :: u64
  assumes w: "0 < w" "w \<le> 64" and x: "uint x < 2 ^ w" and y: "uint y < 2 ^ w" "y \<noteq> 0"
    and operation: "operation \<in> {Divide_signed, Remainder_signed, Modulo_signed}"
  shows "word_vec (kw_signed_division operation x y w) w (int_bit4 (the (spec_number operation w (uint x) (uint y))))"
proof -
  define sa sb where "sa = signed_take_bit (w - 1) (uint x)" and "sb = signed_take_bit (w - 1) (uint y)"
  define lm rm where "lm = (if sa < 0 then (0 - x) AND kmask w else x)" and "rm = (if sb < 0 then (0 - y) AND kmask w else y)"
  define q0 r0 where "q0 = (lm div rm) AND kmask w" and "r0 = (lm mod rm) AND kmask w"
  define q r where "q = (if (sa < 0) \<noteq> (sb < 0) then (0 - q0) AND kmask w else q0)"
    and "r = (if sa < 0 then (0 - r0) AND kmask w else r0)"
  have def: "kw_signed_division operation x y w =
      (if operation = Divide_signed then \<lparr>ka = q, kb = 0\<rparr>
       else if operation = Modulo_signed \<and> r \<noteq> 0 \<and> (sa < 0) \<noteq> (sb < 0) then \<lparr>ka = (r + y) AND kmask w, kb = 0\<rparr>
       else \<lparr>ka = r, kb = 0\<rparr>)"
    unfolding kw_signed_division_def Let_def sign_test(1) [OF w] sa_def [symmetric] sb_def [symmetric]
      lm_def [symmetric] rm_def [symmetric] q0_def [symmetric] r0_def [symmetric] q_def [symmetric] r_def [symmetric]
    using y(2) by simp
  have m: "uint lm = \<bar>sa\<bar>" "uint rm = \<bar>sb\<bar>"
    unfolding lm_def rm_def sa_def sb_def by (rule magnitude [OF w x], rule magnitude [OF w y(1)])
  have ya: "take_bit w sb = uint y"
    unfolding sb_def using w(1) uint_lt_take [OF y(1)] by (simp add: take_bit_signed_take_bit)
  have nz: "sb \<noteq> 0" "uint y \<noteq> 0" using ya y(2) by (auto simp: word_uint_eq_iff)
  have q0: "take_bit w (uint q0) = take_bit w (\<bar>sa\<bar> div \<bar>sb\<bar>)" and r0: "take_bit w (uint r0) = take_bit w (\<bar>sa\<bar> mod \<bar>sb\<bar>)"
    by (simp_all add: q0_def r0_def uint_and_kmask uint_div uint_mod m)
  have q: "take_bit w (uint q) = take_bit w (sa sdiv sb)" and r: "take_bit w (uint r) = take_bit w (sa smod sb)"
    unfolding q_def r_def sdiv_smod_signs [OF nz(1)]
    using q0 r0 take_bit_neg_masked [OF w(2) q0] take_bit_neg_masked [OF w(2) r0] by simp_all
  have masked: "\<exists>z. q = z AND kmask w" "\<exists>z. r = z AND kmask w" unfolding q_def r_def q0_def r0_def by (metis)+
  have ur: "uint r = take_bit w (sa smod sb)"
    using masked(2) r by (auto simp: uint_and_kmask)
  have "\<bar>sa smod sb\<bar> < \<bar>sb\<bar>" using nz(1) by (simp add: sdiv_smod_signs)
  also have "\<bar>sb\<bar> \<le> 2 ^ w"
    using w(1) y(1) signed_take_bit_int_greater_eq_minus_exp [of "w - 1" "uint y"] signed_take_bit_int_less_exp [of "w - 1" "uint y"]
      power_increasing [of "w - 1" w "2 :: int"] unfolding sb_def by linarith
  finally have rz: "r \<noteq> 0 \<longleftrightarrow> sa smod sb \<noteq> 0"
    using take_bit_zero_small [of "sa smod sb" w] ur by (simp add: word_uint_eq_iff)
  have "take_bit w (uint (r + y)) = take_bit w (uint (of_int (uint r + uint y) :: u64))" by simp
  also have "\<dots> = take_bit w (uint r + uint y)" by (rule take_uint_of_int [OF w(2)])
  also have "\<dots> = take_bit w (take_bit w (sa smod sb) + take_bit w sb)" unfolding ur ya ..
  also have "\<dots> = take_bit w (sa smod sb + sb)" by (simp add: take_bit_add)
  finally have sum: "word_vec \<lparr>ka = (r + y) AND kmask w, kb = 0\<rparr> w (int_bit4 (sa smod sb + sb))"
    by (rule number_vec [OF w(2)])
  have qv: "word_vec \<lparr>ka = q, kb = 0\<rparr> w (int_bit4 (sa sdiv sb))" and rv: "word_vec \<lparr>ka = r, kb = 0\<rparr> w (int_bit4 (sa smod sb))"
    using masked masked_number_vec [OF w(2) q] masked_number_vec [OF w(2) r] by blast+
  have spec: "the (spec_number operation w (uint x) (uint y)) =
      (if operation = Divide_signed then sa sdiv sb else if operation = Remainder_signed then sa smod sb else sa mod sb)"
    unfolding spec_number_def Let_def sa_def [symmetric] sb_def [symmetric] using operation nz(2) by auto
  from operation show ?thesis
    unfolding def spec mod_smod [OF nz(1), of sa] rz using sum qv rv by (elim insertE emptyE) auto
qed

lemma kw_arithmetic_known:
  assumes "0 < w" "w \<le> 64" "uint (ka l) < 2 ^ w" "uint (ka r) < 2 ^ w" "(kb l OR kb r) AND kmask w = 0" "is_arithmetic operation"
  shows "word_vec (kw_arithmetic operation l r w) w
    (case spec_number operation w (uint (ka l)) (uint (ka r)) of None \<Rightarrow> \<lambda>_. X4 | Some k \<Rightarrow> int_bit4 k)"
proof -
  define x y where "x = ka l" and "y = ka r"
  have x: "uint x < 2 ^ w" and y: "uint y < 2 ^ w" using assms(3,4) by (simp_all add: x_def y_def)
  have zero: "uint y = 0 \<longleftrightarrow> y = 0" by (simp add: word_uint_eq_iff)
  have ring: "word_vec \<lparr>ka = (x + y) AND kmask w, kb = 0\<rparr> w (int_bit4 (uint x + uint y))"
    "word_vec \<lparr>ka = (x - y) AND kmask w, kb = 0\<rparr> w (int_bit4 (uint x - uint y))"
    "word_vec \<lparr>ka = (x * y) AND kmask w, kb = 0\<rparr> w (int_bit4 (uint x * uint y))"
    unfolding word_int_ops(1-3) by (rule number_vec [OF assms(2) take_uint_of_int [OF assms(2)]])+
  have quot: "word_vec \<lparr>ka = (x div y) AND kmask w, kb = 0\<rparr> w (int_bit4 (uint x div uint y))"
    "word_vec \<lparr>ka = (x mod y) AND kmask w, kb = 0\<rparr> w (int_bit4 (uint x mod uint y))"
    by (rule number_vec [OF assms(2)], simp add: uint_div uint_mod)+
  have power: "word_vec (let negative = (s \<and> drop_bit (w - 1) y AND 1 \<noteq> 0)
        in if negative \<and> x = 0 then all_x w else \<lparr>ka = kw_power_known x y w w s AND kmask w, kb = 0\<rparr>) w
      (case spec_power w (uint x) (uint y) s of None \<Rightarrow> \<lambda>_. X4 | Some k \<Rightarrow> int_bit4 k)" for s
    using kw_power_spec [OF assms(1,2) x y, of s] assms(2)
    unfolding sign_test(2) [OF assms(1,2)] Let_def
    by (cases "spec_power w (uint x) (uint y) s") (auto intro!: number_vec)
  have signed: "y \<noteq> 0 \<Longrightarrow> operation \<in> {Divide_signed, Remainder_signed, Modulo_signed} \<Longrightarrow>
      word_vec (kw_signed_division operation x y w) w (int_bit4 (the (spec_number operation w (uint x) (uint y))))"
    by (rule kw_signed_division_vec [OF assms(1,2) x y])
  have red: "kw_arithmetic operation l r w =
      (if operation \<in> {Add_unsigned, Add_signed} then \<lparr>ka = (x + y) AND kmask w, kb = 0\<rparr>
       else if operation \<in> {Subtract_unsigned, Subtract_signed} then \<lparr>ka = (x - y) AND kmask w, kb = 0\<rparr>
       else if operation \<in> {Multiply_unsigned, Multiply_signed} then \<lparr>ka = (x * y) AND kmask w, kb = 0\<rparr>
       else if operation \<in> {Power_unsigned, Power_signed}
       then (let negative = (operation = Power_signed \<and> drop_bit (w - 1) y AND 1 \<noteq> 0)
             in if negative \<and> x = 0 then all_x w
                else \<lparr>ka = kw_power_known x y w w (operation = Power_signed) AND kmask w, kb = 0\<rparr>)
       else if operation = Divide_unsigned then (if y = 0 then all_x w else \<lparr>ka = (x div y) AND kmask w, kb = 0\<rparr>)
       else if operation = Modulo_unsigned then (if y = 0 then all_x w else \<lparr>ka = (x mod y) AND kmask w, kb = 0\<rparr>)
       else if operation \<in> {Divide_signed, Remainder_signed, Modulo_signed} then kw_signed_division operation x y w
       else all_x w)"
    using assms(5) unfolding kw_arithmetic_def Let_def x_def y_def by simp
  have sx: "w \<le> 64 \<Longrightarrow> kw_signed_division operation x 0 w = all_x w"
    by (simp add: kw_signed_division_def)
  have xy: "uint (ka l) = uint x" "uint (ka r) = uint y" by (simp_all add: x_def y_def)
  note facts = ring quot power [of True] power [of False] signed assms(2) sx
  show ?thesis
  proof (cases "y = 0")
    case True
    from assms(6) facts True show ?thesis
      unfolding is_arithmetic_def red xy by (elim insertE emptyE; hypsubst) (simp_all add: spec_number_def zero Let_def split del: if_split cong del: if_weak_cong)
  next
    case False
    from assms(6) facts False show ?thesis
      unfolding is_arithmetic_def red xy by (elim insertE emptyE; hypsubst) (simp_all add: spec_number_def zero Let_def split del: if_split cong del: if_weak_cong)
  qed
qed

lemma kw_arithmetic_vec:
  assumes "word_vec l w f" "word_vec r w g" "0 < w" "is_arithmetic operation"
  shows "word_vec (kw_arithmetic operation l r w) w (spec_arithmetic operation w f g)"
proof (cases "any_unknown w f \<or> any_unknown w g")
  case True
  with unknown_test [OF assms(1,2)] word_vecD(1) [OF assms(1)] show ?thesis
    by (simp add: kw_arithmetic_def Let_def spec_arithmetic_def)
next
  case False
  then have u: "uint (ka l) = val_of w f" "uint (ka r) = val_of w g" using assms by (simp_all add: ka_val)
  have "(kb l OR kb r) AND kmask w = 0" using unknown_test [OF assms(1,2)] False by blast
  with kw_arithmetic_known [OF assms(3) word_vecD(1) [OF assms(1)] _ _ _ assms(4), of l r] False val_of_bounds
  show ?thesis unfolding u spec_arithmetic_def by simp
qed

lemma equality_tests:
  assumes "word_vec l w f" "word_vec r w g"
  defines "m \<equiv> kmask w" and "unknown \<equiv> (kb l OR kb r) AND kmask w"
  shows "ka l = ka r \<and> kb l = kb r \<longleftrightarrow> (\<forall>i<w. f i = g i)"
    "((ka l XOR ka r) OR (kb l XOR kb r)) AND m AND NOT (((NOT (ka l) AND kb l) OR (NOT (ka r) AND kb r)) AND m) \<noteq> 0 \<longleftrightarrow>
      (\<exists>i<w. f i \<noteq> Z4 \<and> g i \<noteq> Z4 \<and> f i \<noteq> g i)"
    "((ka l XOR ka r) OR (kb l XOR kb r)) AND m AND NOT unknown \<noteq> 0 \<longleftrightarrow>
      (\<exists>i<w. \<not> unknown4 (f i) \<and> \<not> unknown4 (g i) \<and> f i \<noteq> g i)"
    "(ka l XOR ka r) AND (NOT (kb r) AND m) AND NOT (kb l) \<noteq> 0 \<longleftrightarrow> (\<exists>i<w. \<not> unknown4 (f i) \<and> \<not> unknown4 (g i) \<and> f i \<noteq> g i)"
    "kb l AND (NOT (kb r) AND m) \<noteq> 0 \<longleftrightarrow> (\<exists>i<w. unknown4 (f i) \<and> \<not> unknown4 (g i))"
    "(ka l XOR ka r) AND (NOT (kb r) AND m) \<noteq> 0 \<longleftrightarrow> (\<exists>i<w. \<not> unknown4 (g i) \<and> aval_of (f i) \<noteq> aval_of (g i))"
proof -
  note bits = word_vecD(2,3) [OF assms(1)] word_vecD(2,3) [OF assms(2)]
  have w: "w \<le> 64" by (rule word_vecD(1) [OF assms(1)])
  have "ka l = ka r \<and> kb l = kb r \<longleftrightarrow> (\<forall>i. bit (ka l) i = bit (ka r) i \<and> bit (kb l) i = bit (kb r) i)"
    by (auto intro: bit_eqI)
  then show "ka l = ka r \<and> kb l = kb r \<longleftrightarrow> (\<forall>i<w. f i = g i)" unfolding bits eq4_bits by blast
  show "((ka l XOR ka r) OR (kb l XOR kb r)) AND m AND NOT (((NOT (ka l) AND kb l) OR (NOT (ka r) AND kb r)) AND m) \<noteq> 0 \<longleftrightarrow>
      (\<exists>i<w. f i \<noteq> Z4 \<and> g i \<noteq> Z4 \<and> f i \<noteq> g i)"
    by (rule nonzero_iff [OF w]) (auto simp: bits m_def bit_u64_simps eq4_bits)
  show "((ka l XOR ka r) OR (kb l XOR kb r)) AND m AND NOT unknown \<noteq> 0 \<longleftrightarrow>
      (\<exists>i<w. \<not> unknown4 (f i) \<and> \<not> unknown4 (g i) \<and> f i \<noteq> g i)"
    by (rule nonzero_iff [OF w]) (auto simp: bits m_def unknown_def bit_u64_simps eq4_bits unknown4_bval)
  show "(ka l XOR ka r) AND (NOT (kb r) AND m) AND NOT (kb l) \<noteq> 0 \<longleftrightarrow> (\<exists>i<w. \<not> unknown4 (f i) \<and> \<not> unknown4 (g i) \<and> f i \<noteq> g i)"
    by (rule nonzero_iff [OF w]) (auto simp: bits m_def bit_u64_simps eq4_bits unknown4_bval)
  show "kb l AND (NOT (kb r) AND m) \<noteq> 0 \<longleftrightarrow> (\<exists>i<w. unknown4 (f i) \<and> \<not> unknown4 (g i))"
    by (rule nonzero_iff [OF w]) (auto simp: bits m_def bit_u64_simps unknown4_bval)
  show "(ka l XOR ka r) AND (NOT (kb r) AND m) \<noteq> 0 \<longleftrightarrow> (\<exists>i<w. \<not> unknown4 (g i) \<and> aval_of (f i) \<noteq> aval_of (g i))"
    by (rule nonzero_iff [OF w]) (auto simp: bits m_def bit_u64_simps unknown4_bval)
qed

lemma kw_equality_vec:
  assumes "word_vec l w f" "word_vec r w g" "operation \<in> {Equal, Not_equal, Case_equal, Casez_equal, Casex_equal, Vhdl_match_equal}"
  shows "word_vec (kw_binary operation l r w) (Suc 0) (spec_binary operation w f g)"
proof -
  note tests = differ_test [OF assms(1,2)] unknown_test [OF assms(1,2)] equality_tests [OF assms(1,2)]
  have casez: "((ka l XOR ka r) OR (kb l XOR kb r)) AND kmask w AND NOT (((NOT (ka l) AND kb l) OR (NOT (ka r) AND kb r)) AND kmask w) = 0 \<longleftrightarrow>
      (\<forall>i<w. f i = Z4 \<or> g i = Z4 \<or> f i = g i)"
    using equality_tests(2) [OF assms(1,2)] by blast
  have casex: "((ka l XOR ka r) OR (kb l XOR kb r)) AND kmask w AND NOT ((kb l OR kb r) AND kmask w) = 0 \<longleftrightarrow>
      (\<forall>i<w. unknown4 (f i) \<or> unknown4 (g i) \<or> f i = g i)"
    using equality_tests(3) [OF assms(1,2)] by blast
  have match: "(ka l XOR ka r) AND NOT (kb l OR kb r) AND kmask w \<noteq> 0 \<longleftrightarrow> (\<exists>i<w. \<not> unknown4 (f i) \<and> \<not> unknown4 (g i) \<and> f i \<noteq> g i)"
    by (rule nonzero_iff [OF word_vecD(1) [OF assms(1)]])
       (auto simp: word_vecD(2,3) [OF assms(1)] word_vecD(2,3) [OF assms(2)] bit_u64_simps eq4_bits unknown4_bval)
  from assms(3) show ?thesis
  proof (elim insertE emptyE; hypsubst)
    show "word_vec (kw_binary Equal l r w) (Suc 0) (spec_binary Equal w f g)"
      unfolding kw_binary_def Let_def binary_operator.case tests spec_binary_def spec_equal_def by (simp add: scalar_vec)
    show "word_vec (kw_binary Not_equal l r w) (Suc 0) (spec_binary Not_equal w f g)"
      unfolding kw_binary_def Let_def binary_operator.case tests spec_binary_def spec_equal_def by (simp add: scalar_vec logic_not4_def)
    show "word_vec (kw_binary Case_equal l r w) (Suc 0) (spec_binary Case_equal w f g)"
      unfolding kw_binary_def Let_def binary_operator.case tests spec_binary_def of_bool4_def by (simp add: scalar_vec)
    show "word_vec (kw_binary Casez_equal l r w) (Suc 0) (spec_binary Casez_equal w f g)"
      unfolding kw_binary_def Let_def binary_operator.case casez spec_binary_def of_bool4_def by (simp add: scalar_vec)
    show "word_vec (kw_binary Casex_equal l r w) (Suc 0) (spec_binary Casex_equal w f g)"
      unfolding kw_binary_def Let_def binary_operator.case casex spec_binary_def of_bool4_def by (simp add: scalar_vec)
    show "word_vec (kw_binary Vhdl_match_equal l r w) (Suc 0) (spec_binary Vhdl_match_equal w f g)"
      unfolding kw_binary_def Let_def binary_operator.case tests match spec_binary_def spec_equal_def by (simp add: scalar_vec)
  qed
qed

lemma kw_wildcard_vec:
  assumes "word_vec l w f" "word_vec r w g"
  shows "word_vec (kw_binary Wildcard_equal l r w) (Suc 0) (spec_binary Wildcard_equal w f g)"
proof -
  note tests = equality_tests(4,5) [OF assms]
  have "(ka l XOR ka r) AND (NOT (kb r) AND kmask w) = 0"
    if "\<not> (\<exists>i<w. \<not> unknown4 (f i) \<and> \<not> unknown4 (g i) \<and> f i \<noteq> g i)" "\<not> (\<exists>i<w. unknown4 (f i) \<and> \<not> unknown4 (g i))"
    using equality_tests(6) [OF assms] that by (metis unknown4_bval)
  then show ?thesis
    unfolding kw_binary_def Let_def binary_operator.case tests spec_binary_def spec_wildcard_def
    by (auto simp: scalar_vec)
qed

lemma kw_binary_vec:
  assumes "word_vec l w f" "word_vec r w g" "0 < w"
  shows "word_vec (kw_binary operation l r w) (result_width operation w) (spec_binary operation w f g)"
proof -
  consider "operation = Bit_and" | "operation = Bit_or" | "operation = Bit_xor"
    | (equality) "operation \<in> {Equal, Not_equal, Case_equal, Casez_equal, Casex_equal, Vhdl_match_equal}"
    | (wildcard) "operation = Wildcard_equal" | (relational) "is_relational operation" | (arithmetic) "is_arithmetic operation"
    by (cases operation) (simp_all add: is_relational_def is_arithmetic_def)
  then show ?thesis
  proof cases
    case equality
    then have "result_width operation w = Suc 0" by (auto simp: result_width_def is_comparison_def)
    with kw_equality_vec [OF assms(1,2) equality] show ?thesis by simp
  next
    case wildcard
    with kw_wildcard_vec [OF assms(1,2)] show ?thesis by (simp add: result_width_def is_comparison_def)
  next
    case relational
    then have "kw_binary operation l r w = kw_relation operation l r w" "result_width operation w = Suc 0"
      "spec_binary operation w f g = (\<lambda>_. if any_unknown w f \<or> any_unknown w g then X4
        else of_bool4 (if is_signed_relational operation then spec_relation operation (sval_of w f) (sval_of w g)
                   else spec_relation operation (val_of w f) (val_of w g)))"
      by (cases operation; simp add: is_relational_def kw_binary_def Let_def result_width_def is_comparison_def spec_binary_def)+
    with kw_relation_vec [OF assms] show ?thesis by simp
  next
    case arithmetic
    then have "kw_binary operation l r w = kw_arithmetic operation l r w" "result_width operation w = w"
      "spec_binary operation w f g = spec_arithmetic operation w f g"
      by (cases operation; simp add: is_relational_def is_arithmetic_def kw_binary_def Let_def result_width_def is_comparison_def spec_binary_def)+
    with kw_arithmetic_vec [OF assms arithmetic] show ?thesis by simp
  qed (use kw_and_vec [OF assms(1,2)] kw_or_vec [OF assms(1,2)] kw_xor_vec [OF assms(1,2)] in
        \<open>simp_all add: kw_binary_def Let_def result_width_def is_comparison_def spec_binary_def\<close>)
qed

subsection \<open>Shifts\<close>

lemma and_kmask_vec:
  assumes "word_vec v w f"
  shows "\<lparr>ka = ka v AND kmask w, kb = kb v AND kmask w\<rparr> = v"
proof -
  have "ka v AND kmask w = ka v" "kb v AND kmask w = kb v"
    by (rule bit_eqI, auto simp: bit_and_iff word_vecD(2,3) [OF assms] intro: less_le_trans [OF _ word_vecD(1) [OF assms]])+
  then show ?thesis by simp
qed

lemma fill_vec:
  fixes e :: logic4
  assumes "w \<le> 64"
  shows "word_vec \<lparr>ka = if ka (from_logic4 e) \<noteq> 0 then kmask w else 0, kb = if kb (from_logic4 e) \<noteq> 0 then kmask w else 0\<rparr> w (\<lambda>_. e)"
  by (rule word_vecI [OF assms]) (cases e; simp add: from_logic4_def)+

lemma kw_rotate_bits:
  assumes "w \<le> 64" "0 < k" "k < w" "\<And>i. bit x i = (i < w \<and> P i)"
  shows "bit (kw_rotate Rotate_left x w k) i \<longleftrightarrow> i < w \<and> P ((i + (w - k)) mod w)"
    "operation \<noteq> Rotate_left \<Longrightarrow> bit (kw_rotate operation x w k) i \<longleftrightarrow> i < w \<and> P ((i + k) mod w)"
proof -
  have wrap: "(i + (w - k)) mod w = (if i < k then i + (w - k) else i - k)" if "i < w"
  proof (cases "i < k")
    case False
    then have "i + (w - k) = (i - k) + w" using assms(3) by simp
    then show ?thesis using False that by (simp only: mod_add_self2) simp
  qed (use assms that in simp)
  have wrap': "(i + k) mod w = (if i + k < w then i + k else i + k - w)" if "i < w"
    using that assms(3) by (simp add: mod_if)
  show "bit (kw_rotate Rotate_left x w k) i \<longleftrightarrow> i < w \<and> P ((i + (w - k)) mod w)"
  proof (cases "i < w")
    case True
    then have "i < 64" using assms(1) by simp
    with True show ?thesis unfolding wrap [OF True]
      using assms(2,3) by (auto simp: kw_rotate_def bit_and_iff bit_or_iff bit_push_bit_iff bit_drop_bit_eq assms(4) add.commute)
  qed (simp add: kw_rotate_def bit_and_iff)
  assume "operation \<noteq> Rotate_left"
  then show "bit (kw_rotate operation x w k) i \<longleftrightarrow> i < w \<and> P ((i + k) mod w)"
  proof (cases "i < w")
    case True
    then have "i < 64" using assms(1) by simp
    with True \<open>operation \<noteq> Rotate_left\<close> show ?thesis unfolding wrap' [OF True]
      using assms(2,3) by (auto simp: kw_rotate_def bit_and_iff bit_or_iff bit_push_bit_iff bit_drop_bit_eq assms(4) add.commute)
  qed (simp add: kw_rotate_def bit_and_iff)
qed

lemma kw_shift_known_vec:
  assumes v: "word_vec v w f" and "0 < w"
  shows "word_vec (kw_shift_known operation v w magnitude) w (spec_shift Zero4 operation w f (unat magnitude))"
proof -
  have w: "w \<le> 64" by (rule word_vecD(1) [OF v])
  note bits = word_vecD(2,3) [OF v]
  define k where "k = unat magnitude"
  define e where "e = (if operation = Arithmetic_right then f (w - 1) else if operation = Arithmetic_left then f 0 else Zero4)"
  define fill where "fill = \<lparr>ka = if ka (from_logic4 e) \<noteq> 0 then kmask w else 0, kb = if kb (from_logic4 e) \<noteq> 0 then kmask w else 0\<rparr>"
  have fill: "word_vec fill w (\<lambda>_. e)" unfolding fill_def by (rule fill_vec [OF w])
  note fbits = word_vecD(2,3) [OF fill]
  have e: "(if operation = Arithmetic_right then kbit v (w - 1) else if operation = Arithmetic_left then kbit v 0 else Zero4) = e"
    using word_vec_kbit [OF v] assms(2) by (simp add: e_def)
  have unchanged: "word_vec \<lparr>ka = ka v AND kmask w, kb = kb v AND kmask w\<rparr> w f" using and_kmask_vec [OF v] v by simp
  have def: "kw_shift_known operation v w magnitude =
    (if operation = Rotate_left \<or> operation = Rotate_right
     then (if k mod w = 0 then \<lparr>ka = ka v AND kmask w, kb = kb v AND kmask w\<rparr>
           else \<lparr>ka = kw_rotate operation (ka v) w (k mod w), kb = kw_rotate operation (kb v) w (k mod w)\<rparr>)
     else if k \<ge> w then fill
     else if k = 0 then \<lparr>ka = ka v AND kmask w, kb = kb v AND kmask w\<rparr>
     else if operation = Logical_left \<or> operation = Arithmetic_left
     then \<lparr>ka = (push_bit k (ka v) AND kmask w) OR (ka fill AND kmask k), kb = (push_bit k (kb v) AND kmask w) OR (kb fill AND kmask k)\<rparr>
     else \<lparr>ka = (drop_bit k (ka v) AND kmask (w - k)) OR (ka fill AND (kmask w AND NOT (kmask (w - k)))),
           kb = (drop_bit k (kb v) AND kmask (w - k)) OR (kb fill AND (kmask w AND NOT (kmask (w - k))))\<rparr>)"
    unfolding kw_shift_known_def Let_def e fill_def [symmetric] k_def [symmetric] ..
  consider (rotate) "operation = Rotate_left \<or> operation = Rotate_right"
    | (left) "operation = Logical_left \<or> operation = Arithmetic_left"
    | (right) "operation = Logical_right \<or> operation = Arithmetic_right" by (cases operation) auto
  then have "word_vec (kw_shift_known operation v w magnitude) w (spec_shift Zero4 operation w f k)"
  proof cases
    case rotate
    then show ?thesis
    proof (cases "k mod w = 0")
      case True
      then have "spec_shift Zero4 operation w f k i = f i" if "i < w" for i
        using rotate that by (auto simp: spec_shift_def mod_add_right_eq [of i k, symmetric] simp del: mod_add_right_eq)
      with rotate True unchanged show ?thesis unfolding def by (auto intro: word_vec_cong)
    next
      case False
      then have k: "0 < k mod w" "k mod w < w" using assms(2) by simp_all
      have "(i + k mod w) mod w = (i + k) mod w" for i by (simp add: mod_add_right_eq)
      then show ?thesis
        using rotate False unfolding def
        by (intro word_vecI [OF w]; elim disjE) (simp_all add: kw_rotate_bits [OF w k] bits spec_shift_def)
    qed
  next
    case left
    have ne: "\<not> (operation = Rotate_left \<or> operation = Rotate_right)" using left by auto
    have spec: "spec_shift Zero4 operation w f k i = (if i < k then e else f (i - k))" for i
      using left by (auto simp: spec_shift_def e_def)
    show ?thesis
    proof (cases "k \<ge> w")
      case True
      then show ?thesis unfolding def if_not_P [OF ne] using fill by (auto simp: spec intro: word_vec_cong)
    next
      case False
      show ?thesis
      proof (cases "k = 0")
        case True
        with False have "kw_shift_known operation v w magnitude = v"
          unfolding def if_not_P [OF ne] using and_kmask_vec [OF v] by simp
        moreover have "word_vec v w (spec_shift Zero4 operation w f k)"
          by (rule word_vec_cong [OF v]) (unfold spec, simp add: True)
        ultimately show ?thesis by simp
      next
        case nz: False
        with False left show ?thesis unfolding def if_not_P [OF ne] using w
          by (intro word_vecI [OF w]) (auto simp: spec fbits bits bit_u64_simps)
      qed
    qed
  next
    case right
    have ne: "\<not> (operation = Rotate_left \<or> operation = Rotate_right)" "\<not> (operation = Logical_left \<or> operation = Arithmetic_left)"
      using right by auto
    have spec: "spec_shift Zero4 operation w f k i = (if i + k < w then f (i + k) else e)" for i
      using right by (auto simp: spec_shift_def e_def)
    show ?thesis
    proof (cases "k \<ge> w")
      case True
      then show ?thesis unfolding def if_not_P [OF ne(1)] using fill by (auto simp: spec intro: word_vec_cong)
    next
      case False
      show ?thesis
      proof (cases "k = 0")
        case True
        with False have "kw_shift_known operation v w magnitude = v"
          unfolding def if_not_P [OF ne(1)] using and_kmask_vec [OF v] by simp
        moreover have "word_vec v w (spec_shift Zero4 operation w f k)"
          by (rule word_vec_cong [OF v]) (unfold spec, simp add: True)
        ultimately show ?thesis by simp
      next
        case nz: False
        with False show ?thesis unfolding def if_not_P [OF ne(1)] if_not_P [OF ne(2)] using w
          by (intro word_vecI [OF w]) (auto simp: spec fbits bits bit_u64_simps add.commute)
      qed
    qed
  qed
  then show ?thesis by (simp add: k_def)
qed


lemma amount_magnitude:
  assumes "word_vec a aw h" "\<not> any_unknown aw h"
  shows "ka a AND kmask aw = ka a" "unat (ka a) = nat (val_of aw h)"
proof -
  show "ka a AND kmask aw = ka a" using and_kmask_vec [OF assms(1)] by (metis kernel_word.select_convs(1))
  show "unat (ka a) = nat (val_of aw h)" using ka_val [OF assms] by (metis nat_uint_eq)
qed

lemma kw_reverse_spec: "kw_reverse operation = spec_reverse operation"
  by (cases operation) simp_all

lemma kw_shift_vec:
  assumes "word_vec v w f" "0 < w" "word_vec a aw h" "0 < aw"
  shows "word_vec (kw_shift operation v w a aw s) w
    (if any_unknown aw h then \<lambda>_. X4
     else spec_shift_by Zero4 operation w f (if s then sval_of aw h else val_of aw h))"
proof (cases "any_unknown aw h")
  case True
  have "kb a AND kmask aw \<noteq> 0" using unknown_test [OF assms(3,3)] True by simp
  with True word_vecD(1) [OF assms(1)] show ?thesis by (simp add: kw_shift_def)
next
  case False
  have w: "aw \<le> 64" by (rule word_vecD(1) [OF assms(3)])
  have known: "kb a AND kmask aw = 0" using unknown_test [OF assms(3,3)] False by simp
  note am = amount_magnitude [OF assms(3) False]
  have u: "uint (ka a) = val_of aw h" by (rule ka_val [OF assms(3) False])
  then have bound: "uint (ka a) < 2 ^ aw" using val_of_bounds by simp
  define neg where "neg \<longleftrightarrow> s \<and> sval_of aw h < 0"
  have sign: "s \<and> drop_bit (aw - 1) (ka a) AND 1 \<noteq> 0 \<longleftrightarrow> neg"
    unfolding sign_test(2) [OF assms(4) w] neg_def u sval_of_def ..
  have "uint (if sval_of aw h < 0 then (0 - ka a) AND kmask aw else ka a) = \<bar>sval_of aw h\<bar>"
    using magnitude [OF assms(4) w bound] unfolding u sval_of_def .
  then have "uint ((0 - ka a) AND kmask aw) = - sval_of aw h" if neg
    using that unfolding neg_def by (simp split: if_splits)
  then have mag: "unat ((0 - ka a) AND kmask aw) = nat (- sval_of aw h)" if neg
    using that by (metis nat_uint_eq)
  have pos: "\<not> neg \<Longrightarrow> (if s then sval_of aw h else val_of aw h) = val_of aw h"
    using sval_of_eq [OF assms(4), of h] sval_of_neg [OF assms(4), of h] by (auto simp: neg_def)
  have def: "kw_shift operation v w a aw s = (if neg then kw_shift_known (kw_reverse operation) v w ((0 - ka a) AND kmask aw)
      else kw_shift_known operation v w (ka a))"
    unfolding kw_shift_def Let_def am(1) sign using known by simp
  show ?thesis
  proof (cases neg)
    case True
    then have "s" "sval_of aw h < 0" by (simp_all add: neg_def)
    with kw_shift_known_vec [OF assms(1,2), of "kw_reverse operation" "(0 - ka a) AND kmask aw"] mag [OF True] True False
    show ?thesis unfolding def kw_reverse_spec by (simp add: spec_shift_by_def)
  next
    case neg: False
    have "\<not> val_of aw h < 0" using val_of_bounds(1) [of aw h] by simp
    with kw_shift_known_vec [OF assms(1,2), of operation "ka a"] neg False am(2)
    show ?thesis unfolding def pos [OF neg] by (simp add: spec_shift_by_def)
  qed
qed

subsection \<open>Ranges and selection\<close>

lemma kw_extract_vec:
  assumes "word_vec v w f" "offset + n \<le> w"
  shows "word_vec (kw_extract v offset n) n (\<lambda>i. f (offset + i))"
proof (rule word_vecI)
  have w: "w \<le> 64" by (rule word_vecD(1) [OF assms(1)])
  then show "n \<le> 64" using assms(2) by simp
  fix i :: nat
  assume "i < 64"
  then show "bit (ka (kw_extract v offset n)) i = (i < n \<and> aval_of (f (offset + i)))"
    "bit (kb (kw_extract v offset n)) i = (i < n \<and> bval_of (f (offset + i)))"
    using assms(2) w
    by (auto simp: kw_extract_def Let_def bit_u64_simps word_vecD(2,3) [OF assms(1)])
qed

lemma kw_insert_vec:
  assumes "word_vec t w f" "word_vec v n g" "offset + n \<le> w"
  shows "word_vec (kw_insert t v offset n) w (\<lambda>i. if offset \<le> i \<and> i < offset + n then g (i - offset) else f i)"
proof (rule word_vecI)
  show w: "w \<le> 64" by (rule word_vecD(1) [OF assms(1)])
  fix i :: nat
  assume "i < 64"
  then show "bit (ka (kw_insert t v offset n)) i = (i < w \<and> aval_of (if offset \<le> i \<and> i < offset + n then g (i - offset) else f i))"
    "bit (kb (kw_insert t v offset n)) i = (i < w \<and> bval_of (if offset \<le> i \<and> i < offset + n then g (i - offset) else f i))"
    using assms(3) w
    by (auto simp: kw_insert_def Let_def bit_u64_simps word_vecD(2,3) [OF assms(1)] word_vecD(2,3) [OF assms(2)])
qed

lemma kw_conditional_vec:
  assumes "word_vec c 1 (\<lambda>_. e)" "word_vec t w f" "word_vec u w g"
  shows "word_vec (kw_conditional c t u w) w (spec_conditional e f g)"
proof -
  have sel: "kbit c 0 = e" using word_vec_kbit [OF assms(1)] by simp
  show ?thesis
  proof (cases "e = One4 \<or> e = Zero4")
    case True
    then show ?thesis using assms(2,3) by (auto simp: kw_conditional_def sel spec_conditional_def [abs_def])
  next
    case False
    show ?thesis
    proof (rule word_vecI)
      show w: "w \<le> 64" by (rule word_vecD(1) [OF assms(2)])
      fix i :: nat
      assume "i < 64"
      with False show "bit (ka (kw_conditional c t u w)) i = (i < w \<and> aval_of (spec_conditional e f g i))"
        "bit (kb (kw_conditional c t u w)) i = (i < w \<and> bval_of (spec_conditional e f g i))"
        by (auto simp: kw_conditional_def Let_def sel spec_conditional_def bit_u64_simps unknown4_bval eq4_bits
            word_vecD(2,3) [OF assms(2)] word_vecD(2,3) [OF assms(3)])
    qed
  qed
qed



text \<open>
  C17: Shifts and rotations of the word kernel: the amount is read as signed or unsigned, a negative
  one shifts the other way, an amount with an unknown bit gives all X, amounts beyond the width
  leave the fill value, and rotations go modulo the width.
\<close>

theorem kernel_shift_spec:
  assumes "word_vec v w f" "0 < w" "word_vec a aw h" "0 < aw"
  shows "word_vec (kw_shift operation v w a aw s) w
    (if any_unknown aw h then \<lambda>_. X4
     else spec_shift_by Zero4 operation w f (if s then sval_of aw h else val_of aw h))"
  by (rule kw_shift_vec [OF assms])

theorem kernel_shift_spec_witness:
  "word_vec (kw_shift Rotate_left \<lparr>ka = 9, kb = 0\<rparr> 4 \<lparr>ka = 2, kb = 0\<rparr> 4 True) 4
     (spec_shift_by Zero4 Rotate_left 4 (int_bit4 9) (sval_of 4 (int_bit4 2)))"
proof -
  have "word_vec \<lparr>ka = 9 AND kmask 4, kb = 0\<rparr> 4 (int_bit4 9)" "word_vec \<lparr>ka = 2 AND kmask 4, kb = 0\<rparr> 4 (int_bit4 2)"
    by (rule number_vec; simp)+
  then show ?thesis
    using kernel_shift_spec [of "\<lparr>ka = 9, kb = 0\<rparr>" 4 "int_bit4 9" "\<lparr>ka = 2, kb = 0\<rparr>" 4 "int_bit4 2" Rotate_left True]
    by (simp add: kmask_eq_mask mask_eq_exp_minus_1 any_unknown_def)
qed

end
