(* ===== verification/Simir_Logic.thy ===== *)
theory Simir_Logic
  imports Kernel_Word
begin

text \<open>
  The value functions of \<^verbatim>\<open>src/runtime/simir_logic.cpp\<close> on packed values of any width:
  negation, truth values, reductions, counts, shifts, ranges and concatenation.  Truth values,
  reductions and counts are proved to be the specified ones, and concatenation to join the elements
  of its operands.

  Element reads inside the loops are at indices below the width, so the range check of
  \<^verbatim>\<open>get\<close> and \<^verbatim>\<open>set\<close> passes and the unchecked accessors are used.  The shift of a
  value of width zero divides by zero in the source and is outside the model's scope: the theorems
  assume a positive width.
\<close>

text \<open>A counting loop that may return early: \<open>Inl\<close> is the value returned.\<close>

definition for_return :: "nat \<Rightarrow> nat \<Rightarrow> (nat \<Rightarrow> 's \<Rightarrow> 'r + 's) \<Rightarrow> 's \<Rightarrow> 'r + 's" where
  "for_return lo hi body s = fold (\<lambda>i r. case r of Inl x \<Rightarrow> Inl x | Inr t \<Rightarrow> body i t) [lo..<hi] (Inr s)"

subsection \<open>Negation and truth\<close>

definition unary_not :: "packed_logic4 \<Rightarrow> packed_logic4 result" where
  "unary_not source = (case known_bits source of
       Some bits \<Rightarrow>
         let width = width4 source; inverted = NOT bits AND kmask width
         in if is_logic9 source then logic9_known inverted width else from_aval_bval width inverted 0
     | None \<Rightarrow>
         let result = make_packed (width4 source) X4;
             result = (if is_logic9 source then fill9 result U9 else result)
         in Inr (for_range 0 (width4 source) (\<lambda>index result.
              if is_logic9 source then put9 result index (logic_not9 (elem9 source index))
              else put4 result index (logic_not4 (elem4 source index))) result))"

definition truth_value :: "packed_logic4 \<Rightarrow> logic4" where
  "truth_value source = (case for_return 0 (width4 source) (\<lambda>index has_unknown.
         let value = elem4 source index
         in if value = One4 then Inl One4 else Inr (has_unknown \<or> value = X4 \<or> value = Z4)) False of
       Inl r \<Rightarrow> r
     | Inr has_unknown \<Rightarrow> if has_unknown then X4 else Zero4)"

definition logical_not :: "packed_logic4 \<Rightarrow> packed_logic4" where
  "logical_not source = make_packed 1 (logic_not4 (truth_value source))"

definition logical_binary :: "logical_binary_operator \<Rightarrow> packed_logic4 \<Rightarrow> packed_logic4 \<Rightarrow> packed_logic4" where
  "logical_binary operation lhs rhs =
     (let left = truth_value lhs; right = truth_value rhs
      in make_packed 1 (if operation = Logical_and then logic_and4 left right else logic_or4 left right))"

subsection \<open>Reductions and counts\<close>

definition reduce_one_count :: "packed_logic4 \<Rightarrow> nat" where
  "reduce_one_count source = for_range 0 (width4 source) (\<lambda>index one_count.
     if one_count < 2 \<and> elem4 source index = One4 then one_count + 1 else one_count) 0"

definition reduce_value :: "reduction_operator \<Rightarrow> packed_logic4 \<Rightarrow> packed_logic4" where
  "reduce_value operation source =
     (if operation = One_hot \<or> operation = One_hot_or_zero
      then (let one_count = reduce_one_count source;
                matched = (if operation = One_hot then one_count = 1 else one_count \<le> 1)
            in make_packed 1 (if matched then One4 else Zero4))
      else make_packed 1 (for_range 0 (width4 source) (\<lambda>index result.
             if operation = Reduce_and then logic_and4 result (elem4 source index)
             else if operation = Reduce_or then logic_or4 result (elem4 source index)
             else logic_xor4 result (elem4 source index))
             (if operation = Reduce_and then One4 else Zero4)))"

definition count_result :: "u32 \<Rightarrow> packed_logic4" where
  "count_result tally = for_range 0 32 (\<lambda>index result.
     put4 result index (if drop_bit index tally AND 1 \<noteq> 0 then One4 else Zero4)) (make_packed 32 Zero4)"

definition count_ones_value :: "packed_logic4 \<Rightarrow> packed_logic4" where
  "count_ones_value source = count_result (for_range 0 (width4 source) (\<lambda>index count.
     if elem4 source index = One4 then count + 1 else count) 0)"

definition count_bits_value :: "packed_logic4 \<Rightarrow> 8 word \<Rightarrow> packed_logic4" where
  "count_bits_value source state_mask = count_result (for_range 0 (width4 source) (\<lambda>index count.
     let state = logic4_code (elem4 source index)
     in if state_mask AND push_bit state 1 \<noteq> 0 then count + 1 else count) 0)"

subsection \<open>Shifts\<close>

fun reverse_shift :: "shift_operator \<Rightarrow> shift_operator" where
  "reverse_shift Logical_left = Logical_right"
| "reverse_shift Logical_right = Logical_left"
| "reverse_shift Arithmetic_left = Arithmetic_right"
| "reverse_shift Arithmetic_right = Arithmetic_left"
| "reverse_shift Rotate_left = Rotate_right"
| "reverse_shift Rotate_right = Rotate_left"

definition shift_word_path :: "shift_operator \<Rightarrow> packed_logic4 \<Rightarrow> packed_logic4 \<Rightarrow> bool \<Rightarrow> packed_logic4 result option" where
  "shift_word_path operation value amount_value signed_amount =
     (if width4 value \<noteq> 0 \<and> width4 value \<le> 64 \<and> width4 amount_value \<noteq> 0 \<and> width4 amount_value \<le> 64
         \<and> \<not> is_logic9 amount_value
      then
        let width = width4 value;
            amount_width = width4 amount_value;
            amount = \<lparr>ka = front (aval_words amount_value), kb = front (bval_words amount_value)\<rparr>
        in if \<not> is_logic9 value
           then (let result = kw_shift operation \<lparr>ka = front (aval_words value), kb = front (bval_words value)\<rparr>
                       width amount amount_width signed_amount
                 in Some (from_aval_bval width (ka result) (kb result)))
           else case known_bits value of
                  None \<Rightarrow> None
                | Some bits \<Rightarrow>
                    if kb amount AND kmask amount_width = 0
                    then (let result = kw_shift operation \<lparr>ka = bits, kb = 0\<rparr> width amount amount_width signed_amount
                          in Some (logic9_known (ka result) width))
                    else None
      else None)"

definition shift_negate :: "packed_logic4 \<Rightarrow> packed_logic4" where
  "shift_negate amount_value =
     fst (for_range 0 (width4 amount_value) (\<lambda>index (magnitude, carry).
       let inverted = (elem4 amount_value index = Zero4)
       in (put4 magnitude index (if inverted \<noteq> carry then One4 else Zero4), inverted \<and> carry))
       (make_packed (width4 amount_value) Zero4, True))"

definition shift_amount :: "bool \<Rightarrow> nat \<Rightarrow> packed_logic4 \<Rightarrow> nat" where
  "shift_amount rotating width magnitude =
     (case for_return 0 (width4 magnitude) (\<lambda>index (amount, rotate_bit).
         let bit = elem4 magnitude index
         in if rotating
            then Inr (if bit = One4
                      then (if amount \<ge> width - rotate_bit then amount - (width - rotate_bit) else amount + rotate_bit)
                      else amount,
                      if rotate_bit \<ge> width - rotate_bit then rotate_bit - (width - rotate_bit) else rotate_bit + rotate_bit)
            else if bit = One4
            then (if index \<ge> 64 \<or> 2 ^ index \<ge> width then Inl width
                  else Inr (amount OR 2 ^ index, rotate_bit))
            else Inr (amount, rotate_bit)) (0, 1 mod width) of
       Inl amount \<Rightarrow> amount
     | Inr (amount, _) \<Rightarrow> amount)"

definition shift_fill :: "shift_operator \<Rightarrow> packed_logic4 \<Rightarrow> packed_logic4" where
  "shift_fill operation value =
     (let fill = (if operation = Arithmetic_right then elem4 value (width4 value - 1)
                  else if operation = Arithmetic_left then elem4 value 0 else Zero4);
          result = make_packed (width4 value) fill
      in if is_logic9 value
         then fill9 result (if operation = Arithmetic_right then elem9 value (width4 value - 1)
                            else if operation = Arithmetic_left then elem9 value 0 else Zero9)
         else result)"

definition shift_move :: "packed_logic4 \<Rightarrow> nat \<Rightarrow> nat \<Rightarrow> nat \<Rightarrow> packed_logic4 \<Rightarrow> packed_logic4 result" where
  "shift_move value low width offset result =
     bind_result (extract_bits value low width) (\<lambda>range. insert_bits result range offset)"

definition shift_elements :: "shift_operator \<Rightarrow> packed_logic4 \<Rightarrow> nat \<Rightarrow> packed_logic4 result" where
  "shift_elements operation value amount =
     (let result = shift_fill operation value
      in if amount \<ge> width4 value then Inr result
         else if amount = 0 then Inr value
         else
           let kept = width4 value - amount
           in if operation = Rotate_left
              then bind_result (shift_move value 0 kept amount result) (shift_move value kept amount 0)
              else if operation = Rotate_right
              then bind_result (shift_move value amount kept 0 result) (shift_move value 0 amount kept)
              else if operation = Logical_left \<or> operation = Arithmetic_left
              then shift_move value 0 kept amount result
              else shift_move value amount kept 0 result)"

definition shift_slow :: "shift_operator \<Rightarrow> packed_logic4 \<Rightarrow> packed_logic4 \<Rightarrow> bool \<Rightarrow> packed_logic4 result" where
  "shift_slow operation value amount_value signed_amount =
     (if list_ex (\<lambda>index. elem4 amount_value index = X4 \<or> elem4 amount_value index = Z4) [0..<width4 amount_value]
      then Inr (make_packed (width4 value) X4)
      else if signed_amount \<and> width4 amount_value = 0 then Inl Out_of_range
      else
        let negative = (signed_amount \<and> elem4 amount_value (width4 amount_value - 1) = One4);
            operation = (if negative then reverse_shift operation else operation);
            magnitude = (if negative then shift_negate amount_value else amount_value);
            rotating = (operation = Rotate_left \<or> operation = Rotate_right)
        in shift_elements operation value (shift_amount rotating (width4 value) magnitude))"

definition shift_value :: "shift_operator \<Rightarrow> packed_logic4 \<Rightarrow> packed_logic4 \<Rightarrow> bool \<Rightarrow> packed_logic4 result" where
  "shift_value operation value amount_value signed_amount =
     (case shift_word_path operation value amount_value signed_amount of
        Some result \<Rightarrow> result
      | None \<Rightarrow> shift_slow operation value amount_value signed_amount)"

subsection \<open>Ranges and concatenation\<close>

definition extract_value :: "packed_logic4 \<Rightarrow> nat \<Rightarrow> nat \<Rightarrow> packed_logic4 result" where
  "extract_value source offset width = extract_bits source offset width"

definition insert_value :: "packed_logic4 \<Rightarrow> packed_logic4 \<Rightarrow> nat \<Rightarrow> packed_logic4 result" where
  "insert_value target source offset = insert_bits target source offset"

definition concatenate_width :: "packed_logic4 list \<Rightarrow> nat result" where
  "concatenate_width operands = fold (\<lambda>operand r. bind_result r (\<lambda>width.
     if width4 operand > size_max - width then Inl Invalid_argument else Inr (width + width4 operand))) operands (Inr 0)"

definition concatenate_values :: "packed_logic4 list \<Rightarrow> nat \<Rightarrow> packed_logic4 result" where
  "concatenate_values operands expected_width =
     (if operands = [] then Inl Invalid_argument
      else bind_result (concatenate_width operands) (\<lambda>width.
        if width = 0 \<or> width \<noteq> expected_width then Inl Invalid_argument
        else bind_result (PackedLogic4 width Zero4) (\<lambda>result.
          let result = (if list_ex is_logic9 operands then fill9 result U9 else result)
          in bind_result (fold (\<lambda>operand r. bind_result r (\<lambda>(result, offset).
                 if width4 operand \<noteq> 0
                 then bind_result (insert_bits result operand offset) (\<lambda>result. Inr (result, offset + width4 operand))
                 else Inr (result, offset + width4 operand))) (rev operands) (Inr (result, 0)))
               (\<lambda>(result, _). Inr result))))"

subsection \<open>Truth, reductions and counts\<close>

lemma for_return_Suc:
  "for_return 0 (Suc n) body s = (case for_return 0 n body s of Inl r \<Rightarrow> Inl r | Inr t \<Rightarrow> body n t)"
  by (simp add: for_return_def)

lemma card_below_Suc: "card {i. i < Suc n \<and> P i} = card {i. i < n \<and> P i} + (if P n then 1 else 0)"
proof -
  have "{i. i < Suc n \<and> P i} = (if P n then insert n {i. i < n \<and> P i} else {i. i < n \<and> P i})"
    by (auto simp: less_Suc_eq)
  then show ?thesis by simp
qed

lemma any_unknown_Suc: "any_unknown (Suc n) f \<longleftrightarrow> any_unknown n f \<or> unknown4 (f n)"
  by (auto simp: any_unknown_def less_Suc_eq)

lemma exists_below_Suc: "(\<exists>i<Suc n. P i) \<longleftrightarrow> (\<exists>i<n. P i) \<or> P n"
  by (auto simp: less_Suc_eq)

lemmas below_Suc = card_below_Suc any_unknown_Suc exists_below_Suc

lemma truth_value_spec: "truth_value source = spec_truth (width4 source) (elem4 source)"
proof -
  define f where "f = elem4 source"
  have "for_return 0 n (\<lambda>index has_unknown. let value = f index
      in if value = One4 then Inl One4 else Inr (has_unknown \<or> value = X4 \<or> value = Z4)) False =
      (if \<exists>i<n. f i = One4 then Inl One4 else Inr (any_unknown n f))" for n
  proof (induction n)
    case 0
    then show ?case by (simp add: for_return_def any_unknown_def)
  next
    case (Suc n)
    then show ?case by (simp add: for_return_Suc below_Suc Let_def unknown4_def)
  qed
  then show ?thesis by (simp add: truth_value_def spec_truth_def f_def)
qed

lemma reduce_one_count_spec: "reduce_one_count source = min 2 (card {i. i < width4 source \<and> elem4 source i = One4})"
proof -
  have "for_range 0 n (\<lambda>index one_count. if one_count < 2 \<and> f index = One4 then one_count + 1 else one_count) 0 =
      min 2 (card {i. i < n \<and> f i = One4})" for n and f :: "nat \<Rightarrow> logic4"
    by (induction n) (auto simp: for_range_Suc below_Suc)
  then show ?thesis by (simp add: reduce_one_count_def)
qed

lemma reduce_loops:
  "for_range 0 n (\<lambda>index result. logic_and4 result (f index)) One4 = spec_reduce Reduce_and n f"
  "for_range 0 n (\<lambda>index result. logic_or4 result (f index)) Zero4 = spec_reduce Reduce_or n f"
  "for_range 0 n (\<lambda>index result. logic_xor4 result (f index)) Zero4 = spec_reduce Reduce_xor n f"
proof (induction n)
  case 0
  { case 1 show ?case by (simp add: spec_reduce_def any_unknown_def) }
  { case 2 show ?case by (simp add: spec_reduce_def any_unknown_def) }
  { case 3 show ?case by (simp add: spec_reduce_def any_unknown_def of_bool4_def) }
next
  case (Suc n)
  { case 1 show ?case using Suc(1) by (cases "f n") (auto simp: for_range_Suc spec_reduce_def below_Suc logic_and4_def unknown4_def) }
  { case 2 show ?case using Suc(2) by (cases "f n") (auto simp: for_range_Suc spec_reduce_def below_Suc logic_or4_def unknown4_def) }
  { case 3 show ?case using Suc(3)
      by (cases "f n") (auto simp: for_range_Suc spec_reduce_def below_Suc logic_xor4_def unknown4_def of_bool4_def Let_def) }
qed

lemma reduce_value_eq: "reduce_value operation source = make_packed 1 (spec_reduce operation (width4 source) (elem4 source))"
  by (cases operation) (simp_all add: reduce_value_def reduce_loops, auto simp: reduce_one_count_spec spec_reduce_def of_bool4_def Let_def)

lemma count_result_vec: "is_vec4 (count_result (of_nat k)) 32 (int_bit4 (int k))"
proof -
  have "is_vec4 (count_result (of_nat k)) 32 (\<lambda>i. if drop_bit i (of_nat k :: u32) AND 1 \<noteq> 0 then One4 else Zero4)"
    unfolding count_result_def by (rule put4_loop) (rule make_packed_vec, simp add: size_max_def)
  moreover have "drop_bit i (of_nat k :: u32) AND 1 \<noteq> 0 \<longleftrightarrow> bit (int k) i" if "i < 32" for i
  proof -
    have "bit (of_int n :: u32) i \<longleftrightarrow> bit n i" for n using that by (simp add: bit_of_int_iff)
    from this [of "int k"] have "bit (of_nat k :: u32) i \<longleftrightarrow> bit (int k) i" by simp
    then show ?thesis by (simp add: and_one_eq bit_iff_odd_drop_bit [of "of_nat k :: u32"] flip: odd_iff_mod_2_eq_one)
  qed
  ultimately show ?thesis by (auto simp: is_vec4_def int_bit4_def)
qed

lemma count_loop:
  "for_range 0 n (\<lambda>index count. if P index then count + 1 else count) (0 :: u32) = of_nat (card {i. i < n \<and> P i})"
  by (induction n) (auto simp: for_range_Suc card_below_Suc)

text \<open>
  C16: Reductions, truth values and population counts of a packed value of any width and either
  kind: the truth value, the logical operators and the five reductions are the specified ones, so a
  reduction returns a known bit whenever the known elements decide it; the counts are the number of
  selected elements as a 32-bit vector, modulo \<open>2 ^ 32\<close>.
\<close>

theorem reductions_spec:
  "is_vec4 (reduce_value operation source) 1 (\<lambda>_. spec_reduce operation (width4 source) (elem4 source)) \<and>
   is_vec4 (logical_not source) 1 (\<lambda>_. logic_not4 (spec_truth (width4 source) (elem4 source))) \<and>
   is_vec4 (logical_binary connective source other) 1 (\<lambda>_.
     (if connective = Logical_and then logic_and4 else logic_or4)
       (spec_truth (width4 source) (elem4 source)) (spec_truth (width4 other) (elem4 other))) \<and>
   is_vec4 (count_ones_value source) 32 (int_bit4 (int (card {i. i < width4 source \<and> elem4 source i = One4}))) \<and>
   is_vec4 (count_bits_value source states) 32
     (int_bit4 (int (card {i. i < width4 source \<and> bit states (logic4_code (elem4 source i))})))"
proof -
  have one: "is_vec4 (make_packed 1 e) 1 (\<lambda>_. e)" for e by (rule make_packed_vec) (simp add: size_max_def)
  have state: "states AND push_bit (logic4_code e) 1 \<noteq> 0 \<longleftrightarrow> bit states (logic4_code e)" for e
    by (simp add: push_bit_eq_mult and_exp_eq_0_iff_not_bit)
  have "is_vec4 (logical_binary connective source other) 1 (\<lambda>_.
     (if connective = Logical_and then logic_and4 else logic_or4)
       (spec_truth (width4 source) (elem4 source)) (spec_truth (width4 other) (elem4 other)))"
    using one by (simp add: logical_binary_def truth_value_spec Let_def)
  then show ?thesis
    using one by (simp add: reduce_value_eq logical_not_def truth_value_spec count_ones_value_def count_bits_value_def
        count_loop Let_def state count_result_vec and_exp_eq_0_iff_not_bit)
qed

subsection \<open>Concatenation\<close>

lemma concatenate_width_eq:
  "width \<le> size_max \<Longrightarrow> fold (\<lambda>operand r. bind_result r (\<lambda>width.
     if width4 operand > size_max - width then Inl Invalid_argument else Inr (width + width4 operand))) operands (Inr width) =
   (if width + sum_list (map width4 operands) \<le> size_max then Inr (width + sum_list (map width4 operands)) else Inl Invalid_argument)"
proof (induction operands arbitrary: width)
  case Nil
  then show ?case by simp
next
  case (Cons operand operands)
  have stuck: "fold (\<lambda>operand r. bind_result r (\<lambda>width.
     if width4 operand > size_max - width then Inl Invalid_argument else Inr (width + width4 operand))) xs (Inl e) = Inl e" for xs e
    by (induction xs) simp_all
  show ?case
  proof (cases "width4 operand > size_max - width")
    case True
    then show ?thesis using Cons.prems by (simp add: stuck)
  next
    case False
    then show ?thesis using Cons.IH [of "width + width4 operand"] Cons.prems by (simp add: add.assoc)
  qed
qed

lemma concatenate_loop:
  assumes "\<forall>x\<in>set xs. logic4_ok x \<and> (is_logic9 x \<longrightarrow> is_logic9 v)" "logic4_ok v" "off + sum_list (map width4 xs) = width4 v"
  shows "\<exists>r. fold (\<lambda>operand r. bind_result r (\<lambda>(result, offset).
                 if width4 operand \<noteq> 0
                 then bind_result (insert_bits result operand offset) (\<lambda>result. Inr (result, offset + width4 operand))
                 else Inr (result, offset + width4 operand))) xs (Inr (v, off)) = Inr (r, width4 v) \<and>
    logic4_ok r \<and> width4 r = width4 v \<and> is_logic9 r = is_logic9 v \<and> elems9 r = take off (elems9 v) @ concat (map elems9 xs)"
  using assms
proof (induction xs arbitrary: v off)
  case Nil
  then show ?case by simp
next
  case (Cons x xs)
  show ?case
  proof (cases "width4 x = 0")
    case True
    then have "elems9 x = []" by (simp add: elems9_def)
    moreover have "\<forall>x\<in>set xs. logic4_ok x \<and> (is_logic9 x \<longrightarrow> is_logic9 v)" using Cons.prems(1) by simp
    ultimately show ?thesis using True Cons.IH [OF _ Cons.prems(2), of off] Cons.prems(3) by simp
  next
    case False
    with Cons.prems obtain u where u: "insert_bits v x off = Inr u" "logic4_ok u" "width4 u = width4 v" "is_logic9 u = is_logic9 v"
        "\<forall>i<width4 v. elem9 u i = (if off \<le> i \<and> i < off + width4 x then elem9 x (i - off) else elem9 v i)"
      using insert_bits_ok [of v x off] by auto
    have "elems9 u = map (\<lambda>i. if off \<le> i \<and> i < off + width4 x then elem9 x (i - off) else elem9 v i) [0..<width4 v]"
      unfolding elems9_def u(3) by (rule map_cong) (use u(5) in auto)
    also have "\<dots> = take off (elems9 v) @ elems9 x @ drop (off + width4 x) (elems9 v)"
      unfolding elems9_def by (rule insert_elems) (use Cons.prems(3) in simp)
    finally have "elems9 u = take off (elems9 v) @ elems9 x @ drop (off + width4 x) (elems9 v)" .
    then have "take (off + width4 x) (elems9 u) = take off (elems9 v) @ elems9 x" using Cons.prems(3) by simp
    moreover have "\<forall>x\<in>set xs. logic4_ok x \<and> (is_logic9 x \<longrightarrow> is_logic9 u)" using Cons.prems(1) u(4) by simp
    ultimately show ?thesis using Cons.IH [OF _ u(2), of "off + width4 x"] Cons.prems(3) u(1,3,4) False by (simp add: add.assoc)
  qed
qed

text \<open>
  C15: Concatenation puts the operands' elements together, the last operand least significant, and
  is nine-state exactly when an operand is.  It throws \<^verbatim>\<open>std::invalid_argument\<close> when there is no
  operand, the widths overflow, the total is zero or differs from the expected width, and
  \<^verbatim>\<open>std::length_error\<close> when the result is too wide to allocate.
\<close>

theorem concatenate_values_spec:
  assumes "\<forall>x\<in>set operands. logic4_ok x"
  shows "let total = sum_list (map width4 operands)
    in if total \<noteq> expected_width \<or> total = 0 \<or> total > size_max then concatenate_values operands expected_width = Inl Invalid_argument
       else if total > size_max div 4 then concatenate_values operands expected_width = Inl Length_error
       else \<exists>r. concatenate_values operands expected_width = Inr r \<and> logic4_ok r \<and> is_logic9 r = list_ex is_logic9 operands \<and>
              elems9 r = concat (map elems9 (rev operands))"
proof -
  define total where "total = sum_list (map width4 operands)"
  have width: "concatenate_width operands = (if total \<le> size_max then Inr total else Inl Invalid_argument)"
    using concatenate_width_eq [of 0 operands] by (simp add: concatenate_width_def total_def)
  consider "total \<noteq> expected_width \<or> total = 0 \<or> total > size_max"
    | "total = expected_width" "total \<noteq> 0" "total \<le> size_max" "total > size_max div 4"
    | "total = expected_width" "total \<noteq> 0" "total \<le> size_max" "total \<le> size_max div 4"
    using not_less by blast
  then show ?thesis
  proof cases
    case 1
    then show ?thesis unfolding total_def [symmetric] Let_def by (auto simp: concatenate_values_def width)
  next
    case 2
    then have "operands \<noteq> []" by (auto simp: total_def)
    with 2 PackedLogic4_cases [of total Zero4] show ?thesis
      unfolding total_def [symmetric] Let_def by (simp add: concatenate_values_def width)
  next
    case 3
    then have ne: "operands \<noteq> []" by (auto simp: total_def)
    obtain z where z: "PackedLogic4 total Zero4 = Inr z" "logic4_ok z" "\<not> is_logic9 z" "width4 z = total"
      using PackedLogic4_cases [of total Zero4] 3 by auto
    define y where "y = (if list_ex is_logic9 operands then fill9 z U9 else z)"
    have y: "logic4_ok y" "is_logic9 y = list_ex is_logic9 operands" "width4 y = total"
      using fill9_vec [OF z(2), of U9] z by (auto simp: y_def is_vec9_def)
    have "\<forall>x\<in>set (rev operands). logic4_ok x \<and> (is_logic9 x \<longrightarrow> is_logic9 y)"
      using assms y(2) by (auto simp: list_ex_iff)
    from concatenate_loop [OF this y(1), of 0] y(3) obtain r where
      "fold (\<lambda>operand r. bind_result r (\<lambda>(result, offset).
                 if width4 operand \<noteq> 0
                 then bind_result (insert_bits result operand offset) (\<lambda>result. Inr (result, offset + width4 operand))
                 else Inr (result, offset + width4 operand))) (rev operands) (Inr (y, 0)) = Inr (r, width4 y)"
      "logic4_ok r" "is_logic9 r = is_logic9 y" "elems9 r = concat (map elems9 (rev operands))"
      by (auto simp: total_def sum_list_rev rev_map [symmetric])
    with 3 ne z y show ?thesis unfolding total_def [symmetric] Let_def
      by (simp add: concatenate_values_def width y_def [symmetric] Let_def)
  qed
qed

theorem concatenate_values_spec_witness:
  "\<exists>r. concatenate_values [make_packed 2 One4, make_packed 1 Zero4] 3 = Inr r \<and> elems9 r = [Zero9, One9, One9] \<and>
     concatenate_values [make_packed 2 One4, make_packed 1 Zero4] 4 = Inl Invalid_argument"
proof -
  have v: "is_vec4 (make_packed 2 One4) 2 (\<lambda>_. One4)" "is_vec4 (make_packed 1 Zero4) 1 (\<lambda>_. Zero4)"
    by (rule make_packed_vec; simp add: size_max_def)+
  then have e: "elems9 (make_packed 2 One4) = [One9, One9]" "elems9 (make_packed 1 Zero4) = [Zero9]"
    by (auto simp: elems9_def is_vec4_def elem9_logic4 upt_rec)
  show ?thesis
    using concatenate_values_spec [of "[make_packed 2 One4, make_packed 1 Zero4]" 3]
      concatenate_values_spec [of "[make_packed 2 One4, make_packed 1 Zero4]" 4] v e
    by (auto simp: is_vec4_def size_max_def)
qed

end
