(* ===== verification/Simir_Arithmetic.thy ===== *)
theory Simir_Arithmetic
  imports Simir_Logic
begin

text \<open>
  The arithmetic value functions of \<^verbatim>\<open>src/runtime/simir_arithmetic.cpp\<close> on packed values
  of any width: the bit-serial adders, multiplier, power and restoring division, the comparison
  operators, \<^verbatim>\<open>binary_value\<close> with its single-word paths, and the conditional operator.
  Each bit-serial routine is proved to compute the number it stands for, and
  \<^verbatim>\<open>binary_value\<close> to mean the same on every path.
\<close>

subsection \<open>Tests\<close>

definition has_unknown :: "packed_logic4 \<Rightarrow> bool" where
  "has_unknown value = list_ex (\<lambda>index. elem4 value index = X4 \<or> elem4 value index = Z4) [0..<width4 value]"

definition is_zero :: "packed_logic4 \<Rightarrow> bool" where
  "is_zero value = list_all (\<lambda>index. elem4 value index \<noteq> One4) [0..<width4 value]"

definition is_one :: "packed_logic4 \<Rightarrow> bool" where
  "is_one value \<longleftrightarrow> elem4 value 0 = One4 \<and> list_all (\<lambda>index. elem4 value index = Zero4) [1..<width4 value]"

definition is_all_ones :: "packed_logic4 \<Rightarrow> bool" where
  "is_all_ones value = list_all (\<lambda>index. elem4 value index = One4) [0..<width4 value]"

definition compare_known_unsigned :: "packed_logic4 \<Rightarrow> packed_logic4 \<Rightarrow> int" where
  "compare_known_unsigned lhs rhs =
     (case find (\<lambda>index. elem4 lhs index \<noteq> elem4 rhs index) (rev [0..<width4 lhs]) of
        None \<Rightarrow> 0
      | Some index \<Rightarrow> if elem4 lhs index = One4 then 1 else - 1)"

subsection \<open>Bit-serial arithmetic\<close>

definition subtract_known :: "packed_logic4 \<Rightarrow> packed_logic4 \<Rightarrow> packed_logic4" where
  "subtract_known lhs rhs =
     fst (for_range 0 (width4 lhs) (\<lambda>index (result, borrow).
       let left = (elem4 lhs index = One4); right = (elem4 rhs index = One4)
       in (put4 result index (if (left \<noteq> right) \<noteq> borrow then One4 else Zero4),
           (\<not> left \<and> (right \<or> borrow)) \<or> (right \<and> borrow))) (make_packed (width4 lhs) Zero4, False))"

definition add_known :: "packed_logic4 \<Rightarrow> packed_logic4 \<Rightarrow> packed_logic4" where
  "add_known lhs rhs =
     fst (for_range 0 (width4 lhs) (\<lambda>index (result, carry).
       let left = (elem4 lhs index = One4); right = (elem4 rhs index = One4)
       in (put4 result index (if (left \<noteq> right) \<noteq> carry then One4 else Zero4),
           (left \<and> right) \<or> (carry \<and> (left \<or> right)))) (make_packed (width4 lhs) Zero4, False))"

definition negate_known :: "packed_logic4 \<Rightarrow> packed_logic4" where
  "negate_known value = subtract_known (make_packed (width4 value) Zero4) value"

definition multiply_step :: "packed_logic4 \<Rightarrow> nat \<Rightarrow> packed_logic4 \<Rightarrow> packed_logic4" where
  "multiply_step lhs rhs_bit result =
     fst (for_range rhs_bit (width4 result) (\<lambda>index (result, carry).
       let accumulated = (elem4 result index = One4); multiplicand = (elem4 lhs (index - rhs_bit) = One4)
       in (put4 result index (if (accumulated \<noteq> multiplicand) \<noteq> carry then One4 else Zero4),
           (accumulated \<and> multiplicand) \<or> (carry \<and> (accumulated \<or> multiplicand)))) (result, False))"

definition multiply_known :: "packed_logic4 \<Rightarrow> packed_logic4 \<Rightarrow> packed_logic4" where
  "multiply_known lhs rhs =
     for_range 0 (width4 rhs) (\<lambda>rhs_bit result.
       if elem4 rhs rhs_bit \<noteq> One4 then result else multiply_step lhs rhs_bit result)
       (make_packed (width4 lhs) Zero4)"

definition power_known :: "packed_logic4 \<Rightarrow> packed_logic4 \<Rightarrow> bool \<Rightarrow> packed_logic4" where
  "power_known base exponent signed_exponent =
     (let negative = (signed_exponent \<and> elem4 exponent (width4 exponent - 1) = One4);
          one = put4 (make_packed (width4 base) Zero4) 0 One4
      in if negative
         then (if is_zero base then make_packed (width4 base) X4
               else if is_one base then one
               else if is_all_ones base then (if elem4 exponent 0 = One4 then base else one)
               else make_packed (width4 base) Zero4)
         else fst (for_range 0 (width4 exponent) (\<lambda>index (result, factor).
                (if elem4 exponent index = One4 then multiply_known result factor else result,
                 if index + 1 < width4 exponent then multiply_known factor factor else factor)) (one, base)))"

definition shift_in :: "packed_logic4 \<Rightarrow> logic4 \<Rightarrow> packed_logic4" where
  "shift_in remainder digit =
     put4 (fold (\<lambda>index remainder. put4 remainder index (elem4 remainder (index - 1))) (rev [1..<width4 remainder]) remainder)
       0 digit"

definition divide_known :: "packed_logic4 \<Rightarrow> packed_logic4 \<Rightarrow> packed_logic4 \<times> packed_logic4" where
  "divide_known dividend divisor =
     for_down (width4 dividend) (\<lambda>dividend_bit (quotient, remainder).
       let remainder = shift_in remainder (elem4 dividend dividend_bit)
       in if compare_known_unsigned remainder divisor \<ge> 0
          then (put4 quotient dividend_bit One4, subtract_known remainder divisor)
          else (quotient, remainder))
       (make_packed (width4 dividend) Zero4, make_packed (width4 dividend) Zero4)"

definition divide_known_signed :: "packed_logic4 \<Rightarrow> packed_logic4 \<Rightarrow> packed_logic4 \<times> packed_logic4" where
  "divide_known_signed dividend divisor =
     (let dividend_negative = (elem4 dividend (width4 dividend - 1) = One4);
          divisor_negative = (elem4 divisor (width4 divisor - 1) = One4);
          dividend_magnitude = (if dividend_negative then negate_known dividend else dividend);
          divisor_magnitude = (if divisor_negative then negate_known divisor else divisor);
          (quotient, remainder) = divide_known dividend_magnitude divisor_magnitude
      in (if dividend_negative \<noteq> divisor_negative then negate_known quotient else quotient,
          if dividend_negative then negate_known remainder else remainder))"

subsection \<open>Comparisons\<close>

definition equal_state :: "packed_logic4 \<Rightarrow> packed_logic4 \<Rightarrow> logic4" where
  "equal_state lhs rhs =
     (let (unknown, mismatch) = for_range 0 (width4 lhs) (\<lambda>index (unknown, mismatch).
            let left = elem4 lhs index; right = elem4 rhs index;
                left_known = (left = Zero4 \<or> left = One4);
                right_known = (right = Zero4 \<or> right = One4)
            in if \<not> left_known \<or> \<not> right_known then (True, mismatch)
               else if left \<noteq> right then (unknown, True) else (unknown, mismatch)) (False, False)
      in if mismatch then Zero4 else if unknown then X4 else One4)"

definition case_state :: "binary_operator \<Rightarrow> packed_logic4 \<Rightarrow> packed_logic4 \<Rightarrow> logic4" where
  "case_state operation lhs rhs =
     (if list_all (\<lambda>index.
           if operation = Case_equal \<and> (is_logic9 lhs \<or> is_logic9 rhs) then elem9 lhs index = elem9 rhs index
           else
             let left = elem4 lhs index; right = elem4 rhs index;
                 wildcard = (if operation = Casez_equal then left = Z4 \<or> right = Z4
                   else operation = Casex_equal \<and> (left = X4 \<or> left = Z4 \<or> right = X4 \<or> right = Z4))
             in wildcard \<or> left = right) [0..<width4 lhs]
      then One4 else Zero4)"

definition wildcard_state :: "packed_logic4 \<Rightarrow> packed_logic4 \<Rightarrow> logic4" where
  "wildcard_state lhs rhs =
     (let (unknown, mismatch) = for_range 0 (width4 lhs) (\<lambda>index (unknown, mismatch).
            let left = elem4 lhs index; right = elem4 rhs index
            in if right = X4 \<or> right = Z4 then (unknown, mismatch)
               else if left = X4 \<or> left = Z4 then (True, mismatch)
               else if left \<noteq> right then (unknown, True) else (unknown, mismatch)) (False, False)
      in if mismatch then Zero4 else if unknown then X4 else One4)"

definition match_class :: "logic9 \<Rightarrow> int" where
  "match_class value =
     (if value = DontCare9 then - 1
      else if value = Zero9 \<or> value = L9 then 0
      else if value = One9 \<or> value = H9 then 1
      else if value = U9 then 3 else 2)"

definition vhdl_match_value :: "packed_logic4 \<Rightarrow> packed_logic4 \<Rightarrow> packed_logic4" where
  "vhdl_match_value lhs rhs = (case for_return 0 (width4 lhs) (\<lambda>index (unknown, uninitialized).
         let left = match_class (elem9 lhs index); right = match_class (elem9 rhs index)
         in if left = - 1 \<or> right = - 1 then Inr (unknown, uninitialized)
            else if left = 3 \<or> right = 3 then Inr (unknown, True)
            else if left = 2 \<or> right = 2 then Inr (True, uninitialized)
            else if left \<noteq> right then Inl (make_packed 1 Zero4)
            else Inr (unknown, uninitialized)) (False, False) of
       Inl result \<Rightarrow> result
     | Inr (unknown, uninitialized) \<Rightarrow>
         if uninitialized then put9 (make_packed 1 X4) 0 U9
         else make_packed 1 (if unknown then X4 else One4))"

definition relation_state :: "binary_operator \<Rightarrow> packed_logic4 \<Rightarrow> packed_logic4 \<Rightarrow> logic4" where
  "relation_state operation lhs rhs =
     (if list_ex (\<lambda>index. let left = elem4 lhs index; right = elem4 rhs index
           in left = X4 \<or> left = Z4 \<or> right = X4 \<or> right = Z4) [0..<width4 lhs] then X4
      else
        let signed_comparison = is_signed_relational operation;
            lhs_negative = (elem4 lhs (width4 lhs - 1) = One4);
            rhs_negative = (elem4 rhs (width4 rhs - 1) = One4);
            comparison = (if signed_comparison \<and> lhs_negative \<noteq> rhs_negative then (if lhs_negative then - 1 else 1)
                          else compare_known_unsigned lhs rhs);
            less = (comparison < 0); greater = (comparison > 0);
            result = (if operation \<in> {Less_unsigned, Less_signed} then less
                      else if operation \<in> {Less_equal_unsigned, Less_equal_signed} then less \<or> \<not> greater
                      else if operation \<in> {Greater_unsigned, Greater_signed} then greater
                      else greater \<or> \<not> less)
        in if result then One4 else Zero4)"

subsection \<open>The binary operators\<close>

definition arithmetic_value :: "binary_operator \<Rightarrow> packed_logic4 \<Rightarrow> packed_logic4 \<Rightarrow> packed_logic4" where
  "arithmetic_value operation lhs rhs =
     (if has_unknown lhs \<or> has_unknown rhs then make_packed (width4 lhs) X4
      else if operation \<in> {Add_unsigned, Add_signed} then add_known lhs rhs
      else if operation \<in> {Subtract_unsigned, Subtract_signed} then subtract_known lhs rhs
      else if operation \<in> {Multiply_unsigned, Multiply_signed} then multiply_known lhs rhs
      else if operation \<in> {Power_unsigned, Power_signed} then power_known lhs rhs (operation = Power_signed)
      else if is_zero rhs then make_packed (width4 lhs) X4
      else if operation \<in> {Divide_unsigned, Modulo_unsigned}
      then (let (quotient, remainder) = divide_known lhs rhs
            in if operation = Modulo_unsigned then remainder else quotient)
      else
        let (quotient, remainder) = divide_known_signed lhs rhs
        in if operation = Divide_signed then quotient
           else if operation = Modulo_signed \<and> \<not> is_zero remainder
                   \<and> elem4 lhs (width4 lhs - 1) \<noteq> elem4 rhs (width4 rhs - 1)
           then add_known remainder rhs
           else remainder)"

definition bitwise_value :: "binary_operator \<Rightarrow> packed_logic4 \<Rightarrow> packed_logic4 \<Rightarrow> packed_logic4" where
  "bitwise_value operation lhs rhs =
     (let exact_logic9 = (is_logic9 lhs \<or> is_logic9 rhs);
          result = make_packed (width4 lhs) Zero4;
          result = (if exact_logic9 then fill9 result U9 else result)
      in for_range 0 (width4 lhs) (\<lambda>index result.
           case operation of
             Bit_and \<Rightarrow> if exact_logic9 then put9 result index (logic_and9 (elem9 lhs index) (elem9 rhs index))
                        else put4 result index (logic_and4 (elem4 lhs index) (elem4 rhs index))
           | Bit_or \<Rightarrow> if exact_logic9 then put9 result index (logic_or9 (elem9 lhs index) (elem9 rhs index))
                       else put4 result index (logic_or4 (elem4 lhs index) (elem4 rhs index))
           | Bit_xor \<Rightarrow> if exact_logic9 then put9 result index (logic_xor9 (elem9 lhs index) (elem9 rhs index))
                        else put4 result index (logic_xor4 (elem4 lhs index) (elem4 rhs index))
           | _ \<Rightarrow> result) result)"

definition binary_slow :: "binary_operator \<Rightarrow> packed_logic4 \<Rightarrow> packed_logic4 \<Rightarrow> packed_logic4" where
  "binary_slow operation lhs rhs =
     (if operation = Equal then make_packed 1 (equal_state lhs rhs)
      else if operation \<in> {Case_equal, Casez_equal, Casex_equal} then make_packed 1 (case_state operation lhs rhs)
      else if operation = Wildcard_equal then make_packed 1 (wildcard_state lhs rhs)
      else if operation = Vhdl_match_equal then vhdl_match_value lhs rhs
      else if operation = Not_equal
      then (let state = elem4 (make_packed 1 (equal_state lhs rhs)) 0
            in make_packed 1 (if state = One4 then Zero4 else if state = Zero4 then One4 else X4))
      else if is_relational operation then make_packed 1 (relation_state operation lhs rhs)
      else if is_arithmetic operation then arithmetic_value operation lhs rhs
      else bitwise_value operation lhs rhs)"

definition binary_word_path :: "binary_operator \<Rightarrow> packed_logic4 \<Rightarrow> packed_logic4 \<Rightarrow> packed_logic4 result" where
  "binary_word_path operation lhs rhs =
     (let width = width4 lhs;
          result = kw_binary operation \<lparr>ka = front (aval_words lhs), kb = front (bval_words lhs)\<rparr>
                     \<lparr>ka = front (aval_words rhs), kb = front (bval_words rhs)\<rparr> width
      in from_aval_bval (if is_comparison operation then 1 else width) (ka result) (kb result))"

definition binary_known_path :: "binary_operator \<Rightarrow> packed_logic4 \<Rightarrow> packed_logic4 \<Rightarrow> packed_logic4 result option" where
  "binary_known_path operation lhs rhs = (case known_bits lhs of
       None \<Rightarrow> None
     | Some left \<Rightarrow> (case known_bits rhs of
           None \<Rightarrow> None
         | Some right \<Rightarrow>
             let width = width4 lhs;
                 result = kw_binary operation \<lparr>ka = left, kb = 0\<rparr> \<lparr>ka = right, kb = 0\<rparr> width
             in if operation = Bit_and \<or> operation = Bit_or \<or> operation = Bit_xor
                then Some (logic9_known (ka result) width)
                else Some (from_aval_bval (if is_comparison operation then 1 else width) (ka result) (kb result))))"

text \<open>
  \<^verbatim>\<open>not_equal\<close> calls \<^verbatim>\<open>binary_value\<close> again with \<^verbatim>\<open>equal\<close>; the word paths
  have been ruled out by then, so that call is the slow equality.
\<close>

definition binary_value :: "binary_operator \<Rightarrow> packed_logic4 \<Rightarrow> packed_logic4 \<Rightarrow> packed_logic4 result" where
  "binary_value operation lhs rhs =
     (if width4 lhs \<noteq> width4 rhs then Inl Invalid_argument
      else if width4 lhs = 0 then Inl Invalid_argument
      else if width4 lhs \<le> 64 \<and> \<not> is_logic9 lhs \<and> \<not> is_logic9 rhs \<and> operation \<noteq> Vhdl_match_equal
      then binary_word_path operation lhs rhs
      else case (if width4 lhs \<le> 64 \<and> operation \<noteq> Vhdl_match_equal then binary_known_path operation lhs rhs else None) of
             Some result \<Rightarrow> result
           | None \<Rightarrow> Inr (binary_slow operation lhs rhs))"

subsection \<open>The conditional operator\<close>

definition conditional_value :: "packed_logic4 \<Rightarrow> packed_logic4 \<Rightarrow> packed_logic4 \<Rightarrow> packed_logic4 result" where
  "conditional_value condition when_true when_false =
     (if width4 condition \<noteq> 1 then Inl Invalid_argument
      else if width4 when_true \<noteq> width4 when_false then Inl Invalid_argument
      else if elem4 condition 0 = One4 then Inr when_true
      else if elem4 condition 0 = Zero4 then Inr when_false
      else Inr (for_range 0 (width4 when_true) (\<lambda>index result.
             let bit = elem4 when_true index
             in if bit = elem4 when_false index \<and> (bit = Zero4 \<or> bit = One4) then put4 result index bit else result)
             (make_packed (width4 when_true) X4)))"

definition is_val4 :: "bool \<Rightarrow> packed_logic4 \<Rightarrow> nat \<Rightarrow> (nat \<Rightarrow> logic4) \<Rightarrow> bool" where
  "is_val4 nine v w f \<longleftrightarrow> logic4_ok v \<and> width4 v = w \<and> (is_logic9 v \<longrightarrow> nine) \<and> (\<forall>i<w. elem4 v i = f i)"

subsection \<open>Vocabulary of the specification\<close>

text \<open>The carry into position \<open>n\<close> of a sum, and the borrow into position \<open>n\<close> of a difference.\<close>

definition carry_into :: "int \<Rightarrow> int \<Rightarrow> nat \<Rightarrow> bool \<Rightarrow> bool" where
  "carry_into a b n c \<longleftrightarrow> (take_bit n a + take_bit n b) div 2 ^ n = of_bool c"

definition borrow_into :: "int \<Rightarrow> int \<Rightarrow> nat \<Rightarrow> bool \<Rightarrow> bool" where
  "borrow_into a b n c \<longleftrightarrow> (take_bit n a - take_bit n b) div 2 ^ n = - of_bool c"

lemma is_val4_vec4: "is_vec4 v w f \<Longrightarrow> is_val4 nine v w f"
  by (simp add: is_val4_def is_vec4_def)

lemma vec4_is_val4: "is_val4 False v w f \<Longrightarrow> is_vec4 v w f"
  by (simp add: is_val4_def is_vec4_def)

lemma is_val4_reads: "is_val4 nine v w (int_bit4 k) \<longleftrightarrow> reads v w k \<and> (is_logic9 v \<longrightarrow> nine)"
  by (auto simp: is_val4_def reads_def)

subsection \<open>Ripple carries\<close>

lemma div_exp_step: "(S + 2 ^ n * k) div 2 ^ n = k + S div (2 ^ n :: int)"
  by simp

lemma take_bit_Suc_sum: "take_bit (Suc n) (a :: int) = take_bit n a + 2 ^ n * of_bool (bit a n)"
  by (simp add: take_bit_Suc_from_most)

lemma ripple_add_digit:
  fixes a b :: int
  assumes "carry_into a b n c"
  shows "bit (a + b) n \<longleftrightarrow> ((bit a n \<noteq> bit b n) \<noteq> c)"
    "carry_into a b (Suc n) ((bit a n \<and> bit b n) \<or> (c \<and> (bit a n \<or> bit b n)))"
proof -
  note assms = assms [unfolded carry_into_def]
  have sum: "take_bit (Suc n) a + take_bit (Suc n) b =
      (take_bit n a + take_bit n b) + 2 ^ n * (of_bool (bit a n) + of_bool (bit b n))"
    by (simp add: take_bit_Suc_sum algebra_simps)
  have quot: "(take_bit (Suc n) a + take_bit (Suc n) b) div 2 ^ n = of_bool (bit a n) + of_bool (bit b n) + of_bool c"
    unfolding sum div_exp_step assms ..
  have "bit (a + b) n = bit (take_bit (Suc n) (take_bit (Suc n) a + take_bit (Suc n) b)) n"
    by (simp add: take_bit_add bit_take_bit_iff)
  also have "\<dots> = odd ((take_bit (Suc n) a + take_bit (Suc n) b) div 2 ^ n)"
    by (simp add: bit_take_bit_iff) (simp add: bit_iff_odd)
  finally show "bit (a + b) n \<longleftrightarrow> ((bit a n \<noteq> bit b n) \<noteq> c)" unfolding quot by auto
  have "(take_bit (Suc n) a + take_bit (Suc n) b) div 2 ^ Suc n = (take_bit (Suc n) a + take_bit (Suc n) b) div 2 ^ n div 2"
    by (simp add: zdiv_zmult2_eq power_Suc2 del: power_Suc)
  then show "carry_into a b (Suc n) ((bit a n \<and> bit b n) \<or> (c \<and> (bit a n \<or> bit b n)))"
    unfolding carry_into_def quot by auto
qed

lemma ripple_sub_digit:
  fixes a b :: int
  assumes "borrow_into a b n c"
  shows "bit (a - b) n \<longleftrightarrow> ((bit a n \<noteq> bit b n) \<noteq> c)"
    "borrow_into a b (Suc n) ((\<not> bit a n \<and> (bit b n \<or> c)) \<or> (bit b n \<and> c))"
proof -
  note assms = assms [unfolded borrow_into_def]
  have sum: "take_bit (Suc n) a - take_bit (Suc n) b =
      (take_bit n a - take_bit n b) + 2 ^ n * (of_bool (bit a n) - of_bool (bit b n))"
    by (simp add: take_bit_Suc_sum algebra_simps)
  have quot: "(take_bit (Suc n) a - take_bit (Suc n) b) div 2 ^ n = of_bool (bit a n) - of_bool (bit b n) - of_bool c"
    unfolding sum div_exp_step assms by simp
  have "bit (a - b) n = bit (take_bit (Suc n) (take_bit (Suc n) a - take_bit (Suc n) b)) n"
    by (simp add: take_bit_diff bit_take_bit_iff)
  also have "\<dots> = odd ((take_bit (Suc n) a - take_bit (Suc n) b) div 2 ^ n)"
    by (simp add: bit_take_bit_iff) (simp add: bit_iff_odd)
  finally show "bit (a - b) n \<longleftrightarrow> ((bit a n \<noteq> bit b n) \<noteq> c)" unfolding quot by auto
  have "(take_bit (Suc n) a - take_bit (Suc n) b) div 2 ^ Suc n = (take_bit (Suc n) a - take_bit (Suc n) b) div 2 ^ n div 2"
    by (simp add: zdiv_zmult2_eq power_Suc2 del: power_Suc)
  then show "borrow_into a b (Suc n) ((\<not> bit a n \<and> (bit b n \<or> c)) \<or> (bit b n \<and> c))"
    unfolding borrow_into_def quot by auto
qed

lemma carry_into_0: "carry_into a b 0 False" "borrow_into a b 0 False"
  by (simp_all add: carry_into_def borrow_into_def)

text \<open>
  A loop that updates a vector in place from position \<open>lo\<close> and carries a bit: position \<open>i\<close> reads
  the element it overwrites.
\<close>

lemma in_place_loop:
  fixes c0 :: 'c
  assumes z: "is_vec4 z w f" "lo \<le> w" and Q: "Q lo c0"
    and step: "\<And>i r c. lo \<le> i \<Longrightarrow> i < w \<Longrightarrow> Q i c \<Longrightarrow> elem4 r i = f i \<Longrightarrow>
      body i (r, c) = (put4 r i (g i), h i c) \<and> Q (Suc i) (h i c)"
  shows "is_vec4 (fst (for_range lo w body (z, c0))) w (\<lambda>i. if i < lo then f i else g i)"
proof -
  define P where "P n t \<longleftrightarrow> is_vec4 (fst t) w (\<lambda>i. if i < lo \<or> n \<le> i then f i else g i) \<and> Q n (snd t)" for n and t :: "packed_logic4 \<times> 'c"
  have "P w (for_range lo w body (z, c0))"
  proof (rule for_range_invariant [OF z(2)])
    have "is_vec4 z w (\<lambda>i. if i < lo \<or> lo \<le> i then f i else g i)" by (rule is_vec4_cong [OF z(1)]) auto
    then show "P lo (z, c0)" using Q by (simp add: P_def)
    fix i and t :: "packed_logic4 \<times> 'c"
    assume i: "lo \<le> i" "i < w" and p: "P i t"
    obtain r c where t: "t = (r, c)" by (cases t)
    from p have r: "is_vec4 r w (\<lambda>j. if j < lo \<or> i \<le> j then f j else g j)" and q: "Q i c" by (simp_all add: P_def t)
    have "elem4 r i = f i" using is_vec4D(4) [OF r i(2)] i(1) by simp
    from step [OF i q this] have b: "body i (r, c) = (put4 r i (g i), h i c)" "Q (Suc i) (h i c)" by simp_all
    have "is_vec4 (put4 r i (g i)) w (\<lambda>j. if j < lo \<or> Suc i \<le> j then f j else g j)"
      by (rule is_vec4_cong [OF is_vec4_put [OF r i(2)]]) (use i(1) in auto)
    with b show "P (Suc i) (body i t)" by (simp add: P_def t)
  qed
  then have "is_vec4 (fst (for_range lo w body (z, c0))) w (\<lambda>i. if i < lo \<or> w \<le> i then f i else g i)"
    by (simp add: P_def)
  then show ?thesis by (rule is_vec4_cong) auto
qed

subsection \<open>Sums, differences, products\<close>

lemma reads_bit: "reads v w a \<Longrightarrow> i < w \<Longrightarrow> elem4 v i = One4 \<longleftrightarrow> bit a i"
  by (simp add: reads_def)

lemma reads_width: "reads v w a \<Longrightarrow> width4 v = w" "reads v w a \<Longrightarrow> w \<le> size_max div 4"
  by (auto simp: reads_def logic4_ok_def)

lemma add_known_vec:
  assumes "reads l w a" "reads r w b"
  shows "is_vec4 (add_known l r) w (int_bit4 (a + b))"
proof -
  have w: "width4 l = w" "is_vec4 (make_packed w Zero4) w (\<lambda>_. Zero4)"
    using reads_width [OF assms(1)] by auto
  have "is_vec4 (add_known l r) w (\<lambda>i. if i < 0 then Zero4 else int_bit4 (a + b) i)"
    unfolding add_known_def w(1)
    by (rule in_place_loop [OF w(2), where Q = "carry_into a b" and
          h = "\<lambda>i c. (bit a i \<and> bit b i) \<or> (c \<and> (bit a i \<or> bit b i))"])
       (simp_all add: Let_def reads_bit [OF assms(1)] reads_bit [OF assms(2)] int_bit4_def [of "a + b"] ripple_add_digit carry_into_0)
  then show ?thesis by simp
qed

lemma subtract_known_vec:
  assumes "reads l w a" "reads r w b"
  shows "is_vec4 (subtract_known l r) w (int_bit4 (a - b))"
proof -
  have w: "width4 l = w" "is_vec4 (make_packed w Zero4) w (\<lambda>_. Zero4)"
    using reads_width [OF assms(1)] by auto
  have "is_vec4 (subtract_known l r) w (\<lambda>i. if i < 0 then Zero4 else int_bit4 (a - b) i)"
    unfolding subtract_known_def w(1)
    by (rule in_place_loop [OF w(2), where Q = "borrow_into a b" and
          h = "\<lambda>i c. (\<not> bit a i \<and> (bit b i \<or> c)) \<or> (bit b i \<and> c)"])
       (simp_all add: Let_def reads_bit [OF assms(1)] reads_bit [OF assms(2)] int_bit4_def [of "a - b"] ripple_sub_digit carry_into_0)
  then show ?thesis by simp
qed

lemma make_packed_reads: "w \<le> size_max div 4 \<Longrightarrow> reads (make_packed w Zero4) w 0"
  by (rule reads_vec4) (rule is_vec4_cong [OF make_packed_vec], simp_all add: int_bit4_def)

lemma negate_known_vec: "reads v w a \<Longrightarrow> is_vec4 (negate_known v) w (int_bit4 (- a))"
  unfolding negate_known_def
  using subtract_known_vec [of "make_packed w Zero4" w 0 v a] make_packed_reads reads_width by auto

lemma multiply_step_vec:
  assumes "reads l w a" "is_vec4 r w (int_bit4 k)" "n \<le> w"
  shows "is_vec4 (multiply_step l n r) w (int_bit4 (k + push_bit n a))"
proof -
  have w: "width4 r = w" by (rule is_vec4D(3) [OF assms(2)])
  have low: "take_bit n (push_bit n a) = 0" by (simp add: take_bit_push_bit)
  have base: "carry_into k (push_bit n a) n False"
    unfolding carry_into_def low by (simp add: take_bit_eq_mod)
  have acc: "int_bit4 k i = One4 \<longleftrightarrow> bit k i" for i by (simp add: int_bit4_def)
  have el: "elem4 l (i - n) = One4 \<longleftrightarrow> bit (push_bit n a) i" if "n \<le> i" "i < w" for i
    using reads_bit [OF assms(1), of "i - n"] that by (auto simp: bit_push_bit_iff)
  have vec: "is_vec4 (multiply_step l n r) w (\<lambda>i. if i < n then int_bit4 k i else int_bit4 (k + push_bit n a) i)"
    unfolding multiply_step_def w
    by (rule in_place_loop [OF assms(2,3), where Q = "carry_into k (push_bit n a)" and
          h = "\<lambda>i c. (bit k i \<and> bit (push_bit n a) i) \<or> (c \<and> (bit k i \<or> bit (push_bit n a) i))"])
       (simp_all only: split Let_def el acc base int_bit4_def [of "k + push_bit n a"] ripple_add_digit HOL.simp_thms)
  have "int_bit4 k i = int_bit4 (k + push_bit n a) i" if "i < n" for i
  proof (rule int_bit4_cong [OF _ that])
    have "take_bit n (k + push_bit n a) = take_bit n (take_bit n k + take_bit n (push_bit n a))" by (simp add: take_bit_add)
    then show "take_bit n k = take_bit n (k + push_bit n a)" unfolding low by simp
  qed
  then show ?thesis by (intro is_vec4_cong [OF vec]) auto
qed

lemma multiply_known_vec:
  assumes "reads l w a" "reads r w b"
  shows "is_vec4 (multiply_known l r) w (int_bit4 (a * b))"
proof -
  have w: "width4 l = w" "width4 r = w" "w \<le> size_max div 4" using reads_width assms by auto
  have vec: "is_vec4 (multiply_known l r) w (int_bit4 (a * take_bit w b))"
    unfolding multiply_known_def w(1,2)
  proof (rule for_range_invariant [where P = "\<lambda>n t. is_vec4 t w (int_bit4 (a * take_bit n b))"])
    show "is_vec4 (make_packed w Zero4) w (int_bit4 (a * take_bit 0 b))"
      by (rule is_vec4_cong [OF make_packed_vec [OF w(3)]]) (simp add: int_bit4_def)
    fix i t assume i: "i < w" and t: "is_vec4 t w (int_bit4 (a * take_bit i b))"
    have n: "a * take_bit (Suc i) b = a * take_bit i b + (if bit b i then push_bit i a else 0)"
      by (simp add: take_bit_Suc_sum push_bit_eq_mult algebra_simps)
    show "is_vec4 (if elem4 r i \<noteq> One4 then t else multiply_step l i t) w (int_bit4 (a * take_bit (Suc i) b))"
      unfolding n using multiply_step_vec [OF assms(1) t, of i] t i reads_bit [OF assms(2) i] by simp
  qed simp
  have "take_bit w (a * take_bit w b) = take_bit w (a * b)" by (simp add: take_bit_eq_mod mod_mult_right_eq)
  then show ?thesis by (intro is_vec4_cong [OF vec] int_bit4_cong)
qed

lemma one_vec:
  assumes "0 < w" "w \<le> size_max div 4"
  shows "is_vec4 (put4 (make_packed w Zero4) 0 One4) w (int_bit4 1)"
  by (rule is_vec4_cong [OF is_vec4_put [OF make_packed_vec [OF assms(2)] assms(1)]])
     (auto simp: int_bit4_def bit_1_iff)

lemma power_loop_vec:
  assumes a: "reads base w a" and e: "reads e n b" "0 < w"
  shows "is_vec4 (fst (for_range 0 n (\<lambda>index (result, factor).
                (if elem4 e index = One4 then multiply_known result factor else result,
                 if index + 1 < n then multiply_known factor factor else factor))
            (put4 (make_packed w Zero4) 0 One4, base))) w (int_bit4 (a ^ nat (take_bit n b)))"
proof -
  define P where "P i t \<longleftrightarrow> is_vec4 (fst t) w (int_bit4 (a ^ nat (take_bit i b))) \<and>
      (i < n \<longrightarrow> reads (snd t) w (a ^ (2 ^ i)))" for i and t :: "packed_logic4 \<times> packed_logic4"
  have "P n (for_range 0 n (\<lambda>index (result, factor).
                (if elem4 e index = One4 then multiply_known result factor else result,
                 if index + 1 < n then multiply_known factor factor else factor))
            (put4 (make_packed w Zero4) 0 One4, base))" (is "P n (for_range 0 n ?body ?s)")
  proof (rule for_range_invariant)
    show "P 0 ?s" using one_vec [OF e(2) reads_width(2) [OF a]] a by (simp add: P_def)
    fix i and t :: "packed_logic4 \<times> packed_logic4"
    assume i: "i < n" and p: "P i t"
    obtain r f where t: "t = (r, f)" by (cases t)
    from p i have r: "is_vec4 r w (int_bit4 (a ^ nat (take_bit i b)))" and f: "reads f w (a ^ (2 ^ i))"
      by (simp_all add: P_def t)
    have "a ^ nat (take_bit (Suc i) b) = a ^ nat (take_bit i b) * (if bit b i then a ^ (2 ^ i) else 1)"
      by (simp add: take_bit_Suc_sum nat_add_distrib power_add nat_power_eq)
    moreover have "a ^ (2 ^ Suc i) = a ^ (2 ^ i) * a ^ (2 ^ i)" by (simp add: mult_2 power_add)
    ultimately show "P (Suc i) (?body i t)"
      using multiply_known_vec [OF reads_vec4 [OF r] f] multiply_known_vec [OF f f] r reads_bit [OF e(1) i]
      by (simp add: P_def t reads_vec4)
  qed simp
  then show ?thesis by (simp add: P_def)
qed

subsection \<open>Comparison\<close>

lemma compare_known_unsigned_spec:
  assumes "reads l w a" "reads r w b"
  shows "compare_known_unsigned l r = sgn (take_bit w a - take_bit w b)"
proof -
  have w: "width4 l = w" using reads_width assms by auto
  have "(case find (\<lambda>i. elem4 l i \<noteq> elem4 r i) (rev [0..<n]) of None \<Rightarrow> 0
      | Some i \<Rightarrow> if elem4 l i = One4 then 1 else - 1) = sgn (take_bit n a - take_bit n b)" if "n \<le> w" for n
    using that
  proof (induction n)
    case (Suc n)
    have n: "n < w" using Suc.prems by simp
    have el: "elem4 l n = int_bit4 a n" "elem4 r n = int_bit4 b n" using assms n by (simp_all add: reads_def)
    have lt: "take_bit n b < take_bit n a + 2 ^ n" "take_bit n a < take_bit n b + 2 ^ n"
      using take_bit_int_less_exp [of n a] take_bit_int_less_exp [of n b] take_bit_nonnegative [of n a] take_bit_nonnegative [of n b]
      by linarith+
    from Suc.IH n lt show ?case
      by (cases "bit a n"; cases "bit b n") (auto simp: el int_bit4_def take_bit_Suc_sum sgn_if)
  qed simp
  then show ?thesis unfolding compare_known_unsigned_def w by simp
qed

subsection \<open>Restoring division\<close>

lemma shift_loop_vec:
  "is_vec4 r w f \<Longrightarrow> n \<le> w \<Longrightarrow>
   is_vec4 (fold (\<lambda>i r. put4 r i (elem4 r (i - 1))) (rev [1..<n]) r) w (\<lambda>i. if 1 \<le> i \<and> i < n then f (i - 1) else f i)"
proof (induction n arbitrary: r f)
  case (Suc n)
  show ?case
  proof (cases "n = 0")
    case False
    have n: "n < w" "n - 1 < w" "[1..<Suc n] = [1..<n] @ [n]" using Suc.prems(2) False by auto
    have "is_vec4 (put4 r n (elem4 r (n - 1))) w (f(n := f (n - 1)))"
      unfolding is_vec4D(4) [OF Suc.prems(1) n(2)]
      by (rule is_vec4_cong [OF is_vec4_put [OF Suc.prems(1) n(1)]]) simp
    from Suc.IH [OF this] n(1) have
      "is_vec4 (fold (\<lambda>i r. put4 r i (elem4 r (i - 1))) (rev [1..<n]) (put4 r n (elem4 r (n - 1)))) w
        (\<lambda>i. if 1 \<le> i \<and> i < n then (f(n := f (n - 1))) (i - 1) else (f(n := f (n - 1))) i)" by simp
    then show ?thesis unfolding n(3) rev_append by simp (erule is_vec4_cong, use False in auto)
  qed (use Suc.prems(1) in \<open>simp, auto elim!: is_vec4_cong\<close>)
qed (auto elim!: is_vec4_cong)

lemma shift_in_vec:
  assumes "is_vec4 r w (int_bit4 k)" "0 < w"
  shows "is_vec4 (shift_in r (int_bit4 a n)) w (int_bit4 (2 * k + of_bool (bit a n)))"
proof -
  have "is_vec4 (shift_in r (int_bit4 a n)) w
      ((\<lambda>i. if 1 \<le> i \<and> i < w then int_bit4 k (i - 1) else int_bit4 k i)(0 := int_bit4 a n))"
    unfolding shift_in_def is_vec4D(3) [OF assms(1)]
    by (rule is_vec4_put [OF shift_loop_vec [OF assms(1)] assms(2)]) simp
  then show ?thesis
  proof (rule is_vec4_cong)
    fix i assume "i < w"
    have "bit (2 * k + of_bool (bit a n)) i = (if i = 0 then bit a n else bit k (i - 1))"
      by (cases i) (auto simp: bit_0 bit_Suc)
    then show "((\<lambda>i. if 1 \<le> i \<and> i < w then int_bit4 k (i - 1) else int_bit4 k i)(0 := int_bit4 a n)) i =
        int_bit4 (2 * k + of_bool (bit a n)) i" using \<open>i < w\<close> by (auto simp: int_bit4_def)
  qed
qed

lemma div_mod_shift:
  fixes A b d :: int
  assumes "0 < b" "d = 0 \<or> d = 1"
  shows "2 * (A mod b) + d \<ge> b \<Longrightarrow> (2 * A + d) div b = 2 * (A div b) + 1 \<and> (2 * A + d) mod b = 2 * (A mod b) + d - b"
    "2 * (A mod b) + d < b \<Longrightarrow> (2 * A + d) div b = 2 * (A div b) \<and> (2 * A + d) mod b = 2 * (A mod b) + d"
proof -
  obtain q r where qr: "A div b = q" "A mod b = r" "A = b * q + r" by (metis mult_div_mod_eq)
  have r: "0 \<le> r" "r < b" using assms(1) qr(2) by auto
  have up: "2 * A + d = b * (2 * q + 1) + (2 * r + d - b)" and down: "2 * A + d = b * (2 * q) + (2 * r + d)"
    unfolding qr(3) by (simp_all add: algebra_simps)
  show "(2 * A + d) div b = 2 * (A div b) + 1 \<and> (2 * A + d) mod b = 2 * (A mod b) + d - b" if "2 * (A mod b) + d \<ge> b"
    unfolding qr(1,2) using that int_div_pos_eq [OF up] int_mod_pos_eq [OF up] r assms(2) unfolding qr(2) by auto
  show "(2 * A + d) div b = 2 * (A div b) \<and> (2 * A + d) mod b = 2 * (A mod b) + d" if "2 * (A mod b) + d < b"
    unfolding qr(1,2) using that int_div_pos_eq [OF down] int_mod_pos_eq [OF down] r assms(2) unfolding qr(2) by auto
qed

lemma put_one_number:
  assumes "is_vec4 q w (int_bit4 x)" "k < w" "\<not> bit x k"
  shows "is_vec4 (put4 q k One4) w (int_bit4 (x + 2 ^ k))"
proof -
  have "x + 2 ^ k = x OR 2 ^ k"
    by (rule disjunctive_add_eq_or) (use assms(3) in \<open>auto intro!: bit_eqI simp: bit_and_iff bit_exp_iff\<close>)
  then show ?thesis
    by (intro is_vec4_cong [OF is_vec4_put [OF assms(1,2)]]) (simp add: int_bit4_def bit_or_iff bit_exp_iff)
qed

lemma for_down_invariant:
  assumes "P n s" and "\<And>i t. i < n \<Longrightarrow> P (Suc i) t \<Longrightarrow> P i (body i t)"
  shows "P 0 (for_down n body s)"
  using assms by (induction n arbitrary: s) (simp_all add: for_down_Suc)

lemma divide_known_vec:
  assumes a: "reads l w a" "0 \<le> a" "a < 2 ^ w" and b: "reads r w b" "0 < b" "b < 2 ^ w" and w: "0 < w"
  shows "is_vec4 (fst (divide_known l r)) w (int_bit4 (a div b))"
    "is_vec4 (snd (divide_known l r)) w (int_bit4 (a mod b))"
proof -
  have w': "width4 l = w" "w \<le> size_max div 4" using reads_width a by auto
  define P where "P k t \<longleftrightarrow> is_vec4 (fst t) w (int_bit4 (a div 2 ^ k div b * 2 ^ k)) \<and>
      is_vec4 (snd t) w (int_bit4 (a div 2 ^ k mod b))" for k and t :: "packed_logic4 \<times> packed_logic4"
  have zero: "is_vec4 (make_packed w Zero4) w (int_bit4 0)"
    by (rule is_vec4_cong [OF make_packed_vec [OF w'(2)]]) (simp add: int_bit4_def)
  have "P 0 (divide_known l r)" unfolding divide_known_def w'(1)
  proof (rule for_down_invariant)
    show "P w (make_packed w Zero4, make_packed w Zero4)" using zero a by (simp add: P_def)
    fix k and t :: "packed_logic4 \<times> packed_logic4"
    assume k: "k < w" and p: "P (Suc k) t"
    obtain q m where t: "t = (q, m)" by (cases t)
    define A d where "A = a div 2 ^ Suc k" and "d = (of_bool (bit a k) :: int)"
    have step: "a div 2 ^ k = 2 * A + d"
      unfolding A_def d_def using div_mult_mod_eq [of "a div 2 ^ k" 2]
      by (simp add: zdiv_zmult2_eq power_Suc2 bit_iff_odd mod_2_eq_odd del: power_Suc)
    have q: "is_vec4 q w (int_bit4 (A div b * 2 ^ Suc k))" and m: "is_vec4 m w (int_bit4 (A mod b))"
      using p by (simp_all add: P_def t A_def)
    have el: "elem4 l k = int_bit4 a k" using a(1) k by (simp add: reads_def)
    have m': "is_vec4 (shift_in m (elem4 l k)) w (int_bit4 (2 * (A mod b) + d))"
      unfolding el d_def by (rule shift_in_vec [OF m w])
    have A: "0 \<le> A" "2 * A + d < 2 ^ w" "d = 0 \<or> d = 1" "0 \<le> A mod b" "A mod b \<le> A"
    proof -
      show "0 \<le> A" "d = 0 \<or> d = 1" "0 \<le> A mod b" using a(2) b(2) by (simp_all add: A_def d_def pos_imp_zdiv_nonneg_iff)
      have "a div 2 ^ k \<le> a" using a(2) zdiv_mono2 [of a 1 "2 ^ k"] by simp
      then show "2 * A + d < 2 ^ w" using a(3) step by simp
      show "A mod b \<le> A" using \<open>0 \<le> A\<close> by (simp add: zmod_le_nonneg_dividend)
    qed
    have tm: "take_bit w (2 * (A mod b) + d) = 2 * (A mod b) + d" "take_bit w b = b"
      by (rule take_bit_int_eq_self; use A b in linarith)+
    have cmp: "compare_known_unsigned (shift_in m (elem4 l k)) r \<ge> 0 \<longleftrightarrow> 2 * (A mod b) + d \<ge> b"
      unfolding compare_known_unsigned_spec [OF reads_vec4 [OF m'] b(1)] tm by (simp add: sgn_if)
    have bit: "\<not> bit (A div b * 2 ^ Suc k) k" by (simp add: bit_iff_odd)
    show "P k (case t of (q, m) \<Rightarrow> let m = shift_in m (elem4 l k)
       in if compare_known_unsigned m r \<ge> 0 then (put4 q k One4, subtract_known m r) else (q, m))"
    proof (cases "2 * (A mod b) + d \<ge> b")
      case True
      have "A div b * 2 ^ Suc k + 2 ^ k = (2 * (A div b) + 1) * 2 ^ k" by (simp add: algebra_simps)
      with put_one_number [OF q k bit] subtract_known_vec [OF reads_vec4 [OF m'] b(1)] div_mod_shift(1) [OF b(2) A(3) True]
      show ?thesis using True by (simp add: P_def t Let_def cmp step)
    next
      case False
      then have lt: "2 * (A mod b) + d < b" by simp
      from q m' div_mod_shift(2) [OF b(2) A(3) lt] lt
      show ?thesis by (simp add: P_def t Let_def cmp step mult.assoc mult.left_commute)
    qed
  qed
  then show "is_vec4 (fst (divide_known l r)) w (int_bit4 (a div b))"
    "is_vec4 (snd (divide_known l r)) w (int_bit4 (a mod b))" by (simp_all add: P_def)
qed

lemma reads_cong: "reads v w k \<Longrightarrow> take_bit w k = take_bit w l \<Longrightarrow> reads v w l"
  unfolding reads_def using int_bit4_cong by metis

lemma signed_reading:
  fixes a :: int
  assumes "0 < w" "0 \<le> a" "a < 2 ^ w"
  defines "s \<equiv> signed_take_bit (w - 1) a"
  shows "take_bit w s = a" "s < 0 \<longleftrightarrow> bit a (w - 1)" "\<bar>s\<bar> < 2 ^ w" "s = 0 \<longleftrightarrow> a = 0"
proof -
  show t: "take_bit w s = a" using assms by (simp add: s_def take_bit_signed_take_bit take_bit_int_eq_self)
  show "s < 0 \<longleftrightarrow> bit a (w - 1)" by (simp add: s_def signed_take_bit_negative_iff)
  show l: "\<bar>s\<bar> < 2 ^ w"
    using assms(1) signed_take_bit_int_greater_eq_minus_exp [of "w - 1" a] signed_take_bit_int_less_exp [of "w - 1" a]
      power_strict_increasing [of "w - 1" w "2 :: int"] unfolding s_def by linarith
  show "s = 0 \<longleftrightarrow> a = 0" using take_bit_zero_small [OF l] t by simp
qed

lemma magnitude_reads:
  assumes "reads v w a" "0 < w" "0 \<le> a" "a < 2 ^ w"
  defines "s \<equiv> signed_take_bit (w - 1) a"
  shows "reads (if elem4 v (w - 1) = One4 then negate_known v else v) w \<bar>s\<bar>"
proof -
  note s = signed_reading [OF assms(2-4), folded s_def]
  have neg: "elem4 v (w - 1) = One4 \<longleftrightarrow> s < 0" using reads_bit [OF assms(1), of "w - 1"] assms(2) s(2) by simp
  have "take_bit w (- a) = take_bit w (- s)" by (metis s(1) take_bit_minus)
  then have "reads (negate_known v) w (- s)" by (rule reads_cong [OF reads_vec4 [OF negate_known_vec [OF assms(1)]]])
  moreover have "reads v w s"
    by (rule reads_cong [OF assms(1)]) (use s(1) assms(3,4) in \<open>simp add: take_bit_int_eq_self\<close>)
  ultimately show ?thesis unfolding neg by simp
qed

lemma divide_known_signed_vec:
  assumes a: "reads l w a" "0 \<le> a" "a < 2 ^ w" and b: "reads r w b" "0 < b" "b < 2 ^ w" and w: "0 < w"
  defines "sa \<equiv> signed_take_bit (w - 1) a" and "sb \<equiv> signed_take_bit (w - 1) b"
  shows "is_vec4 (fst (divide_known_signed l r)) w (int_bit4 (sa sdiv sb))"
    "is_vec4 (snd (divide_known_signed l r)) w (int_bit4 (sa smod sb))"
proof -
  have b0: "0 \<le> b" using b(2) by simp
  note sa = signed_reading [OF w a(2,3), folded sa_def] and sb = signed_reading [OF w b0 b(3), folded sb_def]
  have neg: "elem4 l (w - 1) = One4 \<longleftrightarrow> sa < 0" "elem4 r (w - 1) = One4 \<longleftrightarrow> sb < 0"
    using reads_bit [OF a(1), of "w - 1"] reads_bit [OF b(1), of "w - 1"] w sa(2) sb(2) by simp_all
  have nz: "sb \<noteq> 0" using sb(4) b(2) by simp
  define lm rm where "lm = (if sa < 0 then negate_known l else l)" and "rm = (if sb < 0 then negate_known r else r)"
  have "reads lm w \<bar>sa\<bar>" "reads rm w \<bar>sb\<bar>"
    using magnitude_reads [OF a(1) w a(2,3)] magnitude_reads [OF b(1) w b0 b(3)]
    unfolding neg sa_def [symmetric] sb_def [symmetric] lm_def rm_def by simp_all
  from divide_known_vec [OF this(1) _ sa(3) this(2) _ sb(3) w] nz
  have qr: "is_vec4 (fst (divide_known lm rm)) w (int_bit4 (\<bar>sa\<bar> div \<bar>sb\<bar>))"
    "is_vec4 (snd (divide_known lm rm)) w (int_bit4 (\<bar>sa\<bar> mod \<bar>sb\<bar>))" by simp_all
  have "divide_known_signed l r =
      (if (sa < 0) \<noteq> (sb < 0) then negate_known (fst (divide_known lm rm)) else fst (divide_known lm rm),
       if sa < 0 then negate_known (snd (divide_known lm rm)) else snd (divide_known lm rm))"
    unfolding divide_known_signed_def reads_width(1) [OF a(1)] reads_width(1) [OF b(1)] neg Let_def
      lm_def [symmetric] rm_def [symmetric] by (simp add: case_prod_beta)
  then show "is_vec4 (fst (divide_known_signed l r)) w (int_bit4 (sa sdiv sb))"
    "is_vec4 (snd (divide_known_signed l r)) w (int_bit4 (sa smod sb))"
    unfolding sdiv_smod_signs [OF nz]
    using qr negate_known_vec [OF reads_vec4 [OF qr(1)]] negate_known_vec [OF reads_vec4 [OF qr(2)]]
    by (cases "sa < 0"; cases "sb < 0"; simp)+
qed

subsection \<open>The arithmetic operators\<close>

lemma bit_below:
  fixes a :: int
  assumes "0 \<le> a" "a < 2 ^ w" "bit a i"
  shows "i < w"
  by (metis assms bit_take_bit_iff take_bit_int_eq_self)

lemma number_tests:
  assumes "reads v w a" "0 \<le> a" "a < 2 ^ w" "0 < w"
  shows "is_zero v \<longleftrightarrow> a = 0" "is_one v \<longleftrightarrow> a = 1" "is_all_ones v \<longleftrightarrow> a = 2 ^ w - 1"
proof -
  have e: "elem4 v i = int_bit4 a i" if "i < w" for i using assms(1) that by (simp add: reads_def)
  have w: "width4 v = w" by (rule reads_width(1) [OF assms(1)])
  note below = bit_below [OF assms(2,3)]
  have z: "is_zero v \<longleftrightarrow> (\<forall>i<w. \<not> bit a i)" using e by (auto simp: is_zero_def w list_all_iff)
  show "is_zero v \<longleftrightarrow> a = 0"
  proof
    assume "is_zero v"
    then show "a = 0" unfolding z using below by (intro bit_eqI) auto
  qed (simp add: z)
  have o: "is_one v \<longleftrightarrow> bit a 0 \<and> (\<forall>i<w. 0 < i \<longrightarrow> \<not> bit a i)"
    using e assms(4) by (auto simp: is_one_def w list_all_iff Suc_le_eq)
  show "is_one v \<longleftrightarrow> a = 1"
  proof
    assume "is_one v"
    then show "a = 1" unfolding o using below by (intro bit_eqI) (auto simp: bit_1_iff)
  qed (simp add: o bit_1_iff)
  have m: "is_all_ones v \<longleftrightarrow> (\<forall>i<w. bit a i)" using e by (auto simp: is_all_ones_def w list_all_iff)
  show "is_all_ones v \<longleftrightarrow> a = 2 ^ w - 1" unfolding mask_eq_exp_minus_1 [symmetric]
  proof
    assume "is_all_ones v"
    then show "a = mask w" unfolding m using below by (intro bit_eqI) (auto simp: bit_mask_iff)
  qed (simp add: m bit_mask_iff)
qed

lemma has_unknown_iff: "has_unknown v \<longleftrightarrow> any_unknown (width4 v) (elem4 v)"
  by (auto simp: has_unknown_def any_unknown_def unknown4_def list_ex_iff)

lemma x_val: "w \<le> size_max div 4 \<Longrightarrow> is_val4 nine (make_packed w X4) w (\<lambda>_. X4)"
  by (rule is_val4_vec4) (rule make_packed_vec)

lemma power_known_val:
  assumes a: "reads l w a" "0 \<le> a" "a < 2 ^ w" and b: "reads r w b" "0 \<le> b" "b < 2 ^ w" and w: "0 < w"
  shows "is_val4 (is_logic9 l) (power_known l r s) w (case spec_power w a b s of None \<Rightarrow> \<lambda>_. X4 | Some k \<Rightarrow> int_bit4 k)"
proof -
  have w': "width4 l = w" "width4 r = w" "w \<le> size_max div 4" using reads_width a(1) b(1) by auto
  have neg: "elem4 r (w - 1) = One4 \<longleftrightarrow> signed_take_bit (w - 1) b < 0"
    using reads_bit [OF b(1), of "w - 1"] w by (simp add: signed_take_bit_negative_iff)
  have odd: "elem4 r 0 = One4 \<longleftrightarrow> odd b" using reads_bit [OF b(1) w] by (simp add: bit_0)
  have zero: "is_val4 (is_logic9 l) (make_packed w Zero4) w (int_bit4 0)" using make_packed_reads [OF w'(3)] by (simp add: is_val4_reads)
  have one: "is_val4 (is_logic9 l) (put4 (make_packed w Zero4) 0 One4) w (int_bit4 1)" by (rule is_val4_vec4 [OF one_vec [OF w w'(3)]])
  have minus: "is_val4 (is_logic9 l) l w (int_bit4 (- 1))" if "a = 2 ^ w - 1"
    unfolding is_val4_reads using reads_cong [OF a(1), of "- 1"] by (simp add: that take_bit_eq_mod mod_diff_eq [symmetric])
  show ?thesis
  proof (cases "s \<and> signed_take_bit (w - 1) b < 0")
    case True
    show ?thesis
      unfolding power_known_def w' neg odd Let_def number_tests [OF a w] spec_power_def
      using True zero one minus x_val [OF w'(3)] by (auto simp: is_val4_reads)
  next
    case False
    have e: "(if s then signed_take_bit (w - 1) b else b) = b"
      using False signed_take_bit_cases [OF w b(2,3)] by (cases s) (simp_all del: signed_take_bit_negative_iff)
    have "spec_power w a b s = Some (a ^ nat b)" unfolding spec_power_def e Let_def using b(2) by simp
    moreover have "take_bit w b = b" using b by (simp add: take_bit_int_eq_self)
    ultimately show ?thesis
      using power_loop_vec [OF a(1) b(1) w] False unfolding power_known_def w' neg Let_def
      by (auto intro: is_val4_vec4)
  qed
qed

lemma signed_division_val:
  assumes a: "reads l w a" "0 \<le> a" "a < 2 ^ w" and b: "reads r w b" "0 < b" "b < 2 ^ w" and w: "0 < w"
    and operation: "operation \<in> {Divide_signed, Remainder_signed, Modulo_signed}"
  shows "is_val4 (is_logic9 l) (let (quotient, remainder) = divide_known_signed l r
        in if operation = Divide_signed then quotient
           else if operation = Modulo_signed \<and> \<not> is_zero remainder
                   \<and> elem4 l (width4 l - 1) \<noteq> elem4 r (width4 r - 1)
           then add_known remainder r
           else remainder) w (int_bit4 (the (spec_number operation w a b)))"
proof -
  define sa sb where "sa = signed_take_bit (w - 1) a" and "sb = signed_take_bit (w - 1) b"
  define q m where "q = fst (divide_known_signed l r)" and "m = snd (divide_known_signed l r)"
  have b0: "0 \<le> b" using b(2) by simp
  note sa = signed_reading [OF w a(2,3), folded sa_def] and sb = signed_reading [OF w b0 b(3), folded sb_def]
  have nz: "sb \<noteq> 0" using sb(4) b(2) by simp
  have qv: "is_vec4 q w (int_bit4 (sa sdiv sb))" and mv: "is_vec4 m w (int_bit4 (sa smod sb))"
    unfolding q_def m_def sa_def sb_def by (rule divide_known_signed_vec [OF a b w])+
  have neq: "elem4 l (w - 1) \<noteq> elem4 r (w - 1) \<longleftrightarrow> (sa < 0) \<noteq> (sb < 0)"
    using a(1) b(1) w sa(2) sb(2) by (simp add: reads_def int_bit4_inject)
  have "\<bar>sa smod sb\<bar> < \<bar>sb\<bar>" using nz by (simp add: sdiv_smod_signs)
  then have "\<bar>sa smod sb\<bar> < 2 ^ w" using sb(3) by linarith
  from take_bit_zero_small [OF this] number_tests(1) [OF reads_cong [OF reads_vec4 [OF mv]], of "take_bit w (sa smod sb)"] w
  have z: "is_zero m \<longleftrightarrow> sa smod sb = 0" by simp
  have "take_bit w b = take_bit w sb" using sb(1) b0 b(3) by (simp add: take_bit_int_eq_self)
  from add_known_vec [OF reads_vec4 [OF mv] reads_cong [OF b(1) this]]
  have sum: "is_vec4 (add_known m r) w (int_bit4 (sa smod sb + sb))" .
  have spec: "the (spec_number operation w a b) =
      (if operation = Divide_signed then sa sdiv sb else if operation = Remainder_signed then sa smod sb else sa mod sb)"
    unfolding spec_number_def Let_def sa_def [symmetric] sb_def [symmetric] using operation b(2) by auto
  from operation show ?thesis
    unfolding spec mod_smod [OF nz, of sa] reads_width(1) [OF a(1)] reads_width(1) [OF b(1)] neq case_prod_beta Let_def
      q_def [symmetric] m_def [symmetric] z
    using sum qv mv by (elim insertE emptyE) (auto intro: is_val4_vec4)
qed

lemma arithmetic_value_val:
  assumes ok: "logic4_ok l" "logic4_ok r" "width4 l = w" "width4 r = w" "0 < w" "is_arithmetic operation"
  shows "is_val4 (is_logic9 l) (arithmetic_value operation l r) w (spec_arithmetic operation w (elem4 l) (elem4 r))"
proof (cases "any_unknown w (elem4 l) \<or> any_unknown w (elem4 r)")
  case True
  then show ?thesis
    using x_val [of w] ok(1,3) by (auto simp: arithmetic_value_def spec_arithmetic_def has_unknown_iff ok logic4_ok_def)
next
  case False
  define a b where "a = val_of w (elem4 l)" and "b = val_of w (elem4 r)"
  have a: "reads l w a" "0 \<le> a" "a < 2 ^ w" and b: "reads r w b" "0 \<le> b" "b < 2 ^ w"
    using False reads_known [OF ok(1)] reads_known [OF ok(2)] val_of_bounds ok(3,4)
    by (auto simp: a_def b_def any_unknown_def)
  have w: "w \<le> size_max div 4" by (rule reads_width(2) [OF a(1)])
  have z: "is_zero r \<longleftrightarrow> b = 0" by (rule number_tests(1) [OF b ok(5)])
  have signed: "b \<noteq> 0 \<Longrightarrow> operation \<in> {Divide_signed, Remainder_signed, Modulo_signed} \<Longrightarrow>
      is_val4 (is_logic9 l) (let (quotient, remainder) = divide_known_signed l r
        in if operation = Divide_signed then quotient
           else if operation = Modulo_signed \<and> \<not> is_zero remainder
                   \<and> elem4 l (width4 l - 1) \<noteq> elem4 r (width4 r - 1)
           then add_known remainder r
           else remainder) w (int_bit4 (the (spec_number operation w a b)))"
    using signed_division_val [OF a b(1) _ b(3) ok(5)] b(2) by simp
  note signed = signed [unfolded ok(3,4)]
  note quot = divide_known_vec [OF a b(1) _ b(3) ok(5)]
  have spec: "spec_arithmetic operation w (elem4 l) (elem4 r) =
      (case spec_number operation w a b of None \<Rightarrow> \<lambda>_. X4 | Some k \<Rightarrow> int_bit4 k)"
    using False by (simp add: spec_arithmetic_def a_def b_def)
  have known: "has_unknown l = False" "has_unknown r = False" using False by (simp_all add: has_unknown_iff ok)
  from ok(6) [unfolded is_arithmetic_def] show ?thesis
    unfolding spec arithmetic_value_def known z ok(3,4)
    using add_known_vec [OF a(1) b(1)] subtract_known_vec [OF a(1) b(1)] multiply_known_vec [OF a(1) b(1)]
      power_known_val [OF a b ok(5)] x_val [OF w] quot signed b(2)
    by (elim insertE emptyE) (auto simp: spec_number_def Let_def case_prod_beta intro: is_val4_vec4)
qed

subsection \<open>The comparisons\<close>

lemma flags_loop:
  assumes "\<And>i u m. i < n \<Longrightarrow> body i (u, m) = (u \<or> U i, m \<or> M i)"
  shows "for_range 0 n body (False, False) = (\<exists>i<n. U i, \<exists>i<n. M i)"
  by (rule for_range_invariant [where P = "\<lambda>n t. t = (\<exists>i<n. U i, \<exists>i<n. M i)"]) (auto simp: assms less_Suc_eq)

lemma known4_cases: "e = Zero4 \<or> e = One4 \<longleftrightarrow> \<not> unknown4 e"
  by (cases e) (simp_all add: unknown4_def)

lemma equal_state_spec: "equal_state l r = spec_equal (width4 l) (elem4 l) (elem4 r)"
proof -
  define U where "U i \<longleftrightarrow> unknown4 (elem4 l i) \<or> unknown4 (elem4 r i)" for i
  define M where "M i \<longleftrightarrow> \<not> unknown4 (elem4 l i) \<and> \<not> unknown4 (elem4 r i) \<and> elem4 l i \<noteq> elem4 r i" for i
  have "equal_state l r = (let (unknown, mismatch) = (\<exists>i<width4 l. U i, \<exists>i<width4 l. M i)
      in if mismatch then Zero4 else if unknown then X4 else One4)"
    unfolding equal_state_def
    by (subst flags_loop [where U = U and M = M])
       (auto simp: U_def M_def Let_def known4_cases)
  then show ?thesis by (auto simp: spec_equal_def any_unknown_def U_def M_def)
qed

lemma wildcard_state_spec: "wildcard_state l r = spec_wildcard (width4 l) (elem4 l) (elem4 r)"
proof -
  define U where "U i \<longleftrightarrow> unknown4 (elem4 l i) \<and> \<not> unknown4 (elem4 r i)" for i
  define M where "M i \<longleftrightarrow> \<not> unknown4 (elem4 l i) \<and> \<not> unknown4 (elem4 r i) \<and> elem4 l i \<noteq> elem4 r i" for i
  have "wildcard_state l r = (let (unknown, mismatch) = (\<exists>i<width4 l. U i, \<exists>i<width4 l. M i)
      in if mismatch then Zero4 else if unknown then X4 else One4)"
    unfolding wildcard_state_def
    by (subst flags_loop [where U = U and M = M]) (simp_all add: U_def M_def unknown4_def Let_def)
  then show ?thesis by (auto simp: spec_wildcard_def U_def M_def)
qed

lemma case_state_spec:
  assumes "\<not> is_logic9 l" "\<not> is_logic9 r" "operation \<in> {Case_equal, Casez_equal, Casex_equal}"
  shows "case_state operation l r = spec_binary operation (width4 l) (elem4 l) (elem4 r) i"
  using assms(3)
  by (elim insertE emptyE)
     (auto simp: case_state_def assms(1,2) spec_binary_def of_bool4_def list_all_iff Let_def unknown4_def)

lemma relation_state_spec:
  assumes ok: "logic4_ok l" "logic4_ok r" "width4 l = w" "width4 r = w" "0 < w" and operation: "is_relational operation"
  shows "relation_state operation l r = spec_binary operation w (elem4 l) (elem4 r) i"
proof -
  have spec: "spec_binary operation w (elem4 l) (elem4 r) i =
      (if any_unknown w (elem4 l) \<or> any_unknown w (elem4 r) then X4
       else of_bool4 (if is_signed_relational operation
             then spec_relation operation (sval_of w (elem4 l)) (sval_of w (elem4 r))
             else spec_relation operation (val_of w (elem4 l)) (val_of w (elem4 r))))"
    using operation unfolding is_relational_def by (elim insertE emptyE) (simp_all add: spec_binary_def is_relational_def)
  have test: "list_ex (\<lambda>index. elem4 l index = X4 \<or> elem4 l index = Z4 \<or> elem4 r index = X4 \<or> elem4 r index = Z4) [0..<w] \<longleftrightarrow> any_unknown w (elem4 l) \<or> any_unknown w (elem4 r)"
    by (auto simp: list_ex_iff any_unknown_def unknown4_def Let_def)
  show ?thesis
  proof (cases "any_unknown w (elem4 l) \<or> any_unknown w (elem4 r)")
    case False
    define a b where "a = val_of w (elem4 l)" and "b = val_of w (elem4 r)"
    have a: "reads l w a" "0 \<le> a" "a < 2 ^ w" and b: "reads r w b" "0 \<le> b" "b < 2 ^ w"
      using False reads_known [OF ok(1)] reads_known [OF ok(2)] val_of_bounds ok(3,4)
      by (auto simp: a_def b_def any_unknown_def)
    define ln rn where "ln \<longleftrightarrow> elem4 l (w - 1) = One4" and "rn \<longleftrightarrow> elem4 r (w - 1) = One4"
    define sa sb where "sa = sval_of w (elem4 l)" and "sb = sval_of w (elem4 r)"
    have s: "sa = (if ln then a - 2 ^ w else a)" "sb = (if rn then b - 2 ^ w else b)"
      unfolding sa_def sb_def ln_def rn_def a_def b_def by (rule sval_of_eq [OF ok(5)])+
    have cmp: "compare_known_unsigned l r = sgn (a - b)"
      using compare_known_unsigned_spec [OF a(1) b(1)] a b by (simp add: take_bit_int_eq_self)
    define c where "c = (if is_signed_relational operation \<and> ln \<noteq> rn then (if ln then - 1 else 1) else sgn (a - b))"
    define x y where "x = (if is_signed_relational operation then sa else a)" and "y = (if is_signed_relational operation then sb else b)"
    have c: "c < 0 \<longleftrightarrow> x < y" "c > 0 \<longleftrightarrow> x > y"
      using a b unfolding c_def x_def y_def s by (auto simp: sgn_if)
    have l: "relation_state operation l r = of_bool4 (
        if operation \<in> {Less_unsigned, Less_signed} then c < 0
        else if operation \<in> {Less_equal_unsigned, Less_equal_signed} then c < 0 \<or> \<not> c > 0
        else if operation \<in> {Greater_unsigned, Greater_signed} then c > 0
        else c > 0 \<or> \<not> c < 0)"
      unfolding relation_state_def ok(3,4) Let_def test if_not_P [OF False] cmp of_bool4_def
        ln_def [symmetric] rn_def [symmetric] c_def [symmetric] ..
    have r: "spec_binary operation w (elem4 l) (elem4 r) i = of_bool4 (spec_relation operation x y)"
      unfolding spec if_not_P [OF False] x_def y_def a_def b_def sa_def sb_def by simp
    show ?thesis unfolding l r spec_relation_def c of_bool4_def by auto
  qed (simp only: relation_state_def ok(3,4) Let_def test spec if_True)
qed

subsection \<open>The binary operators\<close>

lemma scalar_packed: "is_vec4 (make_packed 1 e) 1 (\<lambda>_. e)"
  by (rule make_packed_vec) (simp add: size_max_def)

lemma bitwise_value_vec:
  assumes "logic4_ok l" "\<not> is_logic9 l" "\<not> is_logic9 r" "operation \<in> {Bit_and, Bit_or, Bit_xor}"
  shows "is_vec4 (bitwise_value operation l r) (width4 l) (spec_binary operation w (elem4 l) (elem4 r))"
proof -
  note loop = put4_loop [OF make_packed_vec [OF width_le [OF assms(1)]]]
  from assms(4) show ?thesis
    by (elim insertE emptyE) (simp_all add: bitwise_value_def assms(2,3) spec_binary_def loop)
qed

lemma binary_slow_vec:
  assumes ok: "logic4_ok l" "logic4_ok r" "width4 l = w" "width4 r = w" "0 < w"
    and four: "\<not> is_logic9 l" "\<not> is_logic9 r" and operation: "operation \<noteq> Vhdl_match_equal"
  shows "is_vec4 (binary_slow operation l r) (result_width operation w) (spec_binary operation w (elem4 l) (elem4 r))"
proof -
  consider "operation = Equal" | "operation \<in> {Case_equal, Casez_equal, Casex_equal}" | "operation = Wildcard_equal"
    | "operation = Not_equal" | "is_relational operation" | "is_arithmetic operation" | "operation \<in> {Bit_and, Bit_or, Bit_xor}"
    using operation unfolding is_relational_def is_arithmetic_def by (cases operation) simp_all
  then show ?thesis
  proof cases
    case 1
    then show ?thesis using scalar_packed [of "equal_state l r"]
      by (simp add: binary_slow_def result_width_def is_comparison_def spec_binary_def equal_state_spec ok)
  next
    case 2
    have "is_vec4 (make_packed 1 (case_state operation l r)) 1 (spec_binary operation w (elem4 l) (elem4 r))"
      by (rule is_vec4_cong [OF scalar_packed]) (rule case_state_spec [OF four 2, unfolded ok(3)])
    with 2 show ?thesis by (elim insertE emptyE) (simp_all add: binary_slow_def result_width_def is_comparison_def)
  next
    case 3
    then show ?thesis using scalar_packed [of "wildcard_state l r"]
      by (simp add: binary_slow_def result_width_def is_comparison_def spec_binary_def wildcard_state_spec ok)
  next
    case 4
    have e: "elem4 (make_packed 1 s) 0 = s" for s by (rule is_vec4D(4) [OF scalar_packed]) simp
    have n: "(if s = One4 then Zero4 else if s = Zero4 then One4 else X4) = logic_not4 s" for s
      by (cases s) (simp_all add: logic_not4_def)
    show ?thesis unfolding 4 using scalar_packed [of "logic_not4 (equal_state l r)"]
      by (simp add: binary_slow_def e n result_width_def is_comparison_def spec_binary_def equal_state_spec ok del: One_nat_def)
  next
    case 5
    have "is_vec4 (make_packed 1 (relation_state operation l r)) 1 (spec_binary operation w (elem4 l) (elem4 r))"
      by (rule is_vec4_cong [OF scalar_packed]) (rule relation_state_spec [OF ok 5])
    moreover have "binary_slow operation l r = make_packed 1 (relation_state operation l r)" "result_width operation w = 1"
      using 5 unfolding is_relational_def
      by (elim insertE emptyE; simp add: binary_slow_def is_relational_def result_width_def is_comparison_def)+
    ultimately show ?thesis by simp
  next
    case 6
    have "is_vec4 (arithmetic_value operation l r) w (spec_arithmetic operation w (elem4 l) (elem4 r))"
      using arithmetic_value_val [OF ok 6] four(1) by (intro vec4_is_val4) simp
    moreover have "binary_slow operation l r = arithmetic_value operation l r" "result_width operation w = w"
      "spec_binary operation w (elem4 l) (elem4 r) = spec_arithmetic operation w (elem4 l) (elem4 r)"
      using 6 unfolding is_arithmetic_def
      by (elim insertE emptyE; simp add: binary_slow_def is_relational_def is_arithmetic_def result_width_def is_comparison_def spec_binary_def)+
    ultimately show ?thesis by simp
  next
    case 7
    have "binary_slow operation l r = bitwise_value operation l r" "result_width operation w = w"
      using 7 by (elim insertE emptyE; simp add: binary_slow_def is_relational_def is_arithmetic_def result_width_def is_comparison_def)+
    with bitwise_value_vec [OF ok(1) four 7] ok(3) show ?thesis by simp
  qed
qed

lemma front_word_vec:
  assumes "logic4_ok v" "\<not> is_logic9 v" "0 < width4 v" "width4 v \<le> 64"
  shows "word_vec \<lparr>ka = front (aval_words v), kb = front (bval_words v)\<rparr> (width4 v) (elem4 v)"
proof -
  obtain x :: logic4_word where x: "aval_words v = [w4_aval x]" "bval_words v = [w4_bval x]"
    "\<forall>i. bit (w4_aval x) i \<longrightarrow> i < width4 v" "\<forall>i. bit (w4_bval x) i \<longrightarrow> i < width4 v"
    "\<forall>i<width4 v. elem4 v i = word_elem x i"
    by (rule low_word_ok [OF assms]) (rule that, assumption+)
  have "aval_of (word_elem x i) = bit (w4_aval x) i" "bval_of (word_elem x i) = bit (w4_bval x) i" for i
    by (simp_all add: word_elem_def)
  with x assms(4) show ?thesis by (auto simp: word_vec_def front_def)
qed

lemma from_aval_bval_vec:
  assumes "word_vec x w f" "0 < w"
  shows "\<exists>v. from_aval_bval w (ka x) (kb x) = Inr v \<and> is_vec4 v w f"
proof -
  have "logic4_of_bits (bit (ka x) i) (bit (kb x) i) = f i" if "i < w" for i
    using word_vecD(2,3) [OF assms(1), of i] that by simp
  with from_aval_bval_ok [OF assms(2) word_vecD(1) [OF assms(1)], of "ka x" "kb x"] show ?thesis
    by (auto simp: is_vec4_def)
qed

lemma binary_word_path_vec:
  assumes ok: "logic4_ok l" "logic4_ok r" "width4 l = w" "width4 r = w" "0 < w" "w \<le> 64"
    and four: "\<not> is_logic9 l" "\<not> is_logic9 r" and operation: "operation \<noteq> Vhdl_match_equal"
  shows "\<exists>v. binary_word_path operation l r = Inr v \<and>
    is_vec4 v (result_width operation w) (spec_binary operation w (elem4 l) (elem4 r))"
proof -
  have "word_vec (kw_binary operation \<lparr>ka = front (aval_words l), kb = front (bval_words l)\<rparr>
      \<lparr>ka = front (aval_words r), kb = front (bval_words r)\<rparr> w) (result_width operation w) (spec_binary operation w (elem4 l) (elem4 r))"
    by (rule kw_binary_vec) (use front_word_vec [OF ok(1) four(1)] front_word_vec [OF ok(2) four(2)] ok(3-6) in simp_all)
  moreover have "(if is_comparison operation then 1 else w) = result_width operation w"
    using operation by (simp add: result_width_def)
  moreover have "0 < result_width operation w" using ok(5) by (simp add: result_width_def)
  ultimately show ?thesis
    unfolding binary_word_path_def ok(3) Let_def by (simp only:) (rule from_aval_bval_vec)
qed

lemma vhdl_match_value_eq:
  "vhdl_match_value l r =
    (let a = elem9 l; b = elem9 r; w = width4 l;
         meta = (\<lambda>i. \<not> match_differ (a i) (b i) \<and> \<not> match_agree (a i) (b i))
     in if \<exists>i<w. match_differ (a i) (b i) then make_packed 1 Zero4
        else if \<exists>i<w. meta i \<and> (a i = U9 \<or> b i = U9) then put9 (make_packed 1 X4) 0 U9
        else make_packed 1 (if \<exists>i<w. meta i then X4 else One4))"
proof -
  define a b where "a = elem9 l" and "b = elem9 r"
  define meta where "meta i \<longleftrightarrow> \<not> match_differ (a i) (b i) \<and> \<not> match_agree (a i) (b i)" for i
  define body where "body index = (\<lambda>(unknown, uninitialized).
      let left = match_class (a index); right = match_class (b index)
      in if left = - 1 \<or> right = - 1 then Inr (unknown, uninitialized)
         else if left = 3 \<or> right = 3 then Inr (unknown, True)
         else if left = 2 \<or> right = 2 then Inr (True, uninitialized)
         else if left \<noteq> right then Inl (make_packed 1 Zero4)
         else Inr (unknown, uninitialized))" for index
  have step: "body i (u, n) = (if match_differ (a i) (b i) then Inl (make_packed 1 Zero4)
      else if \<not> meta i then Inr (u, n) else if a i = U9 \<or> b i = U9 then Inr (u, True) else Inr (True, n))" for i u n
    by (cases "a i"; cases "b i"; simp add: body_def meta_def match_differ_def match_agree_def match_class_def)
  have loop: "for_return 0 n body (False, False) =
      (if \<exists>i<n. match_differ (a i) (b i) then Inl (make_packed 1 Zero4)
       else Inr (\<exists>i<n. meta i \<and> \<not> (a i = U9 \<or> b i = U9), \<exists>i<n. meta i \<and> (a i = U9 \<or> b i = U9)))" for n
  proof (induction n)
    case 0
    then show ?case by (simp add: for_return_def)
  next
    case (Suc n)
    then show ?case unfolding for_return_Suc by (auto simp: step exists_below_Suc)
  qed
  have "vhdl_match_value l r = (case for_return 0 (width4 l) body (False, False) of Inl result \<Rightarrow> result
     | Inr (unknown, uninitialized) \<Rightarrow> if uninitialized then put9 (make_packed 1 X4) 0 U9 else make_packed 1 (if unknown then X4 else One4))"
    unfolding vhdl_match_value_def body_def a_def b_def ..
  then show ?thesis unfolding loop a_def [symmetric] b_def [symmetric] Let_def meta_def [symmetric] by auto
qed

lemma vhdl_match_vec:
  assumes "\<not> is_logic9 l" "\<not> is_logic9 r" "match_decided (width4 l) (elem4 l) (elem4 r)"
  shows "is_vec4 (vhdl_match_value l r) 1 (\<lambda>_. spec_equal (width4 l) (elem4 l) (elem4 r))"
proof -
  have differ: "match_differ (elem9 l i) (elem9 r i) \<longleftrightarrow> \<not> unknown4 (elem4 l i) \<and> \<not> unknown4 (elem4 r i) \<and> elem4 l i \<noteq> elem4 r i" for i
    using assms by (cases "elem4 l i"; cases "elem4 r i"; simp add: elem9_logic4 match_differ_def unknown4_def)
  have agree: "match_agree (elem9 l i) (elem9 r i)" if "\<not> unknown4 (elem4 l i)" "\<not> unknown4 (elem4 r i)" "elem4 l i = elem4 r i" for i
    using assms that by (cases "elem4 r i"; simp add: elem9_logic4 match_agree_def unknown4_def)
  show ?thesis
  proof (cases "\<exists>i<width4 l. match_differ (elem9 l i) (elem9 r i)")
    case True
    then show ?thesis using scalar_packed [of Zero4] by (simp add: vhdl_match_value_eq spec_equal_def differ)
  next
    case False
    then have "\<not> any_unknown (width4 l) (elem4 l) \<and> \<not> any_unknown (width4 l) (elem4 r)"
      using assms(3) by (auto simp: match_decided_def differ)
    with False show ?thesis using scalar_packed [of One4] agree differ
      by (auto simp: vhdl_match_value_eq spec_equal_def any_unknown_def Let_def)
  qed
qed


lemma packed_example: "w \<le> 1000 \<Longrightarrow> is_vec4 (make_packed w e) w (\<lambda>_. e)"
  by (rule make_packed_vec) (simp add: size_max_def)


text \<open>
  C2: The word kernel and the bit-serial reference agree: on four-state operands of equal, non-zero
  width \<^verbatim>\<open>binary_value\<close> returns the very value the element loops compute, also where it
  takes the one-word fast path.
\<close>

theorem binary_value_paths:
  assumes "logic4_ok l" "logic4_ok r" "\<not> is_logic9 l" "\<not> is_logic9 r"
    and "width4 l = width4 r" "0 < width4 l"
  shows "binary_value operation l r = Inr (binary_slow operation l r)"
proof (cases "operation \<noteq> Vhdl_match_equal \<and> width4 l \<le> 64")
  case True
  note ok = assms(1,2) refl assms(5) [symmetric] assms(6)
  obtain v where v: "binary_word_path operation l r = Inr v"
    "is_vec4 v (result_width operation (width4 l)) (spec_binary operation (width4 l) (elem4 l) (elem4 r))"
    using binary_word_path_vec [OF ok _ assms(3,4)] True by blast
  have "v = binary_slow operation l r"
    by (rule is_vec4_unique [OF v(2) binary_slow_vec [OF ok assms(3,4)]]) (use True in auto)
  with v(1) True show ?thesis using assms by (simp add: binary_value_def)
next
  case False
  with assms show ?thesis by (auto simp: binary_value_def)
qed

theorem binary_value_paths_witness:
  "binary_value Power_signed (make_packed 8 One4) (make_packed 8 X4) = Inr (binary_slow Power_signed (make_packed 8 One4) (make_packed 8 X4))"
  using binary_value_paths [of "make_packed 8 One4" "make_packed 8 X4" Power_signed]
    is_vec4D(1) [OF packed_example, of 8 One4] is_vec4D(1) [OF packed_example, of 8 X4] by simp

text \<open>
  C33: VHDL-2008 matching equality on vectors of either kind and every width: one pair of an element
  standing for 0 (0 or L) and one standing for 1 (1 or H) makes the result 0, whatever the other
  pairs are; when every pair agrees or has a don't-care on one side, the result is 1.  Vectors with
  a metavalue pair and no differing pair are outside the statement.
\<close>

theorem vhdl_match_spec:
  assumes "width4 l = width4 r" "0 < width4 l"
  shows "\<exists>v. binary_value Vhdl_match_equal l r = Inr v \<and>
    ((\<exists>i<width4 l. match_differ (elem9 l i) (elem9 r i)) \<longrightarrow> is_vec4 v 1 (\<lambda>_. Zero4)) \<and>
    ((\<forall>i<width4 l. match_agree (elem9 l i) (elem9 r i)) \<longrightarrow> is_vec4 v 1 (\<lambda>_. One4))"
proof -
  have v: "binary_value Vhdl_match_equal l r = Inr (vhdl_match_value l r)"
    using assms by (simp add: binary_value_def binary_slow_def)
  have disjoint: "\<not> match_differ a b" if "match_agree a b" for a b
    using that by (cases a; cases b; simp add: match_agree_def match_differ_def)
  show ?thesis unfolding v using scalar_packed [of Zero4] scalar_packed [of One4] disjoint
    by (auto simp: vhdl_match_value_eq Let_def)
qed

theorem vhdl_match_spec_witness:
  "\<exists>l r u v t. from_logic9_msb_string ''L-H'' = Inr l \<and> from_logic9_msb_string ''0U1'' = Inr r \<and>
     from_logic9_msb_string ''1UX'' = Inr u \<and>
     binary_value Vhdl_match_equal l r = Inr v \<and> is_vec4 v 1 (\<lambda>_. One4) \<and>
     binary_value Vhdl_match_equal l u = Inr t \<and> is_vec4 t 1 (\<lambda>_. Zero4)"
proof -
  obtain l where l: "from_logic9_msb_string ''L-H'' = Inr l" "width4 l = 3" "elems9 l = [H9, DontCare9, L9]"
    using from_logic9_msb_string_elems [of "''L-H''"] by (auto simp: size_max_def parse_logic9_def)
  obtain r where r: "from_logic9_msb_string ''0U1'' = Inr r" "width4 r = 3" "elems9 r = [One9, U9, Zero9]"
    using from_logic9_msb_string_elems [of "''0U1''"] by (auto simp: size_max_def parse_logic9_def)
  obtain u where u: "from_logic9_msb_string ''1UX'' = Inr u" "width4 u = 3" "elems9 u = [X9, U9, One9]"
    using from_logic9_msb_string_elems [of "''1UX''"] by (auto simp: size_max_def parse_logic9_def)
  have three: "(\<forall>i<3. P i) \<longleftrightarrow> P 0 \<and> P 1 \<and> P 2" for P :: "nat \<Rightarrow> bool" by (auto simp: less_Suc_eq numeral_eq_Suc)
  have "\<forall>i<3. match_agree (elem9 l i) (elem9 r i)" unfolding three using l r by (simp add: elems9_nth match_agree_def)
  moreover have "match_differ (elem9 l 2) (elem9 u 2)" using l u by (simp add: elems9_nth match_differ_def)
  ultimately show ?thesis using vhdl_match_spec [of l r] vhdl_match_spec [of l u] l r u by fastforce
qed

text \<open>A metavalue against 0 gives X, neither of the known results.\<close>

lemma vhdl_match_metavalue:
  "binary_value Vhdl_match_equal (make_packed 1 X4) (make_packed 1 Zero4) = Inr (make_packed 1 X4)"
proof -
  have "is_vec4 (make_packed 1 X4) 1 (\<lambda>_. X4)" "is_vec4 (make_packed 1 Zero4) 1 (\<lambda>_. Zero4)" by (simp_all add: packed_example)
  then show ?thesis
    by (simp add: is_vec4_def binary_value_def binary_slow_def vhdl_match_value_eq match_differ_def match_agree_def elem9_logic4)
qed



end
