(* ===== verification/Integer_Arithmetic.thy ===== *)
theory Integer_Arithmetic
  imports Simir_Arithmetic
begin

text \<open>
  Checked VHDL integer arithmetic of \<^verbatim>\<open>src/runtime/simir_arithmetic.cpp\<close>: operands of 32 or
  64 elements are read as two's complement numbers, and a result outside the type, a division by
  zero or a negative exponent throws.  A \<^verbatim>\<open>std::int64_t\<close> is an integer; the checks keep every
  intermediate value in its range.  Division and remainder truncate, as in C++.
\<close>

datatype integer_unary_operator = Negate | Absolute

datatype integer_binary_operator = Add | Subtract | Multiply | Power | Divide | Remainder | Modulo

definition checked_integer_operand :: "packed_logic4 \<Rightarrow> int result" where
  "checked_integer_operand value =
     (if width4 value \<noteq> 32 \<and> width4 value \<noteq> 64 then Inl Invalid_argument
      else case known_signed_value value of None \<Rightarrow> Inl Invalid_argument | Some converted \<Rightarrow> Inr converted)"

definition integer_minimum :: "nat \<Rightarrow> int" where
  "integer_minimum width = (if width = 64 then - (2 ^ 63) else - (2 ^ 31))"

definition integer_maximum :: "nat \<Rightarrow> int" where
  "integer_maximum width = (if width = 64 then 2 ^ 63 - 1 else 2 ^ 31 - 1)"

definition checked_add_integer :: "int \<Rightarrow> int \<Rightarrow> int \<Rightarrow> int \<Rightarrow> int option" where
  "checked_add_integer lhs rhs minimum maximum =
     (if (rhs > 0 \<and> lhs > maximum - rhs) \<or> (rhs < 0 \<and> lhs < minimum - rhs) then None else Some (lhs + rhs))"

definition checked_subtract_integer :: "int \<Rightarrow> int \<Rightarrow> int \<Rightarrow> int \<Rightarrow> int option" where
  "checked_subtract_integer lhs rhs minimum maximum =
     (if (rhs < 0 \<and> lhs > maximum + rhs) \<or> (rhs > 0 \<and> lhs < minimum + rhs) then None else Some (lhs - rhs))"

definition checked_multiply_integer :: "int \<Rightarrow> int \<Rightarrow> int \<Rightarrow> int \<Rightarrow> int option" where
  "checked_multiply_integer lhs rhs minimum maximum =
     (if lhs = 0 \<or> rhs = 0 then Some 0
      else if (lhs = - 1 \<and> rhs = minimum) \<or> (rhs = - 1 \<and> lhs = minimum) then None
      else
        let overflow = (if lhs > 0 then (if rhs > 0 then lhs > maximum sdiv rhs else rhs < minimum sdiv lhs)
                        else (if rhs > 0 then lhs < minimum sdiv rhs else lhs < maximum sdiv rhs))
        in if overflow then None else Some (lhs * rhs))"

definition packed_integer :: "int \<Rightarrow> nat \<Rightarrow> packed_logic4 result" where
  "packed_integer value width =
     (if (width \<noteq> 32 \<and> width \<noteq> 64) \<or> value < integer_minimum width \<or> value > integer_maximum width
      then Inl Invalid_argument
      else from_aval_bval width (of_int value) 0)"

definition integer_unary_value :: "integer_unary_operator \<Rightarrow> packed_logic4 \<Rightarrow> packed_logic4 result" where
  "integer_unary_value operation source =
     bind_result (checked_integer_operand source) (\<lambda>value.
       if value = integer_minimum (width4 source) then Inl Invalid_argument
       else case operation of
              Negate \<Rightarrow> packed_integer (- value) (width4 source)
            | Absolute \<Rightarrow> packed_integer (if value < 0 then - value else value) (width4 source))"

text \<open>The square-and-multiply loop of the power operator; the exponent is a 64-bit word.\<close>

function power_loop_integer :: "int \<Rightarrow> int \<Rightarrow> u64 \<Rightarrow> int \<Rightarrow> int \<Rightarrow> int option" where
  "power_loop_integer result factor exponent minimum maximum =
     (if exponent = 0 then Some result
      else case (if exponent AND 1 \<noteq> 0 then checked_multiply_integer result factor minimum maximum else Some result) of
             None \<Rightarrow> None
           | Some result \<Rightarrow>
               let exponent = drop_bit 1 exponent
               in if exponent = 0 then Some result
                  else case checked_multiply_integer factor factor minimum maximum of
                         None \<Rightarrow> None
                       | Some factor \<Rightarrow> power_loop_integer result factor exponent minimum maximum)"
  by pat_completeness auto
termination
proof (relation "measure (\<lambda>(_, _, exponent, _, _). unat exponent)", goal_cases)
  case (2 result factor exponent minimum maximum result' exponent' factor')
  have "unat (drop_bit 1 exponent) = unat exponent div 2"
    by (simp add: drop_bit_eq_div unat_div)
  moreover have "0 < unat exponent" using 2(1) by (simp add: unat_gt_0)
  ultimately show ?case using 2(3) by simp
qed simp

declare power_loop_integer.simps [simp del]

definition integer_binary_value :: "integer_binary_operator \<Rightarrow> packed_logic4 \<Rightarrow> packed_logic4 \<Rightarrow> packed_logic4 result" where
  "integer_binary_value operation lhs_value rhs_value =
     (if width4 lhs_value \<noteq> width4 rhs_value then Inl Invalid_argument
      else
        let width = width4 lhs_value; minimum = integer_minimum width; maximum = integer_maximum width;
            checked = (\<lambda>r. case r of None \<Rightarrow> Inl Invalid_argument | Some result \<Rightarrow> packed_integer result width)
        in bind_result (checked_integer_operand lhs_value) (\<lambda>lhs.
             bind_result (checked_integer_operand rhs_value) (\<lambda>rhs.
               case operation of
                 Add \<Rightarrow> checked (checked_add_integer lhs rhs minimum maximum)
               | Subtract \<Rightarrow> checked (checked_subtract_integer lhs rhs minimum maximum)
               | Multiply \<Rightarrow> checked (checked_multiply_integer lhs rhs minimum maximum)
               | Power \<Rightarrow>
                   if rhs < 0 then Inl Invalid_argument
                   else checked (power_loop_integer 1 lhs (of_int rhs) minimum maximum)
               | _ \<Rightarrow>
                   if rhs = 0 then Inl Invalid_argument
                   else if lhs = minimum \<and> rhs = - 1 then Inl Invalid_argument
                   else if operation = Divide then packed_integer (lhs sdiv rhs) width
                   else
                     let result = lhs smod rhs;
                         result = (if operation = Modulo \<and> result \<noteq> 0 \<and> (result < 0) \<noteq> (rhs < 0)
                                   then result + rhs else result)
                     in packed_integer result width)))"

definition check_integer_range :: "packed_logic4 \<Rightarrow> int \<Rightarrow> int \<Rightarrow> unit result" where
  "check_integer_range source lower upper =
     (if width4 source = 0 \<or> width4 source > 64 then Inl Invalid_argument
      else bind_result
        (if width4 source = 32 \<or> width4 source = 64
         then bind_result (checked_integer_operand source) (\<lambda>value. Inr (Some value))
         else if lower < 0 then Inr (known_signed_value source)
         else case known_unsigned_value source of
                None \<Rightarrow> Inr None
              | Some ordinal \<Rightarrow> if uint ordinal \<le> 2 ^ 63 - 1 then Inr (Some (uint ordinal)) else Inr None)
        (\<lambda>value. case value of
             None \<Rightarrow> Inl Invalid_argument
           | Some value \<Rightarrow> if value < lower \<or> value > upper then Inl Invalid_argument else Inr ()))"

text \<open>The number an operator denotes; \<open>None\<close> where the language leaves it undefined.\<close>

definition exact_integer :: "integer_binary_operator \<Rightarrow> int \<Rightarrow> int \<Rightarrow> int option" where
  "exact_integer operation a b = (case operation of
       Add \<Rightarrow> Some (a + b)
     | Subtract \<Rightarrow> Some (a - b)
     | Multiply \<Rightarrow> Some (a * b)
     | Power \<Rightarrow> if b < 0 then None else Some (a ^ nat b)
     | Divide \<Rightarrow> if b = 0 then None else Some (a sdiv b)
     | Remainder \<Rightarrow> if b = 0 then None else Some (a smod b)
     | Modulo \<Rightarrow> if b = 0 then None else Some (a mod b))"

lemma integer_bounds: "integer_minimum w = - integer_maximum w - 1" "0 < integer_maximum w"
  by (simp_all add: integer_minimum_def integer_maximum_def)

lemma checked_add_spec:
  assumes "mn \<le> a" "a \<le> mx"
  shows "checked_add_integer a b mn mx = (if mn \<le> a + b \<and> a + b \<le> mx then Some (a + b) else None)"
  using assms by (auto simp: checked_add_integer_def)

lemma checked_subtract_spec:
  assumes "mn \<le> a" "a \<le> mx"
  shows "checked_subtract_integer a b mn mx = (if mn \<le> a - b \<and> a - b \<le> mx then Some (a - b) else None)"
  using assms by (auto simp: checked_subtract_integer_def)

lemma sdiv_bounds:
  fixes m k :: int
  assumes "0 < k" "0 \<le> m"
  shows "m sdiv k = m div k" "(- m) sdiv k = - (m div k)" "m sdiv (- k) = - (m div k)" "(- m) sdiv (- k) = m div k"
  using assms by (auto simp: signed_divide_int_def sgn_if)

lemma less_div_iff:
  fixes m n k :: int
  assumes "0 < k"
  shows "m div k < n \<longleftrightarrow> m < n * k"
proof -
  have m: "k * (m div k) \<le> m" "m < k * (m div k) + k"
    using mult_div_mod_eq [of k m] pos_mod_sign [OF assms, of m] pos_mod_bound [OF assms, of m] by linarith+
  show ?thesis
  proof
    assume "m div k < n"
    then have "k * (m div k + 1) \<le> k * n" using assms by (intro mult_left_mono) simp_all
    with m(2) show "m < n * k" by (simp add: algebra_simps)
  next
    assume "m < n * k"
    with m(1) have "k * (m div k) < k * n" by (simp only: mult.commute [of n k])
    with assms show "m div k < n" by (simp only: mult_less_cancel_left_pos)
  qed
qed

lemma checked_multiply_spec:
  fixes a b mx :: int
  assumes r: "mx > 0" "- mx - 1 \<le> a" "a \<le> mx" "- mx - 1 \<le> b" "b \<le> mx"
  shows "checked_multiply_integer a b (- mx - 1) mx = (if - mx - 1 \<le> a * b \<and> a * b \<le> mx then Some (a * b) else None)"
proof -
  define M where "M = mx + 1"
  have M: "- mx - 1 = - M" "mx = M - 1" "0 < M" using r by (simp_all add: M_def)
  consider "a = 0 \<or> b = 0" | "0 < a" "0 < b" | "0 < a" "b < 0" | "a < 0" "0 < b" | "a < 0" "b < 0" by linarith
  then show ?thesis
  proof cases
    case 1
    then show ?thesis using r by (auto simp: checked_multiply_integer_def)
  next
    case 2
    have "0 \<le> a * b" using 2 by simp
    then have "- mx - 1 \<le> a * b" using r(1) by linarith
    moreover have "mx div b < a \<longleftrightarrow> mx < a * b" by (rule less_div_iff [OF 2(2)])
    ultimately show ?thesis using 2 r sdiv_bounds(1) [of b mx] by (auto simp: checked_multiply_integer_def)
  next
    case 3
    have neg: "a * b < 0" using 3 by (simp add: mult_pos_neg)
    have d: "(- M) sdiv a = - (M div a)" using sdiv_bounds(2) [of a M] 3 M by simp
    have "M div a < - b \<longleftrightarrow> M < - b * a" by (rule less_div_iff [OF 3(1)])
    then have "b < - (M div a) \<longleftrightarrow> a * b < - M" by (auto simp: algebra_simps)
    moreover have "a * b \<le> mx" using neg r(1) by linarith
    ultimately show ?thesis using d 3 r unfolding M(1) by (auto simp: checked_multiply_integer_def)
  next
    case 4
    have neg: "a * b < 0" using 4 by (simp add: mult_neg_pos)
    have d: "(- M) sdiv b = - (M div b)" using sdiv_bounds(2) [of b M] 4 M by simp
    have "M div b < - a \<longleftrightarrow> M < - a * b" by (rule less_div_iff [OF 4(2)])
    then have "a < - (M div b) \<longleftrightarrow> a * b < - M" by (auto simp: algebra_simps)
    moreover have "a * b \<le> mx" using neg r(1) by linarith
    ultimately show ?thesis using d 4 r unfolding M(1) by (auto simp: checked_multiply_integer_def)
  next
    case 5
    have pos: "0 < a * b" using 5 by (simp add: mult_neg_neg)
    have d: "mx sdiv b = - (mx div (- b))" using sdiv_bounds(3) [of "- b" mx] 5 r by simp
    have "mx div (- b) < - a \<longleftrightarrow> mx < - a * (- b)" by (rule less_div_iff) (use 5 in simp)
    then have "a < mx sdiv b \<longleftrightarrow> mx < a * b" unfolding d by auto
    moreover have "- mx - 1 \<le> a * b" using pos r(1) by linarith
    moreover have "a * b > mx" if "(a = - 1 \<and> b = - mx - 1) \<or> (b = - 1 \<and> a = - mx - 1)" using that by auto
    ultimately show ?thesis using 5 by (auto simp: checked_multiply_integer_def)
  qed
qed

lemma checked_integer_operand_known:
  assumes "logic4_ok v" "\<not> is_logic9 v" "all_known v" "width4 v = 32 \<or> width4 v = 64"
  shows "checked_integer_operand v = Inr (signed_value v)"
    "integer_minimum (width4 v) \<le> signed_value v" "signed_value v \<le> integer_maximum (width4 v)"
proof -
  have s: "- (2 ^ (width4 v - 1)) \<le> signed_value v" "signed_value v < 2 ^ (width4 v - 1)"
    unfolding signed_value_sval_of by (rule sval_of_bounds; use assms(4) in auto)+
  then show "integer_minimum (width4 v) \<le> signed_value v" "signed_value v \<le> integer_maximum (width4 v)"
    using assms(4) by (auto simp: integer_minimum_def integer_maximum_def)
  show "checked_integer_operand v = Inr (signed_value v)"
    using assms(4) known_signed_narrow [OF assms(1,2) _ _ assms(3)] known_signed_wide [OF assms(1,2) _ assms(3)] s
    by (auto simp: checked_integer_operand_def)
qed

lemma packed_integer_spec:
  assumes "w = 32 \<or> w = 64"
  shows "if integer_minimum w \<le> k \<and> k \<le> integer_maximum w
    then \<exists>v. packed_integer k w = Inr v \<and> is_vec4 v w (int_bit4 k) else packed_integer k w = Inl Invalid_argument"
proof -
  have w: "0 < w" "w \<le> 64" using assms by auto
  have "logic4_of_bits (bit (of_int k :: u64) i) (bit (0 :: u64) i) = int_bit4 k i" if "i < w" for i
    using that w(2) by (simp add: bit_of_int_iff logic4_of_bits_def int_bit4_def)
  with from_aval_bval_ok [OF w, of "of_int k" 0] assms show ?thesis
    by (auto simp: packed_integer_def is_vec4_def)
qed

lemma smod_sign:
  fixes a b :: int
  assumes "b \<noteq> 0" "a smod b \<noteq> 0"
  shows "a smod b < 0 \<longleftrightarrow> a < 0"
proof -
  have "\<exists>m \<ge> 0. a smod b = (if a < 0 then - m else m)"
    by (rule exI [of _ "\<bar>a\<bar> mod \<bar>b\<bar>"]) (use assms(1) sdiv_smod_signs(2) [OF assms(1), of a] in auto)
  with assms(2) show ?thesis by (auto split: if_splits)
qed

lemma least_quotient: "integer_minimum w sdiv (- 1) = integer_maximum w + 1"
  unfolding integer_bounds(1) using integer_bounds(2) [of w] by (simp add: signed_divide_int_def sgn_if)

lemma odd_power_not_square:
  fixes x :: int
  shows "x * x \<noteq> 2 ^ (2 * j + 1)"
proof (induction j arbitrary: x)
  case 0
  have "x * x \<noteq> 2"
  proof
    assume x: "x * x = 2"
    have "even (x * x)" unfolding x by simp
    then obtain y where "x = 2 * y" by (auto elim: evenE)
    with x have "2 * (y * y) = 1" by simp
    then have "even (1 :: int)" by (metis dvd_triv_left)
    then show False by simp
  qed
  then show ?case by simp
next
  case (Suc j)
  show ?case
  proof
    assume x: "x * x = 2 ^ (2 * Suc j + 1)"
    have "even (x * x)" unfolding x by simp
    then obtain y where "x = 2 * y" by (auto elim: evenE)
    with x have "y * y = 2 ^ (2 * j + 1)" by simp
    with Suc show False by blast
  qed
qed

lemma integer_maximum_power: "\<exists>j. integer_maximum w = 2 ^ (2 * j + 1) - 1"
  by (rule exI [of _ "if w = 64 then 31 else 15"]) (simp add: integer_maximum_def)

text \<open>
  A square that overflows decides the result: the only value it could still reach is the least
  number, the negative of an odd power of two, and that is not a square.
\<close>

lemma square_overflow:
  fixes r f :: int
  assumes "r \<noteq> 0" "0 < m" "f * f > integer_maximum w"
  shows "r * (f * f) ^ m < integer_minimum w \<or> integer_maximum w < r * (f * f) ^ m"
proof (rule ccontr)
  assume inside: "\<not> ?thesis"
  obtain j where j: "integer_maximum w = 2 ^ (2 * j + 1) - 1" using integer_maximum_power by blast
  have ff: "2 ^ (2 * j + 1) \<le> f * f" using assms(3) unfolding j by linarith
  have "f * f \<le> (f * f) ^ m" by (rule self_le_power) (use assms(2) ff one_le_power [of "2 :: int" "2 * j + 1"] in linarith)+
  with ff have q: "2 ^ (2 * j + 1) \<le> (f * f) ^ m" by (rule order_trans)
  have p: "(1 :: int) \<le> 2 ^ (2 * j + 1)" by (rule one_le_power) simp
  have "r = - 1 \<and> (f * f) ^ m = 2 ^ (2 * j + 1)"
  proof -
    have r: "r \<le> - 1"
    proof (rule ccontr)
      assume "\<not> r \<le> - 1"
      with assms(1) have "1 * (f * f) ^ m \<le> r * (f * f) ^ m" by (intro mult_right_mono) (use q p in linarith)+
      with inside q show False unfolding integer_bounds(1) j by linarith
    qed
    have "r * (f * f) ^ m \<le> - 1 * (f * f) ^ m" using r q p by (intro mult_right_mono) linarith+
    moreover have "r = - 1"
    proof (rule ccontr)
      assume "r \<noteq> - 1"
      with r have "r * (f * f) ^ m \<le> - 2 * (f * f) ^ m" using q p by (intro mult_right_mono) linarith+
      with inside q p show False unfolding integer_bounds(1) j by linarith
    qed
    ultimately show ?thesis using inside q unfolding integer_bounds(1) j by auto
  qed
  then have "f ^ m * f ^ m = 2 ^ (2 * j + 1)" by (simp add: power_mult_distrib)
  then show False using odd_power_not_square by blast
qed

lemma product_overflow:
  fixes p f :: int
  assumes "p < integer_minimum w \<or> integer_maximum w < p" "f \<noteq> 0"
  shows "p * (f * f) ^ m < integer_minimum w \<or> integer_maximum w < p * (f * f) ^ m"
proof -
  have "0 < f * f" using assms(2) by (auto simp: zero_less_mult_iff)
  then have q: "1 \<le> (f * f) ^ m" by (intro one_le_power) simp
  have b: "integer_minimum w < 0" "0 < integer_maximum w" using integer_bounds [of w] by linarith+
  show ?thesis
  proof (cases "0 < p")
    case True
    then have "p * 1 \<le> p * (f * f) ^ m" using q by (intro mult_left_mono) simp_all
    with True assms(1) b show ?thesis by linarith
  next
    case False
    then have "p * (f * f) ^ m \<le> p * 1" using q by (intro mult_left_mono_neg) simp_all
    with False assms(1) b show ?thesis by linarith
  qed
qed

lemma power_loop_spec:
  assumes "minimum = integer_minimum w" "maximum = integer_maximum w"
    and "minimum \<le> result" "result \<le> maximum" "minimum \<le> factor" "factor \<le> maximum" "result = 0 \<Longrightarrow> factor = 0"
  shows "power_loop_integer result factor exponent minimum maximum =
    (if minimum \<le> result * factor ^ unat exponent \<and> result * factor ^ unat exponent \<le> maximum
     then Some (result * factor ^ unat exponent) else None)"
  using assms
proof (induction result factor exponent minimum maximum rule: power_loop_integer.induct)
  case (1 result factor exponent minimum maximum)
  note IH = 1(1) and mn = 1(2) and mx = 1(3) and range = 1(4-7) and zero = 1(8)
  have mult: "checked_multiply_integer a b minimum maximum = (if minimum \<le> a * b \<and> a * b \<le> maximum then Some (a * b) else None)"
    if "minimum \<le> a" "a \<le> maximum" "minimum \<le> b" "b \<le> maximum" for a b
    using checked_multiply_spec [of "integer_maximum w" a b, folded integer_bounds(1)] that integer_bounds(2) [of w] by (simp add: mn mx)
  define m where "m = unat (drop_bit 1 exponent)"
  define p where "p = (if exponent AND 1 \<noteq> 0 then result * factor else result)"
  have m: "m = unat exponent div 2" by (simp add: m_def drop_bit_eq_div unat_div)
  have parity: "exponent AND 1 \<noteq> 0 \<longleftrightarrow> odd (unat exponent)"
  proof -
    have "unat (exponent AND 1) = unat exponent mod 2" by (simp add: and_one_eq unat_mod)
    then show ?thesis by (metis odd_iff_mod_2_eq_one even_iff_mod_2_eq_zero unat_eq_0)
  qed
  have total: "result * factor ^ unat exponent = p * (factor * factor) ^ m"
  proof -
    have "factor ^ unat exponent = factor ^ (unat exponent mod 2) * (factor * factor) ^ m"
      unfolding m by (metis mod_mult_div_eq power_add power_mult power2_eq_square)
    then show ?thesis by (auto simp: p_def parity odd_iff_mod_2_eq_one even_iff_mod_2_eq_zero)
  qed
  have e0: "drop_bit 1 exponent = 0 \<longleftrightarrow> m = 0" by (simp add: m_def unat_eq_0)
  have step: "(if exponent AND 1 \<noteq> 0 then checked_multiply_integer result factor minimum maximum else Some result) =
      (if minimum \<le> p \<and> p \<le> maximum then Some p else None)"
    using mult [OF range] range by (auto simp: p_def)
  show ?case
  proof (cases "exponent = 0")
    case True
    then show ?thesis using range by (simp add: power_loop_integer.simps)
  next
    case nz: False
    show ?thesis
    proof (cases "minimum \<le> p \<and> p \<le> maximum")
      case False
      then have "factor \<noteq> 0" using range zero by (auto simp: p_def split: if_splits)
      then have "\<not> (minimum \<le> p * (factor * factor) ^ m \<and> p * (factor * factor) ^ m \<le> maximum)"
        using product_overflow [of p w factor m] False by (auto simp: mn mx)
      then show ?thesis using nz False unfolding total by (auto simp: power_loop_integer.simps [of result factor exponent] step)
    next
      case p: True
      show ?thesis
      proof (cases "m = 0")
        case True
        then show ?thesis using nz p e0 unfolding total by (simp add: power_loop_integer.simps [of result factor exponent] step)
      next
        case False
        then have d: "drop_bit 1 exponent \<noteq> 0" using e0 by simp
        show ?thesis
        proof (cases "factor * factor \<le> maximum")
          case q: True
          have q0: "minimum \<le> factor * factor" using integer_bounds [of w] zero_le_square [of factor] unfolding mn by linarith
          have "power_loop_integer p (factor * factor) (drop_bit 1 exponent) minimum maximum =
              (if minimum \<le> p * (factor * factor) ^ m \<and> p * (factor * factor) ^ m \<le> maximum
               then Some (p * (factor * factor) ^ m) else None)"
            unfolding m_def
            by (rule IH [OF nz _ refl d _ mn mx]) (use p q q0 zero mult [OF range(3,4) range(3,4)] step in \<open>auto simp: p_def split: if_splits\<close>)
          then show ?thesis using nz p d q q0 mult [OF range(3,4) range(3,4)] unfolding total
            by (simp add: power_loop_integer.simps [of result factor exponent] step)
        next
          case q: False
          then have "p \<noteq> 0" using zero range integer_bounds [of w] mx by (auto simp: p_def split: if_splits)
          then have "\<not> (minimum \<le> p * (factor * factor) ^ m \<and> p * (factor * factor) ^ m \<le> maximum)"
            using square_overflow [of p m w factor] False q by (auto simp: mn mx)
          then show ?thesis using nz p d q mult [OF range(3,4) range(3,4)] unfolding total
            by (simp add: power_loop_integer.simps [of result factor exponent] step)
        qed
      qed
    qed
  qed
qed
text \<open>
  C4: Checked VHDL integer arithmetic is exact: for known operands of 32 or 64 elements every
  operator, square-and-multiply power included, returns the mathematical result in two's complement
  when it lies in the range of the type, and throws \<^verbatim>\<open>std::invalid_argument\<close> when it does not (no
  wrap-around), the divisor is zero or the exponent is negative.  One input is outside the
  statement: the remainder and the modulus of the least number by \<open>-1\<close>, see
  \<^verbatim>\<open>least_remainder_refused\<close>.
\<close>

theorem integer_binary_value_exact:
  assumes "logic4_ok l" "\<not> is_logic9 l" "all_known l" "logic4_ok r" "\<not> is_logic9 r" "all_known r"
    and "width4 l = w" "width4 r = w" "w = 32 \<or> w = 64"
    and "\<not> (operation \<in> {Remainder, Modulo} \<and> signed_value l = integer_minimum w \<and> signed_value r = - 1)"
  shows "case exact_integer operation (signed_value l) (signed_value r) of
      None \<Rightarrow> integer_binary_value operation l r = Inl Invalid_argument
    | Some k \<Rightarrow> if integer_minimum w \<le> k \<and> k \<le> integer_maximum w
        then \<exists>v. integer_binary_value operation l r = Inr v \<and> is_vec4 v w (int_bit4 k)
        else integer_binary_value operation l r = Inl Invalid_argument"
proof -
  define a b where "a = signed_value l" and "b = signed_value r"
  have a: "checked_integer_operand l = Inr a" "integer_minimum w \<le> a" "a \<le> integer_maximum w"
    using checked_integer_operand_known [OF assms(1-3)] assms(7,9) by (auto simp: a_def)
  have b: "checked_integer_operand r = Inr b" "integer_minimum w \<le> b" "b \<le> integer_maximum w"
    using checked_integer_operand_known [OF assms(4-6)] assms(8,9) by (auto simp: b_def)
  note checked = checked_add_spec [OF a(2,3)] checked_subtract_spec [OF a(2,3)]
    checked_multiply_spec [of "integer_maximum w" a b, folded integer_bounds(1), OF integer_bounds(2) a(2,3) b(2,3)]
  have power: "power_loop_integer 1 a (of_int b) (integer_minimum w) (integer_maximum w) =
      (if integer_minimum w \<le> a ^ nat b \<and> a ^ nat b \<le> integer_maximum w then Some (a ^ nat b) else None)" if "0 \<le> b"
  proof -
    have "b < 2 ^ 64" using b(3) by (auto simp: integer_maximum_def split: if_splits)
    with that have "unat (of_int b :: u64) = nat b" by (simp add: unat_eq_nat_uint uint_word_of_int_eq take_bit_int_eq_self)
    then show ?thesis using power_loop_spec [OF refl refl, of w 1 a "of_int b"] a(2,3) integer_bounds [of w] by simp
  qed
  have pk: "(if integer_minimum w \<le> k \<and> k \<le> integer_maximum w then packed_integer k w else Inl Invalid_argument) =
      packed_integer k w" for k
    by (auto simp: packed_integer_def)
  have out: "\<not> integer_minimum w \<le> k \<Longrightarrow> packed_integer k w = Inl Invalid_argument"
    "\<not> k \<le> integer_maximum w \<Longrightarrow> packed_integer k w = Inl Invalid_argument" for k
    by (simp_all add: packed_integer_def)
  have least: "packed_integer (integer_minimum w sdiv (- 1)) w = Inl Invalid_argument"
    unfolding least_quotient by (simp add: packed_integer_def)
  have modulo: "(if a smod b \<noteq> 0 \<and> (a smod b < 0) \<noteq> (b < 0) then a smod b + b else a smod b) = a mod b" if "b \<noteq> 0"
    unfolding mod_smod [OF that] using smod_sign [OF that, of a] by auto
  have code: "integer_binary_value operation l r = (case exact_integer operation a b of
      None \<Rightarrow> Inl Invalid_argument
    | Some k \<Rightarrow> if integer_minimum w \<le> k \<and> k \<le> integer_maximum w then packed_integer k w else Inl Invalid_argument)"
    unfolding integer_binary_value_def assms(7,8) a(1) b(1) Let_def bind_result_simps checked pk
    using least modulo power assms(10) [folded a_def b_def]
    by (cases operation) (auto simp: exact_integer_def pk out)
  show ?thesis
    unfolding a_def [symmetric] b_def [symmetric] code
    using packed_integer_spec [OF assms(9)] by (auto split: option.splits)
qed

theorem integer_binary_value_exact_witness:
  "case exact_integer Multiply (signed_value (make_packed 32 One4)) (signed_value (make_packed 32 One4)) of
      None \<Rightarrow> integer_binary_value Multiply (make_packed 32 One4) (make_packed 32 One4) = Inl Invalid_argument
    | Some k \<Rightarrow> if integer_minimum 32 \<le> k \<and> k \<le> integer_maximum 32
        then \<exists>v. integer_binary_value Multiply (make_packed 32 One4) (make_packed 32 One4) = Inr v \<and> is_vec4 v 32 (int_bit4 k)
        else integer_binary_value Multiply (make_packed 32 One4) (make_packed 32 One4) = Inl Invalid_argument"
proof -
  have "is_vec4 (make_packed 32 One4) 32 (\<lambda>_. One4)" by (rule make_packed_vec) (simp add: size_max_def)
  then show ?thesis by (intro integer_binary_value_exact) (auto simp: all_known_def is_vec4_def)
qed

lemma checked_integer_operand_eq:
  assumes "logic4_ok v"
  shows "checked_integer_operand v =
    (if (width4 v = 32 \<or> width4 v = 64) \<and> \<not> is_logic9 v \<and> all_known v then Inr (signed_value v) else Inl Invalid_argument)"
  using known_signed_value_eq [OF assms] checked_integer_operand_known [OF assms]
  by (auto simp: checked_integer_operand_def split: option.splits)

text \<open>
  The guard against the one overflowing quotient also covers remainder and modulus, so these throw
  on the least number and \<open>-1\<close> although their result 0 is in range.
\<close>

lemma least_remainder_refused:
  assumes "logic4_ok l" "\<not> is_logic9 l" "all_known l" "logic4_ok r" "\<not> is_logic9 r" "all_known r"
    and "width4 l = w" "width4 r = w" "w = 32 \<or> w = 64" "operation \<in> {Remainder, Modulo}"
    and "signed_value l = integer_minimum w" "signed_value r = - 1"
  shows "exact_integer operation (signed_value l) (signed_value r) = Some 0 \<and> integer_binary_value operation l r = Inl Invalid_argument"
  using assms(7-12) checked_integer_operand_eq [OF assms(1)] checked_integer_operand_eq [OF assms(4)] assms(2,3,5,6)
  by (auto simp: integer_binary_value_def exact_integer_def signed_modulo_int_def signed_divide_int_def)

text \<open>
  C13: The VHDL integer sign operators are exact: on every value, the negation or absolute value of
  its two's complement reading is returned when the value is a known 32-bit or 64-bit vector other
  than the least number, and in every other case (wrong width, unknown or nine-state elements,
  overflow) \<^verbatim>\<open>std::invalid_argument\<close> is thrown.
\<close>

theorem integer_unary_value_exact:
  assumes "logic4_ok v"
  shows "if (width4 v = 32 \<or> width4 v = 64) \<and> \<not> is_logic9 v \<and> all_known v \<and> signed_value v \<noteq> integer_minimum (width4 v)
    then \<exists>u. integer_unary_value operation v = Inr u \<and>
      is_vec4 u (width4 v) (int_bit4 (case operation of Negate \<Rightarrow> - signed_value v | Absolute \<Rightarrow> \<bar>signed_value v\<bar>))
    else integer_unary_value operation v = Inl Invalid_argument"
proof (cases "(width4 v = 32 \<or> width4 v = 64) \<and> \<not> is_logic9 v \<and> all_known v \<and> signed_value v \<noteq> integer_minimum (width4 v)")
  case True
  define k where "k = (case operation of Negate \<Rightarrow> - signed_value v | Absolute \<Rightarrow> \<bar>signed_value v\<bar>)"
  have "integer_minimum (width4 v) \<le> k \<and> k \<le> integer_maximum (width4 v)"
    using checked_integer_operand_known(2,3) [OF assms] integer_bounds [of "width4 v"] True by (cases operation) (auto simp: k_def)
  moreover have "integer_unary_value operation v = packed_integer k (width4 v)"
    using True checked_integer_operand_eq [OF assms] by (cases operation) (auto simp: integer_unary_value_def k_def abs_if)
  ultimately show ?thesis using packed_integer_spec [of "width4 v" k] True unfolding k_def [symmetric] by simp
next
  case False
  then show ?thesis using checked_integer_operand_eq [OF assms] by (auto simp: integer_unary_value_def)
qed

text \<open>
  C12: The subtype range check accepts a value exactly when it has between 1 and 64 known four-state
  elements and its number lies between the bounds.  The number is the two's complement reading for
  the integer widths 32 and 64 and for subtypes with a negative lower bound, and the unsigned
  reading otherwise.
\<close>

theorem check_integer_range_exact:
  assumes "logic4_ok v"
  shows "check_integer_range v lower upper =
    (let k = (if width4 v = 32 \<or> width4 v = 64 \<or> lower < 0 then signed_value v else unsigned_value v)
     in if 0 < width4 v \<and> width4 v \<le> 64 \<and> \<not> is_logic9 v \<and> all_known v \<and> lower \<le> k \<and> k \<le> upper
        then Inr () else Inl Invalid_argument)"
proof -
  have s: "- (2 ^ 63) \<le> signed_value v \<and> signed_value v < 2 ^ 63" if "0 < width4 v" "width4 v \<le> 64"
  proof -
    have "(2 :: int) ^ (width4 v - 1) \<le> 2 ^ 63" using that(2) by (intro power_increasing) simp_all
    then show ?thesis using sval_of_bounds [OF that(1), of "elem4 v"] unfolding signed_value_sval_of by linarith
  qed
  have u: "0 \<le> unsigned_value v \<and> unsigned_value v < 2 ^ 63" if "width4 v \<le> 64" "width4 v \<noteq> 64"
  proof -
    have "(2 :: int) ^ width4 v \<le> 2 ^ 63" using that by (intro power_increasing) simp_all
    then show ?thesis using unsigned_value_bounds [of v] by linarith
  qed
  then have n: "uint (word_of_int (unsigned_value v) :: u64) = unsigned_value v" if "width4 v \<le> 64" "width4 v \<noteq> 64"
    using that by (fastforce simp: uint_word_of_int_eq take_bit_int_eq_self_iff)
  note eqs = checked_integer_operand_eq [OF assms] known_signed_value_eq [OF assms] known_unsigned_value_eq [OF assms]
  consider "width4 v = 0 \<or> width4 v > 64" | "0 < width4 v" "width4 v \<le> 64" "is_logic9 v \<or> \<not> all_known v"
    | "0 < width4 v" "width4 v \<le> 64" "\<not> is_logic9 v" "all_known v" "width4 v = 32 \<or> width4 v = 64"
    | "0 < width4 v" "width4 v \<le> 64" "\<not> is_logic9 v" "all_known v" "\<not> (width4 v = 32 \<or> width4 v = 64)"
    using not_less by blast
  then show ?thesis
  proof cases
    case 1
    then show ?thesis by (auto simp: check_integer_range_def)
  next
    case 2
    then have bad: "\<not> (\<not> is_logic9 v \<and> all_known v)" by blast
    with 2(1,2) show ?thesis unfolding check_integer_range_def eqs by (cases "is_logic9 v") simp_all
  next
    case 3
    then show ?thesis unfolding check_integer_range_def eqs
      by (cases "width4 v = 32"; cases "lower \<le> signed_value v"; cases "signed_value v \<le> upper") (simp_all add: Let_def)
  next
    case 4
    then have "width4 v \<noteq> 64" by simp
    note facts = s [OF 4(1,2)] u [OF 4(2) this] n [OF 4(2) this]
    have "unsigned_value v < 2 ^ 64" "unsigned_value v \<le> 2 ^ 63 - 1" using facts by simp_all
    with 4 facts show ?thesis unfolding check_integer_range_def eqs
      by (cases "lower < 0"; cases "lower \<le> signed_value v"; cases "signed_value v \<le> upper";
          cases "lower \<le> unsigned_value v"; cases "unsigned_value v \<le> upper") (simp_all add: Let_def)
  qed
qed

theorem integer_unary_value_exact_witness:
  "\<exists>u. integer_unary_value Negate (make_packed 32 One4) = Inr u \<and> is_vec4 u 32 (int_bit4 1)"
proof -
  have v: "is_vec4 (make_packed 32 One4) 32 (\<lambda>_. One4)" by (rule make_packed_vec) (simp add: size_max_def)
  then have "signed_value (make_packed 32 One4) = sval_of 32 (\<lambda>_. One4)"
    unfolding signed_value_sval_of by (auto simp: is_vec4_def sval_of_def intro!: arg_cong [where f = "signed_take_bit 31"] val_of_cong)
  also have "\<dots> = - 1" by code_simp
  finally show ?thesis using integer_unary_value_exact [of "make_packed 32 One4" Negate] v
    by (simp add: all_known_def is_vec4_def integer_minimum_def)
qed

theorem check_integer_range_exact_witness:
  "check_integer_range (make_packed 5 One4) 0 31 = Inr () \<and> check_integer_range (make_packed 5 One4) 0 30 = Inl Invalid_argument"
proof -
  have v: "is_vec4 (make_packed 5 One4) 5 (\<lambda>_. One4)" by (rule make_packed_vec) (simp add: size_max_def)
  then have "unsigned_value (make_packed 5 One4) = val_of 5 (\<lambda>_. One4)"
    unfolding unsigned_value_val_of by (auto simp: is_vec4_def intro: val_of_cong)
  also have "\<dots> = 31" by code_simp
  finally show ?thesis using check_integer_range_exact [of "make_packed 5 One4" 0] v
    by (simp add: all_known_def is_vec4_def)
qed

end
