(* ===== verification/Simir_Shifts.thy ===== *)
theory Simir_Shifts
  imports Simir_Arithmetic
begin

text \<open>
  Correctness of \<^verbatim>\<open>shift_value\<close> (\<^verbatim>\<open>src/runtime/simir_logic.cpp\<close>), whose definitions are in
  \<^verbatim>\<open>Simir_Logic\<close>: the bit-serial reading of the amount, its negation, and the range moves compute
  the shift of \<^verbatim>\<open>Operator_Spec\<close>, and so does the word kernel for narrow operands.
\<close>

text \<open>What a shift brings in.\<close>

definition shift_filler :: "shift_operator \<Rightarrow> nat \<Rightarrow> (nat \<Rightarrow> logic4) \<Rightarrow> logic4" where
  "shift_filler operation w f = (if operation = Arithmetic_right then f (w - 1) else if operation = Arithmetic_left then f 0 else Zero4)"

subsection \<open>The amount\<close>

lemma nat_val_of_Suc: "nat (val_of (Suc n) h) = nat (val_of n h) + (if h n = One4 then 2 ^ n else 0)"
proof -
  have "val_of (Suc n) h = val_of n h + (if h n = One4 then 2 ^ n else 0)"
    by (simp add: val_of_def horner_sum_append)
  then show ?thesis using val_of_bounds(1) [of n h] by (simp add: nat_add_distrib nat_power_eq)
qed

lemma nat_val_of_less: "nat (val_of n h) < 2 ^ n"
  using val_of_bounds [of n h] by (simp add: nat_less_iff)

lemma or_exp_nat: "a < 2 ^ n \<Longrightarrow> a OR 2 ^ n = a + (2 ^ n :: nat)"
proof -
  assume "a < 2 ^ n"
  then have "take_bit n a = a" by (simp add: take_bit_nat_eq_self)
  then have "\<not> bit a n" by (metis bit_take_bit_iff less_irrefl)
  then have "a AND 2 ^ n = 0" by (simp add: and_exp_eq_0_iff_not_bit)
  then show ?thesis by (simp add: disjunctive_add_eq_or)
qed

lemma wrap_add: "a < w \<Longrightarrow> b < w \<Longrightarrow> (if w - b \<le> a then a - (w - b) else a + b) = (a + b) mod (w :: nat)"
  by (auto simp: le_mod_geq)

lemma shift_amount_logical:
  assumes "w < 2 ^ 64"
  shows "shift_amount False w a = nat (val_of (width4 a) (elem4 a)) \<or>
    (shift_amount False w a = w \<and> w \<le> nat (val_of (width4 a) (elem4 a)))"
proof -
  define h where "h = elem4 a"
  define body where "body = (\<lambda>index (amount :: nat, rotate_bit :: nat). if h index = One4
      then (if index \<ge> 64 \<or> 2 ^ index \<ge> w then Inl w else Inr (amount OR 2 ^ index, rotate_bit)) else Inr (amount, rotate_bit))"
  have "(for_return 0 n body (0, r0) = Inl w \<and> w \<le> nat (val_of n h)) \<or> for_return 0 n body (0, r0) = Inr (nat (val_of n h), r0)" for n r0
  proof (induction n)
    case 0
    then show ?case by (simp add: for_return_def val_of_def)
  next
    case (Suc n)
    have "(2 :: nat) ^ 64 \<le> 2 ^ n" if "64 \<le> n" using that by (rule power_increasing) simp
    then have "w \<le> 2 ^ n" if "64 \<le> n \<or> w \<le> 2 ^ n" using that assms by auto
    then have big: "w \<le> nat (val_of n h) + 2 ^ n" if "64 \<le> n \<or> w \<le> 2 ^ n" using that by (simp add: trans_le_add2)
    from Suc show ?case
    proof
      assume "for_return 0 n body (0, r0) = Inl w \<and> w \<le> nat (val_of n h)"
      then show ?thesis by (simp add: for_return_Suc nat_val_of_Suc)
    next
      assume "for_return 0 n body (0, r0) = Inr (nat (val_of n h), r0)"
      then show ?thesis using big or_exp_nat [OF nat_val_of_less [of n h]]
        by (simp add: for_return_Suc nat_val_of_Suc body_def)
    qed
  qed
  from this [of "width4 a" "1 mod w"] show ?thesis
    by (auto simp: shift_amount_def body_def h_def Let_def)
qed

lemma shift_amount_rotate:
  assumes "0 < w"
  shows "shift_amount True w a = nat (val_of (width4 a) (elem4 a)) mod w"
proof -
  define h where "h = elem4 a"
  define body where "body = (\<lambda>index (amount, rotate_bit :: nat).
      (Inr (if h index = One4 then (if amount \<ge> w - rotate_bit then amount - (w - rotate_bit) else amount + rotate_bit) else amount,
           if rotate_bit \<ge> w - rotate_bit then rotate_bit - (w - rotate_bit) else rotate_bit + rotate_bit)) :: nat + nat \<times> nat)"
  have "for_return 0 n body (0, 1 mod w) = Inr (nat (val_of n h) mod w, 2 ^ n mod w)" for n
  proof (induction n)
    case 0
    then show ?case by (simp add: for_return_def val_of_def)
  next
    case (Suc n)
    have lt: "nat (val_of n h) mod w < w" "2 ^ n mod w < w" using assms by simp_all
    have step: "body n (x, y) = Inr (if h n = One4 then (x + y) mod w else x, (y + y) mod w)" if "x < w" "y < w" for x y
      using wrap_add [OF that] wrap_add [OF that(2) that(2)] by (simp add: body_def)
    show ?case unfolding for_return_Suc Suc sum.case step [OF lt] nat_val_of_Suc by (simp add: mod_add_eq mult_2)
  qed
  then show ?thesis by (simp add: shift_amount_def body_def h_def Let_def cong: if_cong)
qed

lemma shift_negate_vec:
  assumes "is_vec4 a w h" "\<not> any_unknown w h"
  shows "is_vec4 (shift_negate a) w (int_bit4 (- val_of w h))"
proof -
  define k where "k = val_of w h"
  have a: "width4 a = w" "logic4_ok a" "\<And>i. i < w \<Longrightarrow> elem4 a i = h i" using is_vec4D [OF assms(1)] by auto
  have z: "is_vec4 (make_packed w Zero4) w (\<lambda>_. Zero4)" by (rule make_packed_vec) (use width_le [OF a(2)] a(1) in simp)
  have e: "elem4 a i = Zero4 \<longleftrightarrow> \<not> bit k i" if "i < w" for i
    using assms(2) that a(3) [OF that] by (cases "h i") (auto simp: k_def val_of_bit any_unknown_def unknown4_def)
  have digit: "bit (- k) i \<longleftrightarrow> bit k i \<noteq> (\<not> c)" "borrow_into 0 k (Suc i) (bit k i \<or> \<not> c)" if "borrow_into 0 k i (\<not> c)" for i c
    using ripple_sub_digit [OF that] by auto
  have "is_vec4 (shift_negate a) w (\<lambda>i. if i < 0 then Zero4 else int_bit4 (- k) i)"
    unfolding shift_negate_def a(1)
    by (rule in_place_loop [OF z, where Q = "\<lambda>i c. borrow_into 0 k i (\<not> c)" and h = "\<lambda>i c. \<not> bit k i \<and> c"])
       (simp_all add: Let_def e int_bit4_def digit, simp add: borrow_into_def)
  then show ?thesis by (simp add: k_def)
qed

subsection \<open>The moves\<close>

lemma shift_move_vec:
  assumes "is_vec4 v w f" "is_vec4 r w g" "0 < n" "low + n \<le> w" "off + n \<le> w"
  shows "\<exists>u. shift_move v low n off r = Inr u \<and> is_vec4 u w (\<lambda>i. if off \<le> i \<and> i < off + n then f (low + (i - off)) else g i)"
proof -
  note v = is_vec4D [OF assms(1)] and r = is_vec4D [OF assms(2)]
  obtain x where x: "extract_bits v low n = Inr x" "logic4_ok x" "width4 x = n" "\<not> is_logic9 x" "\<forall>i<n. elem9 x i = elem9 v (low + i)"
    using extract_bits_ok [OF v(1) assms(3), of low] assms(4) v(2,3) by auto
  obtain u where u: "insert_bits r x off = Inr u" "logic4_ok u" "width4 u = w" "\<not> is_logic9 u"
      "\<forall>i<w. elem9 u i = (if off \<le> i \<and> i < off + n then elem9 x (i - off) else elem9 r i)"
    using insert_bits_ok [OF r(1) x(2), of off] assms(3,5) x(3,4) r(2,3) by auto
  have "elem4 u i = (if off \<le> i \<and> i < off + n then f (low + (i - off)) else g i)" if "i < w" for i
  proof -
    have "elem4 u i = to_logic4 (elem9 u i)" by (rule elem4_elem9)
    moreover have "elem9 x (i - off) = to_logic9 (f (low + (i - off)))" if "off \<le> i" "i < off + n"
      using x(5) v(5) [of "low + (i - off)"] that assms(4) by simp
    ultimately show ?thesis using u(5) r(5) [OF that] that by simp
  qed
  with x u show ?thesis by (auto simp: shift_move_def is_vec4_def)
qed

lemma shift_fill_vec:
  assumes "is_vec4 v w f" "0 < w"
  shows "is_vec4 (shift_fill operation v) w (\<lambda>_. shift_filler operation w f)"
proof -
  note v = is_vec4D [OF assms(1)]
  have "w \<le> size_max div 4" using width_le [OF v(1)] v(3) by simp
  then have "is_vec4 (make_packed w e) w (\<lambda>_. e)" for e by (rule make_packed_vec)
  then show ?thesis using v assms(2) by (simp add: shift_fill_def shift_filler_def)
qed

lemma shift_plain_vec:
  assumes v: "is_vec4 v w f" "0 < k" "k < w" and plain: "operation \<notin> {Rotate_left, Rotate_right}"
  shows "\<exists>r. shift_elements operation v k = Inr r \<and> is_vec4 r w (spec_shift Zero4 operation w f k)"
proof -
  have w: "0 < w" using v by simp
  note fill = shift_fill_vec [OF v(1) w, of operation] and width = is_vec4D(3) [OF v(1)]
  have le: "0 + (w - k) \<le> w" "k + (w - k) \<le> w" "0 < w - k" using v by simp_all
  show ?thesis
  proof (cases "operation = Logical_left \<or> operation = Arithmetic_left")
    case True
    obtain u where u: "shift_move v 0 (w - k) k (shift_fill operation v) = Inr u"
        "is_vec4 u w (\<lambda>i. if k \<le> i \<and> i < k + (w - k) then f (0 + (i - k)) else shift_filler operation w f)"
      using shift_move_vec [OF v(1) fill le(3) le(1) le(2)] by blast
    have "is_vec4 u w (spec_shift Zero4 operation w f k)"
      by (rule is_vec4_cong [OF u(2)]) (use True v in \<open>auto simp: spec_shift_def shift_filler_def\<close>)
    then show ?thesis using u(1) True v width by (auto simp: shift_elements_def Let_def)
  next
    case False
    then have right: "operation = Logical_right \<or> operation = Arithmetic_right" using plain by (cases operation) auto
    obtain u where u: "shift_move v k (w - k) 0 (shift_fill operation v) = Inr u"
        "is_vec4 u w (\<lambda>i. if 0 \<le> i \<and> i < 0 + (w - k) then f (k + (i - 0)) else shift_filler operation w f)"
      using shift_move_vec [OF v(1) fill le(3) le(2) le(1)] by blast
    have "is_vec4 u w (spec_shift Zero4 operation w f k)"
      by (rule is_vec4_cong [OF u(2)]) (use right v in \<open>auto simp: spec_shift_def shift_filler_def add.commute\<close>)
    then show ?thesis using u(1) right v width by (auto simp: shift_elements_def Let_def)
  qed
qed

lemma shift_rotate_vec:
  assumes v: "is_vec4 v w f" "0 < k" "k < w" and rotate: "operation \<in> {Rotate_left, Rotate_right}"
  shows "\<exists>r. shift_elements operation v k = Inr r \<and> is_vec4 r w (spec_shift Zero4 operation w f k)"
proof -
  have w: "0 < w" using v by simp
  note fill = shift_fill_vec [OF v(1) w, of operation] and width = is_vec4D(3) [OF v(1)]
  have le: "0 + (w - k) \<le> w" "k + (w - k) \<le> w" "w - k + k \<le> w" "0 + k \<le> w" "0 < w - k" using v by simp_all
  have index: "(i + (w - k)) mod w = (if k \<le> i then i - k else w - k + i)" "(i + k) mod w = (if i < w - k then k + i else i - (w - k))"
    if "i < w" for i using that v by (auto simp: le_mod_geq)
  show ?thesis
  proof (cases "operation = Rotate_left")
    case True
    obtain t where t: "shift_move v 0 (w - k) k (shift_fill operation v) = Inr t"
        "is_vec4 t w (\<lambda>i. if k \<le> i \<and> i < k + (w - k) then f (0 + (i - k)) else shift_filler operation w f)"
      using shift_move_vec [OF v(1) fill le(5) le(1) le(2)] by blast
    obtain u where u: "shift_move v (w - k) k 0 t = Inr u"
        "is_vec4 u w (\<lambda>i. if 0 \<le> i \<and> i < 0 + k then f (w - k + (i - 0))
           else if k \<le> i \<and> i < k + (w - k) then f (0 + (i - k)) else shift_filler operation w f)"
      using shift_move_vec [OF v(1) t(2) v(2) le(3) le(4)] by blast
    have "is_vec4 u w (spec_shift Zero4 operation w f k)"
      by (rule is_vec4_cong [OF u(2)]) (use True index(1) v in \<open>simp add: spec_shift_def\<close>)
    then show ?thesis using t(1) u(1) True v width by (simp add: shift_elements_def Let_def)
  next
    case False
    then have right: "operation = Rotate_right" using rotate by simp
    obtain t where t: "shift_move v k (w - k) 0 (shift_fill operation v) = Inr t"
        "is_vec4 t w (\<lambda>i. if 0 \<le> i \<and> i < 0 + (w - k) then f (k + (i - 0)) else shift_filler operation w f)"
      using shift_move_vec [OF v(1) fill le(5) le(2) le(1)] by blast
    obtain u where u: "shift_move v 0 k (w - k) t = Inr u"
        "is_vec4 u w (\<lambda>i. if w - k \<le> i \<and> i < w - k + k then f (0 + (i - (w - k)))
           else if 0 \<le> i \<and> i < 0 + (w - k) then f (k + (i - 0)) else shift_filler operation w f)"
      using shift_move_vec [OF v(1) t(2) v(2) le(4) le(3)] by blast
    have "is_vec4 u w (spec_shift Zero4 operation w f k)"
      by (rule is_vec4_cong [OF u(2)]) (use right index(2) v in \<open>simp add: spec_shift_def\<close>)
    then show ?thesis using t(1) u(1) right v width by (simp add: shift_elements_def Let_def)
  qed
qed

lemma shift_elements_vec:
  assumes v: "is_vec4 v w f" "0 < w"
    and k: "if operation = Rotate_left \<or> operation = Rotate_right then k = m mod w else k = m \<or> (k = w \<and> w \<le> m)"
  shows "\<exists>r. shift_elements operation v k = Inr r \<and> is_vec4 r w (spec_shift Zero4 operation w f m)"
proof -
  note fill = shift_fill_vec [OF v, of operation] and width = is_vec4D(3) [OF v(1)]
  consider "w \<le> k" | "k = 0" | "0 < k" "k < w" by linarith
  then show ?thesis
  proof cases
    case 1
    have "m mod w < w" using v(2) by simp
    with 1 k have m: "\<not> (operation = Rotate_left \<or> operation = Rotate_right)" "w \<le> m" by (auto split: if_splits)
    have "is_vec4 (shift_fill operation v) w (spec_shift Zero4 operation w f m)"
      by (rule is_vec4_cong [OF fill]) (use m in \<open>cases operation; auto simp: spec_shift_def shift_filler_def\<close>)
    then show ?thesis using 1 width by (simp add: shift_elements_def Let_def)
  next
    case 2
    have "is_vec4 v w (spec_shift Zero4 operation w f m)"
    proof (rule is_vec4_cong [OF v(1)])
      fix i
      assume i: "i < w"
      have "(i + m) mod w = i" if "m mod w = 0" using that i by (metis add.right_neutral mod_add_right_eq mod_less)
      then show "f i = spec_shift Zero4 operation w f m i" using k 2 i v(2) by (cases operation) (auto simp: spec_shift_def)
    qed
    then show ?thesis using 2 width v(2) by (simp add: shift_elements_def Let_def)
  next
    case 3
    have "spec_shift Zero4 operation w f m = spec_shift Zero4 operation w f k"
      using k 3 by (cases operation) (auto simp: spec_shift_def fun_eq_iff mod_add_right_eq)
    then show ?thesis using shift_plain_vec [OF v(1) 3] shift_rotate_vec [OF v(1) 3]
      by (cases "operation \<in> {Rotate_left, Rotate_right}") simp_all
  qed
qed

subsection \<open>Both paths\<close>

lemma shift_amount_vec:
  assumes "is_vec4 v w f" "0 < w"
  shows "\<exists>r. shift_elements operation v (shift_amount (operation = Rotate_left \<or> operation = Rotate_right) w a) = Inr r \<and>
    is_vec4 r w (spec_shift Zero4 operation w f (nat (val_of (width4 a) (elem4 a))))"
proof (rule shift_elements_vec [OF assms])
  have "w < 2 ^ 64" using width_le [OF is_vec4D(1) [OF assms(1)]] is_vec4D(3) [OF assms(1)] by (simp add: size_max_def)
  then show "if operation = Rotate_left \<or> operation = Rotate_right
     then shift_amount (operation = Rotate_left \<or> operation = Rotate_right) w a = nat (val_of (width4 a) (elem4 a)) mod w
     else shift_amount (operation = Rotate_left \<or> operation = Rotate_right) w a = nat (val_of (width4 a) (elem4 a)) \<or>
       (shift_amount (operation = Rotate_left \<or> operation = Rotate_right) w a = w \<and> w \<le> nat (val_of (width4 a) (elem4 a)))"
    using shift_amount_rotate [OF assms(2), of a] shift_amount_logical [of w a] by (simp split: if_splits)
qed

lemma reverse_shift_spec: "reverse_shift operation = spec_reverse operation"
  by (cases operation) simp_all

lemma shift_slow_vec:
  assumes "is_vec4 v w f" "0 < w" "is_vec4 a aw h" "0 < aw"
  shows "\<exists>r. shift_slow operation v a s = Inr r \<and> is_vec4 r w
    (if any_unknown aw h then \<lambda>_. X4 else spec_shift_by Zero4 operation w f (if s then sval_of aw h else val_of aw h))"
proof -
  note v = is_vec4D [OF assms(1)] and a = is_vec4D [OF assms(3)]
  have unknown: "list_ex (\<lambda>index. elem4 a index = X4 \<or> elem4 a index = Z4) [0..<width4 a] \<longleftrightarrow> any_unknown aw h"
    using a(3,4) by (auto simp: list_ex_iff any_unknown_def unknown4_def)
  have "w \<le> size_max div 4" using width_le [OF v(1)] v(3) by simp
  then have x: "is_vec4 (make_packed w X4) w (\<lambda>_. X4)" by (rule make_packed_vec)
  have val: "val_of (width4 a) (elem4 a) = val_of aw h" unfolding a(3) by (rule val_of_cong) (use a(4) in simp)
  show ?thesis
  proof (cases "any_unknown aw h")
    case True
    then show ?thesis using x v(3) unknown by (simp add: shift_slow_def)
  next
    case known: False
    show ?thesis
    proof (cases "s \<and> h (aw - 1) = One4")
      case True
      note negated = shift_negate_vec [OF assms(3) known]
      have "val_of (width4 (shift_negate a)) (elem4 (shift_negate a)) = take_bit aw (- val_of aw h)"
        using reads_val [OF reads_vec4 [OF negated]] is_vec4D(3) [OF negated] by simp
      also have "\<dots> = take_bit aw (- sval_of aw h)"
        unfolding take_bit_sval_of [OF assms(4), of h, symmetric] by (simp add: take_bit_minus)
      also have "\<dots> = - sval_of aw h"
      proof (rule take_bit_int_eq_self)
        show "0 \<le> - sval_of aw h" using sval_of_neg [OF assms(4), of h] True by simp
        have "(2 :: int) ^ (aw - 1) < 2 ^ aw" using assms(4) by (intro power_strict_increasing) simp_all
        then show "- sval_of aw h < 2 ^ aw" using sval_of_bounds(1) [OF assms(4), of h] by linarith
      qed
      finally show ?thesis
        using shift_amount_vec [OF assms(1,2), of "spec_reverse operation" "shift_negate a"] True known unknown a(3,4) v(3) assms(4)
          sval_of_neg [OF assms(4), of h]
        by (simp add: shift_slow_def Let_def reverse_shift_spec spec_shift_by_def)
    next
      case False
      then have "spec_shift_by Zero4 operation w f (if s then sval_of aw h else val_of aw h) =
          spec_shift Zero4 operation w f (nat (val_of aw h))"
        using sval_of_eq [OF assms(4), of h] val_of_bounds(1) [of aw h] by (auto simp: spec_shift_by_def)
      then show ?thesis
        using shift_amount_vec [OF assms(1,2), of operation a] False known unknown a(3,4) v(3) assms(4) unfolding val
        by (cases s) (simp_all add: shift_slow_def Let_def)
    qed
  qed
qed

text \<open>
  C14: \<^verbatim>\<open>shift_value\<close> shifts and rotates four-state values of every width by four-state amounts of
  every width as specified, whether the word kernel or the range moves compute it: a negative amount
  shifts the other way, an amount beyond the width brings in the fill element everywhere, rotation
  is modulo the width, and an unknown amount gives all X.
\<close>

theorem shift_value_spec:
  assumes "is_vec4 v w f" "0 < w" "is_vec4 a aw h" "0 < aw"
  shows "\<exists>r. shift_value operation v a s = Inr r \<and> is_vec4 r w
    (if any_unknown aw h then \<lambda>_. X4 else spec_shift_by Zero4 operation w f (if s then sval_of aw h else val_of aw h))"
proof (cases "w \<le> 64 \<and> aw \<le> 64")
  case True
  note v = is_vec4D [OF assms(1)] and a = is_vec4D [OF assms(3)]
  have "word_vec \<lparr>ka = front (aval_words v), kb = front (bval_words v)\<rparr> w f"
    using front_word_vec [OF v(1,2)] v(3,4) assms(2) True by (auto intro: word_vec_cong)
  moreover have "word_vec \<lparr>ka = front (aval_words a), kb = front (bval_words a)\<rparr> aw h"
    using front_word_vec [OF a(1,2)] a(3,4) assms(4) True by (auto intro: word_vec_cong)
  ultimately show ?thesis
    using from_aval_bval_vec [OF kw_shift_vec [OF _ assms(2) _ assms(4)] assms(2)] True v(2,3) a(2,3) assms(2,4)
    by (simp add: shift_value_def shift_word_path_def Let_def)
next
  case False
  then have "shift_word_path operation v a s = None"
    using is_vec4D(3) [OF assms(1)] is_vec4D(3) [OF assms(3)] by (auto simp: shift_word_path_def)
  then show ?thesis using shift_slow_vec [OF assms] by (simp add: shift_value_def)
qed

theorem shift_value_spec_witness:
  "\<exists>r. shift_value Arithmetic_right (make_packed 100 One4) (make_packed 3 One4) True = Inr r \<and>
     is_vec4 r 100 (spec_shift_by Zero4 Arithmetic_right 100 (\<lambda>_. One4) (sval_of 3 (\<lambda>_. One4)))"
proof -
  have "is_vec4 (make_packed 100 One4) 100 (\<lambda>_. One4)" "is_vec4 (make_packed 3 One4) 3 (\<lambda>_. One4)"
    by (rule make_packed_vec; simp add: size_max_def)+
  from shift_value_spec [OF this(1) _ this(2), of Arithmetic_right True] show ?thesis
    by (simp add: any_unknown_def unknown4_def)
qed

end
