(* ===== verification/Cancellation_Slots.thy ===== *)
theory Cancellation_Slots
  imports Prelude
begin

text \<open>
  \<^verbatim>\<open>CancellationSlots\<close> of \<^verbatim>\<open>src/runtime/scheduler_internal.hpp\<close>: the table behind the handles
  of cancelable scheduler tasks.  A handle names a slot and the generation the slot had when the
  task was stored; released slots are chained in a free list and reused with the next generation,
  and a slot whose generation cannot grow is retired.  A \<^verbatim>\<open>Scheduler::Task\<close> is a callable or
  empty, so a slot holds an optional task.  The theory shows that the table implements a finite
  map from handles to tasks in which a handle is never issued twice.
\<close>

subsection \<open>The table\<close>

record slot_identity =
  id_slot :: nat
  id_generation :: u64

record 'task slot =
  generation :: u64
  slot_active :: bool
  next_free :: nat
  slot_task :: "'task option"

record 'task cancellation_slots =
  slots :: "'task slot list"
  free_head :: nat

definition no_slot :: nat where
  "no_slot = size_max"

definition empty_slots :: "'task cancellation_slots" where
  "empty_slots = \<lparr>slots = [], free_head = no_slot\<rparr>"

definition acquire :: "'task cancellation_slots \<Rightarrow> 'task option \<Rightarrow> slot_identity \<times> 'task cancellation_slots" where
  "acquire table task =
     (if free_head table \<noteq> no_slot
      then
        let index = free_head table; slot = slots table ! index;
            renewed = slot\<lparr>generation := generation slot + 1, slot_task := task, slot_active := True\<rparr>
        in (\<lparr>id_slot = index, id_generation = generation renewed\<rparr>,
            \<lparr>slots = (slots table)[index := renewed], free_head = next_free slot\<rparr>)
      else
        let extended = slots table @ [\<lparr>generation = 1, slot_active = True, next_free = no_slot, slot_task = task\<rparr>]
        in (\<lparr>id_slot = length extended - 1, id_generation = 1\<rparr>, table\<lparr>slots := extended\<rparr>))"

definition active :: "'task cancellation_slots \<Rightarrow> slot_identity \<Rightarrow> bool" where
  "active table identity \<longleftrightarrow> id_slot identity < length (slots table) \<and>
     generation (slots table ! id_slot identity) = id_generation identity \<and>
     slot_active (slots table ! id_slot identity)"

definition release :: "'task cancellation_slots \<Rightarrow> slot_identity \<Rightarrow> 'task cancellation_slots" where
  "release table identity =
     (if \<not> active table identity then table
      else
        let index = id_slot identity; slot = (slots table ! index)\<lparr>slot_task := None, slot_active := False\<rparr>
        in if generation slot \<noteq> - 1
           then \<lparr>slots = (slots table)[index := slot\<lparr>next_free := free_head table\<rparr>], free_head = index\<rparr>
           else table\<lparr>slots := (slots table)[index := slot]\<rparr>)"

definition take_task :: "'task cancellation_slots \<Rightarrow> slot_identity \<Rightarrow> 'task option \<times> 'task cancellation_slots" where
  "take_task table identity =
     (let index = id_slot identity; slot = slots table ! index
      in (slot_task slot, release (table\<lparr>slots := (slots table)[index := slot\<lparr>slot_task := None\<rparr>]\<rparr>) identity))"

subsection \<open>Well-formed tables\<close>

text \<open>\<open>chain ss head is\<close>: following \<open>next_free\<close> from \<open>head\<close> visits exactly the slots \<open>is\<close>.\<close>

fun chain :: "'task slot list \<Rightarrow> nat \<Rightarrow> nat list \<Rightarrow> bool" where
  "chain ss head [] \<longleftrightarrow> head = no_slot"
| "chain ss head (i # is) \<longleftrightarrow> head = i \<and> i < length ss \<and> chain ss (next_free (ss ! i)) is"

definition reusable :: "'task slot \<Rightarrow> bool" where
  "reusable slot \<longleftrightarrow> \<not> slot_active slot \<and> generation slot \<noteq> - 1"

definition slots_ok :: "'task cancellation_slots \<Rightarrow> bool" where
  "slots_ok table \<longleftrightarrow> length (slots table) \<le> size_max \<and>
     (\<exists>is. chain (slots table) (free_head table) is \<and> distinct is \<and>
        set is = {i. i < length (slots table) \<and> reusable (slots table ! i)})"

subsection \<open>Histories\<close>

text \<open>
  The histories of a table, with the handles issued so far and the live ones with their tasks.  A
  release may name any handle, also a stale or a made-up one; a task is taken through a live handle
  only, as the scheduler does.  A new slot needs room: a vector never holds \<open>size_max\<close> elements.
\<close>

inductive slots_history ::
  "'task cancellation_slots \<Rightarrow> slot_identity set \<Rightarrow> (slot_identity \<rightharpoonup> 'task option) \<Rightarrow> bool" where
  start: "slots_history empty_slots {} Map.empty"
| acquire: "slots_history table issued live \<Longrightarrow> length (slots table) < size_max \<Longrightarrow>
     acquire table task = (identity, table') \<Longrightarrow>
     slots_history table' (insert identity issued) (live(identity \<mapsto> task))"
| release: "slots_history table issued live \<Longrightarrow>
     slots_history (release table identity) issued (live(identity := None))"
| take_task: "slots_history table issued live \<Longrightarrow> identity \<in> dom live \<Longrightarrow>
     take_task table identity = (task, table') \<Longrightarrow>
     slots_history table' issued (live(identity := None))"

definition represents :: "'task cancellation_slots \<Rightarrow> slot_identity set \<Rightarrow> (slot_identity \<rightharpoonup> 'task option) \<Rightarrow> bool" where
  "represents table issued live \<longleftrightarrow> slots_ok table \<and>
     (\<forall>identity. live identity = (if active table identity then Some (slot_task (slots table ! id_slot identity)) else None)) \<and>
     (\<forall>identity. active table identity \<longrightarrow> identity \<in> issued) \<and>
     (\<forall>identity\<in>issued. id_slot identity < length (slots table) \<and>
        id_generation identity \<le> generation (slots table ! id_slot identity))"

lemma chain_update:
  "i \<notin> set is \<Longrightarrow> chain (ss[i := s]) head is = chain ss head is"
  by (induction "is" arbitrary: head) auto

lemma chain_append: "chain ss head is \<Longrightarrow> chain (ss @ ts) head is"
  by (induction "is" arbitrary: head) (auto simp: nth_append)

lemma chain_range: "chain ss head is \<Longrightarrow> i \<in> set is \<Longrightarrow> i < length ss"
  by (induction "is" arbitrary: head) auto

lemma chain_head:
  assumes "chain ss head is" "length ss \<le> size_max"
  shows "head = no_slot \<longleftrightarrow> is = []"
  using assms by (cases "is") (auto simp: no_slot_def)

lemma identity_eqI: "id_slot a = id_slot b \<Longrightarrow> id_generation a = id_generation b \<Longrightarrow> a = (b :: slot_identity)"
  by (cases a; cases b) simp

lemma identity_eq_iff:
  "a = b \<longleftrightarrow> id_slot a = id_slot b \<and> id_generation a = id_generation (b :: slot_identity)"
  by (auto intro: identity_eqI)

lemma next_generation:
  fixes g h :: u64
  assumes "g \<noteq> - 1" "h \<le> g"
  shows "h < g + 1"
proof -
  have "1 + g \<noteq> 0" using assms(1) by (simp add: add_eq_0_iff)
  then have "unat (1 + g) = Suc (unat g)" by (rule unatSuc)
  with assms(2) show ?thesis by (simp add: word_less_nat_alt word_le_nat_alt add.commute)
qed

subsection \<open>Every operation keeps the representation\<close>

lemma represents_empty: "represents empty_slots {} Map.empty"
  by (auto simp: represents_def empty_slots_def slots_ok_def active_def intro: exI [of _ "[]"])

lemma acquire_reused:
  assumes r: "represents table issued live" and h: "free_head table \<noteq> no_slot"
    and acq: "acquire table task = (identity, table')"
  shows "identity \<notin> issued" "represents table' (insert identity issued) (live(identity \<mapsto> task))"
proof -
  define k where "k = free_head table"
  obtain js where c: "chain (slots table) k js" "distinct js"
      "set js = {i. i < length (slots table) \<and> reusable (slots table ! i)}" and len: "length (slots table) \<le> size_max"
    using r by (auto simp: represents_def slots_ok_def k_def)
  obtain ks where js: "js = k # ks" and k: "k < length (slots table)" and rest: "chain (slots table) (next_free (slots table ! k)) ks"
    using c(1) h by (cases js) (auto simp: k_def)
  have re: "reusable (slots table ! k)" using c(3) js by auto
  define s where "s = (slots table ! k)\<lparr>generation := generation (slots table ! k) + 1, slot_task := task, slot_active := True\<rparr>"
  have id: "identity = \<lparr>id_slot = k, id_generation = generation (slots table ! k) + 1\<rparr>"
    and t': "table' = \<lparr>slots = (slots table)[k := s], free_head = next_free (slots table ! k)\<rparr>"
    using acq h by (auto simp: acquire_def Let_def k_def s_def)
  have newer: "g \<le> generation (slots table ! k) \<Longrightarrow> g < generation (slots table ! k) + 1" for g
    using re next_generation by (auto simp: reusable_def)
  have old: "x \<in> issued \<Longrightarrow> id_slot x < length (slots table) \<and> id_generation x \<le> generation (slots table ! id_slot x)" for x
    using r by (simp add: represents_def)
  show fresh: "identity \<notin> issued" using old [of identity] newer by (auto simp: id)
  have "chain (slots table') (free_head table') ks"
    using rest c(2) by (simp add: t' js chain_update)
  moreover have "set ks = {i. i < length (slots table') \<and> reusable (slots table' ! i)}"
  proof -
    have "reusable (slots table' ! i) \<longleftrightarrow> i \<noteq> k \<and> reusable (slots table ! i)" if "i < length (slots table)" for i
      using that by (cases "i = k") (simp_all add: t' reusable_def s_def)
    moreover have "set ks = set js - {k}" using c(2) js by auto
    moreover have "length (slots table') = length (slots table)" by (simp add: t')
    ultimately show ?thesis unfolding c(3) by auto
  qed
  ultimately have ok: "slots_ok table'"
    unfolding slots_ok_def using c(2) len by (auto simp: js t')
  have act: "active table' x \<longleftrightarrow> x = identity \<or> (active table x \<and> id_slot x \<noteq> k)" for x
    unfolding id identity_eq_iff using k by (cases "id_slot x = k") (auto simp: active_def t' s_def)
  have dead: "\<not> active table x" if "id_slot x = k" for x using re that by (auto simp: active_def reusable_def)
  have lv: "live x = (if active table x then Some (slot_task (slots table ! id_slot x)) else None)" for x
    using r by (simp add: represents_def)
  show "represents table' (insert identity issued) (live(identity \<mapsto> task))"
    unfolding represents_def
  proof (intro conjI allI ballI impI)
    show "slots_ok table'" by (rule ok)
    fix x
    show "(live(identity \<mapsto> task)) x = (if active table' x then Some (slot_task (slots table' ! id_slot x)) else None)"
      using k dead [of x] unfolding act by (auto simp: lv t' id s_def nth_list_update)
    show "x \<in> insert identity issued" if "active table' x"
      using that r unfolding act represents_def by auto
  next
    fix x assume x: "x \<in> insert identity issued"
    show "id_slot x < length (slots table')" using x old k by (auto simp: t' id)
    show "id_generation x \<le> generation (slots table' ! id_slot x)"
      using x old [of x] newer [of "id_generation x"] k by (auto simp: t' id s_def nth_list_update order.strict_implies_order)
  qed
qed

lemma acquire_new:
  assumes r: "represents table issued live" and h: "free_head table = no_slot" and room: "length (slots table) < size_max"
    and acq: "acquire table task = (identity, table')"
  shows "identity \<notin> issued" "represents table' (insert identity issued) (live(identity \<mapsto> task))"
proof -
  define n where "n = length (slots table)"
  define s where "s = \<lparr>generation = 1, slot_active = True, next_free = no_slot, slot_task = task\<rparr>"
  have id: "identity = \<lparr>id_slot = n, id_generation = 1\<rparr>" and t': "table' = table\<lparr>slots := slots table @ [s]\<rparr>"
    using acq h by (auto simp: acquire_def Let_def n_def s_def)
  have old: "x \<in> issued \<Longrightarrow> id_slot x < n \<and> id_generation x \<le> generation (slots table ! id_slot x)" for x
    using r by (simp add: represents_def n_def)
  show "identity \<notin> issued" using old [of identity] by (auto simp: id)
  obtain js where c: "chain (slots table) (free_head table) js" "distinct js"
      "set js = {i. i < n \<and> reusable (slots table ! i)}"
    using r by (auto simp: represents_def slots_ok_def n_def)
  have len': "length (slots table') = Suc n" by (simp add: t' n_def)
  have nth': "slots table' ! i = (if i < n then slots table ! i else s)" if "i < Suc n" for i
    using that by (auto simp: t' n_def nth_append less_Suc_eq)
  have "reusable (slots table' ! i) \<longleftrightarrow> i < n \<and> reusable (slots table ! i)" if "i < Suc n" for i
    unfolding nth' [OF that] by (simp add: s_def reusable_def)
  then have "set js = {i. i < length (slots table') \<and> reusable (slots table' ! i)}" unfolding c(3) len' by auto
  moreover have "chain (slots table') (free_head table') js" using chain_append [OF c(1)] by (simp add: t')
  ultimately have ok: "slots_ok table'"
    unfolding slots_ok_def using c(2) room by (auto simp: len' n_def)
  have act: "active table' x \<longleftrightarrow> x = identity \<or> active table x" for x
  proof (cases "id_slot x < n")
    case True
    then show ?thesis unfolding id identity_eq_iff active_def len' using nth' [of "id_slot x"] by (simp add: n_def)
  next
    case False
    then show ?thesis
      unfolding id identity_eq_iff active_def len' using nth' [of "id_slot x"] by (auto simp: n_def [symmetric] s_def less_Suc_eq)
  qed
  have inr: "active table x \<Longrightarrow> id_slot x < n" for x by (simp add: active_def n_def)
  have lv: "live x = (if active table x then Some (slot_task (slots table ! id_slot x)) else None)" for x
    using r by (simp add: represents_def)
  show "represents table' (insert identity issued) (live(identity \<mapsto> task))"
    unfolding represents_def
  proof (intro conjI allI ballI impI)
    show "slots_ok table'" by (rule ok)
    fix x
    show "(live(identity \<mapsto> task)) x = (if active table' x then Some (slot_task (slots table' ! id_slot x)) else None)"
      using inr [of x] nth' [of "id_slot x"] unfolding act by (auto simp: lv id s_def)
    show "x \<in> insert identity issued" if "active table' x"
      using that r unfolding act represents_def by auto
  next
    fix x assume x: "x \<in> insert identity issued"
    show "id_slot x < length (slots table')" using x old [of x] by (auto simp: t' id n_def)
    show "id_generation x \<le> generation (slots table' ! id_slot x)"
      using x old [of x] nth' [of "id_slot x"] by (auto simp: id s_def)
  qed
qed

lemma release_represents:
  assumes r: "represents table issued live"
  shows "represents (release table identity) issued (live(identity := None))"
proof (cases "active table identity")
  case False
  then have "live identity = None" using r by (simp add: represents_def)
  then have "live(identity := None) = live" by auto
  with False r show ?thesis by (simp add: release_def)
next
  case True
  define k where "k = id_slot identity"
  define ss where "ss = slots table"
  have k: "k < length ss" "generation (ss ! k) = id_generation identity" "slot_active (ss ! k)"
    using True unfolding active_def k_def ss_def by blast+
  define s where "s = (if generation (ss ! k) \<noteq> - 1
      then (ss ! k)\<lparr>slot_task := None, slot_active := False, next_free := free_head table\<rparr>
      else (ss ! k)\<lparr>slot_task := None, slot_active := False\<rparr>)"
  define t' where "t' = release table identity"
  have t': "slots t' = ss[k := s]" "free_head t' = (if generation (ss ! k) \<noteq> - 1 then k else free_head table)"
    unfolding t'_def release_def Let_def if_not_P [OF not_not [THEN iffD2, OF True]] k_def [symmetric] ss_def [symmetric] s_def
    by (simp_all)
  have s: "generation s = generation (ss ! k)" "\<not> slot_active s" "slot_task s = None"
    "generation (ss ! k) \<noteq> - 1 \<Longrightarrow> next_free s = free_head table"
    by (simp_all add: s_def)
  have nth': "slots t' ! i = (if i = k then s else ss ! i)" if "i < length ss" for i
    using that by (simp add: t'(1))
  have len': "length (slots t') = length ss" by (simp add: t'(1))
  obtain js where c: "chain ss (free_head table) js" "distinct js"
      "set js = {i. i < length ss \<and> reusable (ss ! i)}" and len: "length ss \<le> size_max"
    using r by (auto simp: represents_def slots_ok_def ss_def)
  have nk: "k \<notin> set js" using c(3) k(3) by (auto simp: reusable_def)
  have nre: "\<not> reusable (ss ! k)" using k(3) by (simp add: reusable_def)
  have re: "reusable (slots t' ! i) \<longleftrightarrow> (if i = k then generation (ss ! k) \<noteq> - 1 else reusable (ss ! i))" if "i < length ss" for i
    unfolding nth' [OF that] by (simp add: reusable_def s(1,2))
  have ok: "slots_ok t'"
  proof (cases "generation (ss ! k) = - 1")
    case True
    have "{i. i < length (slots t') \<and> reusable (slots t' ! i)} = set js"
      unfolding c(3) len' using re True nre by (auto split: if_splits)
    moreover have "chain (slots t') (free_head t') js" using c(1) nk True by (simp add: t' chain_update)
    ultimately show ?thesis unfolding slots_ok_def len' using c(2) len by blast
  next
    case False
    have "{i. i < length (slots t') \<and> reusable (slots t' ! i)} = set (k # js)"
      using re False k(1) nk unfolding len' by (auto simp: c(3) split: if_splits)
    moreover have "chain (slots t') (free_head t') (k # js)"
      using c(1) nk False k(1) s(4) by (simp add: t' chain_update)
    moreover have "distinct (k # js)" using c(2) nk by simp
    ultimately show ?thesis unfolding slots_ok_def len' using len by metis
  qed
  have act: "active t' x \<longleftrightarrow> active table x \<and> x \<noteq> identity" for x
  proof (cases "id_slot x = k")
    case True
    then have "\<not> active t' x" using k(1) s(2) by (auto simp: active_def len' nth')
    moreover have "active table x \<Longrightarrow> x = identity"
      using True k(2) by (auto simp: active_def k_def ss_def intro: identity_eqI)
    ultimately show ?thesis by blast
  next
    case False
    then have "x \<noteq> identity" by (auto simp: k_def)
    with False show ?thesis by (auto simp: active_def len' nth' ss_def [symmetric])
  qed
  have keep: "slot_task (slots t' ! id_slot x) = slot_task (ss ! id_slot x)" if "active t' x" for x
    using that s(2) by (auto simp: active_def len' nth' split: if_splits)
  have gen: "generation (slots t' ! i) = generation (ss ! i)" if "i < length ss" for i
    using s(1) that by (simp add: nth')
  have lv: "live x = (if active table x then Some (slot_task (ss ! id_slot x)) else None)" for x
    using r by (simp add: represents_def ss_def)
  show ?thesis
    unfolding t'_def [symmetric] represents_def
  proof (intro conjI allI ballI impI)
    show "slots_ok t'" by (rule ok)
    fix x
    show "(live(identity := None)) x = (if active t' x then Some (slot_task (slots t' ! id_slot x)) else None)"
      using keep [of x] unfolding act by (auto simp: lv)
    show "x \<in> issued" if "active t' x" using that r unfolding act represents_def by blast
  next
    fix x assume "x \<in> issued"
    then have "id_slot x < length ss" "id_generation x \<le> generation (ss ! id_slot x)"
      using r by (simp_all add: represents_def ss_def)
    then show "id_slot x < length (slots t')" "id_generation x \<le> generation (slots t' ! id_slot x)"
      by (simp_all add: len' gen)
  qed
qed

lemma take_task_represents:
  assumes r: "represents table issued live" and a: "active table identity"
    and t: "take_task table identity = (task, table')"
  shows "live identity = Some task" "represents table' issued (live(identity := None))"
proof -
  define k where "k = id_slot identity"
  have k: "k < length (slots table)" using a by (simp add: active_def k_def)
  define u where "u = table\<lparr>slots := (slots table)[k := (slots table ! k)\<lparr>slot_task := None\<rparr>]\<rparr>"
  have t': "task = slot_task (slots table ! k)" "table' = release u identity"
    using t by (simp_all add: take_task_def Let_def k_def u_def)
  show "live identity = Some task" using r a by (simp add: represents_def t' k_def)
  have au: "active u identity" using a k by (simp add: active_def u_def k_def)
  have "release u identity = release table identity"
    using a au k by (simp add: release_def Let_def u_def k_def)
  with release_represents [OF r, of identity] show "represents table' issued (live(identity := None))" by (simp add: t')
qed

lemma history_represents: "slots_history table issued live \<Longrightarrow> represents table issued live"
proof (induction rule: slots_history.induct)
  case start
  show ?case by (rule represents_empty)
next
  case (acquire table issued live task identity table')
  then show ?case using acquire_new(2) acquire_reused(2) by (cases "free_head table = no_slot") blast+
next
  case (release table issued live identity)
  show ?case by (rule release_represents [OF release.IH])
next
  case (take_task table issued live identity task table')
  then have "active table identity" by (auto simp: represents_def split: if_splits)
  with take_task show ?case using take_task_represents(2) by blast
qed

text \<open>
  C7: The slot table implements a map of live handles: in every history, whatever stale or forged
  handles were released, a handle is active exactly when it was issued and neither released nor
  taken since, a handle issued now was never issued before, and taking a task through a live handle
  yields the task stored under it.
\<close>

theorem cancellation_handles_unique:
  assumes "slots_history table issued live"
  shows "(active table identity \<longleftrightarrow> identity \<in> dom live) \<and>
    (length (slots table) < size_max \<longrightarrow> fst (acquire table task) \<notin> issued) \<and>
    (identity \<in> dom live \<longrightarrow> live identity = Some (fst (take_task table identity)))"
proof -
  note r = history_represents [OF assms]
  have act: "active table identity \<longleftrightarrow> identity \<in> dom live" using r by (auto simp: represents_def split: if_splits)
  moreover have "fst (acquire table task) \<notin> issued" if "length (slots table) < size_max"
    using that acquire_new(1) [OF r] acquire_reused(1) [OF r] by (metis prod.collapse)
  moreover have "live identity = Some (fst (take_task table identity))" if "identity \<in> dom live"
    using take_task_represents(1) [OF r] act that by (metis prod.collapse)
  ultimately show ?thesis by blast
qed

theorem cancellation_handles_unique_witness:
  "fst (acquire (release (snd (acquire empty_slots (Some ()))) \<lparr>id_slot = 0, id_generation = 1\<rparr>) (Some ())) \<noteq>
     \<lparr>id_slot = 0, id_generation = 1\<rparr>"
proof -
  have a: "acquire empty_slots (Some ()) = (\<lparr>id_slot = 0, id_generation = 1\<rparr>, snd (acquire empty_slots (Some ())))"
    by (simp add: acquire_def empty_slots_def)
  have "slots_history (release (snd (acquire empty_slots (Some ()))) \<lparr>id_slot = 0, id_generation = 1\<rparr>)
      (insert \<lparr>id_slot = 0, id_generation = 1\<rparr> {})
      ((Map.empty(\<lparr>id_slot = 0, id_generation = 1\<rparr> \<mapsto> Some ()))(\<lparr>id_slot = 0, id_generation = 1\<rparr> := None))"
    by (rule slots_history.release [OF slots_history.acquire [OF slots_history.start _ a]]) (simp add: empty_slots_def size_max_def)
  from cancellation_handles_unique [OF this, of _ "Some ()"] show ?thesis
    by (auto simp: acquire_def release_def active_def empty_slots_def size_max_def Let_def)
qed

end
