(* ===== verification/Digests.thy ===== *)
theory Digests
  imports Prelude
begin

text \<open>
  The digests of \<^verbatim>\<open>src/support/sha256.cpp\<close> and \<^verbatim>\<open>src/support/payload_checksum.cpp\<close>: SHA-256 and
  XXH64, both incremental, the spelling of payload checksums, and the verifier that accepts either
  spelling.  A digest object is a record of its fields; a \<^verbatim>\<open>std::byte\<close> is an 8-bit word.  The
  SHA-256 compression is the portable one; the path that uses the SHA instructions of x86 is not
  modelled, since its intrinsics are processor instructions.  The theory shows that hashing in
  pieces gives the digest of the concatenation, for SHA-256 stated against the padding rule of the
  standard.
\<close>

type_synonym byte = "8 word"

subsection \<open>The SHA-256 compression function\<close>

text \<open>
  The table \<^verbatim>\<open>kRoundConstants\<close> of 64 words is the parameter \<open>kc\<close> of the compression function and of
  everything above it: nothing proved here depends on its values, so the theorems hold for the table
  of the source as for any other.
\<close>

definition choose_bits :: "u32 \<Rightarrow> u32 \<Rightarrow> u32 \<Rightarrow> u32" where
  "choose_bits x y z = (x AND y) XOR (NOT x AND z)"

definition majority :: "u32 \<Rightarrow> u32 \<Rightarrow> u32 \<Rightarrow> u32" where
  "majority x y z = (x AND y) XOR (x AND z) XOR (y AND z)"

definition big_sigma0 :: "u32 \<Rightarrow> u32" where
  "big_sigma0 x = word_rotr 2 x XOR word_rotr 13 x XOR word_rotr 22 x"

definition big_sigma1 :: "u32 \<Rightarrow> u32" where
  "big_sigma1 x = word_rotr 6 x XOR word_rotr 11 x XOR word_rotr 25 x"

definition small_sigma0 :: "u32 \<Rightarrow> u32" where
  "small_sigma0 x = word_rotr 7 x XOR word_rotr 18 x XOR drop_bit 3 x"

definition small_sigma1 :: "u32 \<Rightarrow> u32" where
  "small_sigma1 x = word_rotr 17 x XOR word_rotr 19 x XOR drop_bit 10 x"

definition load_be :: "byte list \<Rightarrow> u32" where
  "load_be data = push_bit 24 (ucast (data ! 0)) OR push_bit 16 (ucast (data ! 1))
     OR push_bit 8 (ucast (data ! 2)) OR ucast (data ! 3)"

definition message_words :: "byte list \<Rightarrow> u32 list" where
  "message_words block =
     for_range 16 64 (\<lambda>i ws. ws[i := small_sigma1 (ws ! (i - 2)) + ws ! (i - 7) + small_sigma0 (ws ! (i - 15)) + ws ! (i - 16)])
       (for_range 0 16 (\<lambda>i ws. ws[i := load_be (drop (i * 4) block)]) (replicate 64 0))"

definition sha256_round ::
  "u32 \<Rightarrow> u32 \<Rightarrow> u32 \<times> u32 \<times> u32 \<times> u32 \<times> u32 \<times> u32 \<times> u32 \<times> u32 \<Rightarrow> u32 \<times> u32 \<times> u32 \<times> u32 \<times> u32 \<times> u32 \<times> u32 \<times> u32" where
  "sha256_round k w = (\<lambda>(a, b, c, d, e, f, g, h).
     let temp1 = h + big_sigma1 e + choose_bits e f g + k + w;
         temp2 = big_sigma0 a + majority a b c
     in (temp1 + temp2, a, b, c, d + temp1, e, f, g))"

definition sha256_transform :: "(nat \<Rightarrow> u32) \<Rightarrow> u32 list \<Rightarrow> byte list \<Rightarrow> u32 list" where
  "sha256_transform kc st block =
     (let ws = message_words block;
          (a, b, c, d, e, f, g, h) = for_range 0 64 (\<lambda>i. sha256_round (kc i) (ws ! i))
            (st ! 0, st ! 1, st ! 2, st ! 3, st ! 4, st ! 5, st ! 6, st ! 7)
      in [st ! 0 + a, st ! 1 + b, st ! 2 + c, st ! 3 + d, st ! 4 + e, st ! 5 + f, st ! 6 + g, st ! 7 + h])"

subsection \<open>The SHA-256 object\<close>

record sha256 =
  sha_state :: "u32 list"
  sha_buffer :: "byte list"
  sha_total_bytes :: u64
  sha_buffered :: nat
  sha_finished :: bool

definition Sha256 :: sha256 where
  "Sha256 = \<lparr>sha_state = [0x6a09e667, 0xbb67ae85, 0x3c6ef372, 0xa54ff53a, 0x510e527f, 0x9b05688c, 0x1f83d9ab, 0x5be0cd19],
     sha_buffer = replicate 64 0, sha_total_bytes = 0, sha_buffered = 0, sha_finished = False\<rparr>"

text \<open>\<^verbatim>\<open>std::copy_n(source, count, target + position)\<close> and \<^verbatim>\<open>std::fill(first, last, 0)\<close>.\<close>

definition copy_at :: "nat \<Rightarrow> byte list \<Rightarrow> byte list \<Rightarrow> byte list" where
  "copy_at position source target = take position target @ source @ drop (position + length source) target"

definition fill_zero :: "nat \<Rightarrow> nat \<Rightarrow> byte list \<Rightarrow> byte list" where
  "fill_zero first until target = take first target @ replicate (until - first) 0 @ drop until target"

text \<open>
  \<open>absorb n step\<close> is the loop that compresses complete blocks off the front of its input while
  there is one; it returns the bytes left over.
\<close>

function absorb :: "nat \<Rightarrow> ('s \<Rightarrow> byte list \<Rightarrow> 's) \<Rightarrow> 's \<Rightarrow> byte list \<Rightarrow> 's \<times> byte list" where
  "absorb n step st bytes =
     (if n = 0 \<or> length bytes < n then (st, bytes)
      else absorb n step (step st (take n bytes)) (drop n bytes))"
  by pat_completeness auto
termination by (relation "measure (\<lambda>(_, _, _, bytes). length bytes)") auto

declare absorb.simps [simp del]

definition sha256_update :: "(nat \<Rightarrow> u32) \<Rightarrow> sha256 \<Rightarrow> byte list \<Rightarrow> sha256" where
  "sha256_update kc s bytes =
     (if sha_finished s \<or> bytes = [] then s
      else
        let s = s\<lparr>sha_total_bytes := sha_total_bytes s + of_nat (length bytes)\<rparr>;
            (s, offset) =
              (if sha_buffered s \<noteq> 0
               then let count = min (64 - sha_buffered s) (length bytes);
                        s = s\<lparr>sha_buffer := copy_at (sha_buffered s) (take count bytes) (sha_buffer s),
                              sha_buffered := sha_buffered s + count\<rparr>
                    in (if sha_buffered s = 64
                        then s\<lparr>sha_state := sha256_transform kc (sha_state s) (sha_buffer s), sha_buffered := 0\<rparr> else s, count)
               else (s, 0));
            (st, tail) = absorb 64 (sha256_transform kc) (sha_state s) (drop offset bytes);
            s = s\<lparr>sha_state := st\<rparr>
        in if tail \<noteq> [] then s\<lparr>sha_buffer := copy_at 0 tail (sha_buffer s), sha_buffered := length tail\<rparr> else s)"

definition digest_bytes :: "u32 list \<Rightarrow> byte list" where
  "digest_bytes st = concat (map (\<lambda>word. map (\<lambda>byte. ucast (drop_bit ((3 - byte) * 8) (st ! word) AND 0xff)) [0..<4]) [0..<8])"

definition sha256_finish :: "(nat \<Rightarrow> u32) \<Rightarrow> sha256 \<Rightarrow> byte list \<times> sha256" where
  "sha256_finish kc s =
     (let s = (if sha_finished s then s
        else
          let bit_length = sha_total_bytes s * 8;
              buffer = (sha_buffer s)[sha_buffered s := 0x80];
              buffered = sha_buffered s + 1;
              (st, buffer, buffered) =
                (if buffered > 56
                 then let buffer = fill_zero buffered 64 buffer in (sha256_transform kc (sha_state s) buffer, buffer, 0)
                 else (sha_state s, buffer, buffered));
              buffer = fill_zero buffered 56 buffer;
              buffer = for_range 0 8 (\<lambda>i b. b[63 - i := ucast (drop_bit (i * 8) bit_length AND 0xff)]) buffer
          in s\<lparr>sha_state := sha256_transform kc st buffer, sha_buffer := buffer, sha_buffered := 0, sha_finished := True\<rparr>)
      in (digest_bytes (sha_state s), s))"

definition sha256_digest :: "(nat \<Rightarrow> u32) \<Rightarrow> byte list \<Rightarrow> byte list" where
  "sha256_digest kc bytes = fst (sha256_finish kc (sha256_update kc Sha256 bytes))"

subsection \<open>Hexadecimal spelling\<close>

definition hex_digits :: string where
  "hex_digits = ''0123456789abcdef''"

definition sha256_hex :: "byte list \<Rightarrow> string" where
  "sha256_hex digest = concat (map (\<lambda>b. [hex_digits ! unat (drop_bit 4 b), hex_digits ! unat (b AND 0x0f)]) digest)"

definition nibble :: "char \<Rightarrow> int" where
  "nibble character =
     (let code = int (of_char character)
      in if of_char (CHR ''0'') \<le> code \<and> code \<le> of_char (CHR ''9'') then code - of_char (CHR ''0'')
         else if of_char (CHR ''a'') \<le> code \<and> code \<le> of_char (CHR ''f'') then code - of_char (CHR ''a'') + 10
         else - 1)"

definition sha256_from_hex :: "string \<Rightarrow> byte list option" where
  "sha256_from_hex text =
     (if length text \<noteq> 64 then None
      else those (map (\<lambda>index.
             let high = nibble (text ! (2 * index)); low = nibble (text ! (2 * index + 1))
             in if high < 0 \<or> low < 0 then None else Some (word_of_int (push_bit 4 high OR low))) [0..<32]))"

subsection \<open>XXH64\<close>

definition prime1 :: u64 where "prime1 = 0x9E3779B185EBCA87"
definition prime2 :: u64 where "prime2 = 0xC2B2AE3D27D4EB4F"
definition prime3 :: u64 where "prime3 = 0x165667B19E3779F9"
definition prime4 :: u64 where "prime4 = 0x85EBCA77C2B2AE63"
definition prime5 :: u64 where "prime5 = 0x27D4EB2F165667C5"

definition read64 :: "byte list \<Rightarrow> u64" where
  "read64 bytes = for_range 0 8 (\<lambda>index value. value OR push_bit (8 * index) (ucast (bytes ! index))) 0"

definition read32 :: "byte list \<Rightarrow> u32" where
  "read32 bytes = for_range 0 4 (\<lambda>index value. value OR push_bit (8 * index) (ucast (bytes ! index))) 0"

definition xxh_round :: "u64 \<Rightarrow> u64 \<Rightarrow> u64" where
  "xxh_round lane input = word_rotl 31 (lane + input * prime2) * prime1"

definition merge_round :: "u64 \<Rightarrow> u64 \<Rightarrow> u64" where
  "merge_round hash lane = (hash XOR xxh_round 0 lane) * prime1 + prime4"

definition consume_stripe :: "u64 list \<Rightarrow> byte list \<Rightarrow> u64 list" where
  "consume_stripe lanes bytes =
     [xxh_round (lanes ! 0) (read64 bytes), xxh_round (lanes ! 1) (read64 (drop 8 bytes)),
      xxh_round (lanes ! 2) (read64 (drop 16 bytes)), xxh_round (lanes ! 3) (read64 (drop 24 bytes))]"

primrec consume_stripes :: "nat \<Rightarrow> u64 list \<Rightarrow> byte list \<Rightarrow> u64 list" where
  "consume_stripes 0 lanes bytes = lanes"
| "consume_stripes (Suc stripes) lanes bytes = consume_stripes stripes (consume_stripe lanes (take 32 bytes)) (drop 32 bytes)"

record xxh64 =
  xxh_lanes :: "u64 list"
  xxh_buffer :: "byte list"
  xxh_total_bytes :: u64
  xxh_buffered :: nat

definition Xxh64 :: xxh64 where
  "Xxh64 = \<lparr>xxh_lanes = [prime1 + prime2, prime2, 0, 0 - prime1], xxh_buffer = replicate 32 0, xxh_total_bytes = 0, xxh_buffered = 0\<rparr>"

definition xxh64_stripes :: "xxh64 \<Rightarrow> byte list \<Rightarrow> xxh64" where
  "xxh64_stripes s bytes =
     (let stripes = length bytes div 32; tail = drop (stripes * 32) bytes
      in s\<lparr>xxh_lanes := consume_stripes stripes (xxh_lanes s) bytes,
           xxh_buffer := copy_at 0 tail (xxh_buffer s), xxh_buffered := length tail\<rparr>)"

definition xxh64_update :: "xxh64 \<Rightarrow> byte list \<Rightarrow> xxh64" where
  "xxh64_update s bytes =
     (let s = s\<lparr>xxh_total_bytes := xxh_total_bytes s + of_nat (length bytes)\<rparr>
      in if xxh_buffered s \<noteq> 0
         then
           let count = min (length bytes) (32 - xxh_buffered s);
               s = s\<lparr>xxh_buffer := copy_at (xxh_buffered s) (take count bytes) (xxh_buffer s),
                     xxh_buffered := xxh_buffered s + count\<rparr>
           in if xxh_buffered s < 32 then s
              else xxh64_stripes (s\<lparr>xxh_lanes := consume_stripes 1 (xxh_lanes s) (xxh_buffer s), xxh_buffered := 0\<rparr>) (drop count bytes)
         else xxh64_stripes s bytes)"

function tail_words :: "u64 \<Rightarrow> byte list \<Rightarrow> u64 \<times> byte list" where
  "tail_words hash tail =
     (if length tail \<ge> 8
      then tail_words (word_rotl 27 (hash XOR xxh_round 0 (read64 tail)) * prime1 + prime4) (drop 8 tail)
      else (hash, tail))"
  by pat_completeness auto
termination by (relation "measure (\<lambda>(_, tail). length tail)") auto

declare tail_words.simps [simp del]

definition tail_half :: "u64 \<Rightarrow> byte list \<Rightarrow> u64 \<times> byte list" where
  "tail_half hash tail =
     (if length tail \<ge> 4
      then (word_rotl 23 (hash XOR ucast (read32 tail) * prime1) * prime2 + prime3, drop 4 tail)
      else (hash, tail))"

definition tail_bytes :: "u64 \<Rightarrow> byte list \<Rightarrow> u64" where
  "tail_bytes hash tail = fold (\<lambda>b hash. word_rotl 11 (hash XOR ucast b * prime5) * prime1) tail hash"

definition avalanche :: "u64 \<Rightarrow> u64" where
  "avalanche hash =
     (let hash = (hash XOR drop_bit 33 hash) * prime2; hash = (hash XOR drop_bit 29 hash) * prime3
      in hash XOR drop_bit 32 hash)"

definition xxh64_finish :: "xxh64 \<Rightarrow> u64" where
  "xxh64_finish s =
     (let lanes = xxh_lanes s;
          hash = (if xxh_total_bytes s \<ge> 32
                  then word_rotl 1 (lanes ! 0) + word_rotl 7 (lanes ! 1) + word_rotl 12 (lanes ! 2) + word_rotl 18 (lanes ! 3)
                  else lanes ! 2 + prime5);
          hash = (if xxh_total_bytes s \<ge> 32 then fold (\<lambda>lane hash. merge_round hash lane) lanes hash else hash);
          hash = hash + xxh_total_bytes s;
          (hash, tail) = tail_words hash (take (xxh_buffered s) (xxh_buffer s));
          (hash, tail) = tail_half hash tail
      in avalanche (tail_bytes hash tail))"

definition xxh64_digest :: "byte list \<Rightarrow> u64" where
  "xxh64_digest bytes = xxh64_finish (xxh64_update Xxh64 bytes)"

subsection \<open>Payload checksums\<close>

definition xxh64_tag :: string where
  "xxh64_tag = ''xxh64:''"

definition hex64 :: "u64 \<Rightarrow> string" where
  "hex64 v = map (\<lambda>n. hex_digits ! unat (drop_bit ((15 - n) * 4) v AND 0xf)) [0..<16]"

definition lower_hex :: "string \<Rightarrow> bool" where
  "lower_hex text = list_all (\<lambda>character. let code = (of_char character :: nat)
     in (of_char (CHR ''0'') \<le> code \<and> code \<le> of_char (CHR ''9'')) \<or> (of_char (CHR ''a'') \<le> code \<and> code \<le> of_char (CHR ''f''))) text"

definition starts_with :: "string \<Rightarrow> string \<Rightarrow> bool" where
  "starts_with text head \<longleftrightarrow> take (length head) text = head"

definition payload_checksum :: "byte list \<Rightarrow> string" where
  "payload_checksum bytes = xxh64_tag @ hex64 (xxh64_digest bytes)"

definition payload_checksum_spelling :: "string \<Rightarrow> bool" where
  "payload_checksum_spelling checksum =
     (if starts_with checksum xxh64_tag
      then let digits = drop (length xxh64_tag) checksum in length digits = 16 \<and> lower_hex digits
      else length checksum = 64 \<and> lower_hex checksum)"

record payload_checksum_verifier =
  expected :: string
  is_xxh64 :: bool
  xxh64_state :: xxh64
  sha256_state :: sha256

definition PayloadChecksumVerifier :: "string \<Rightarrow> payload_checksum_verifier" where
  "PayloadChecksumVerifier text =
     \<lparr>expected = text, is_xxh64 = starts_with text xxh64_tag, xxh64_state = Xxh64, sha256_state = Sha256\<rparr>"

definition verifier_update :: "(nat \<Rightarrow> u32) \<Rightarrow> payload_checksum_verifier \<Rightarrow> byte list \<Rightarrow> payload_checksum_verifier" where
  "verifier_update kc v bytes =
     (if is_xxh64 v then v\<lparr>xxh64_state := xxh64_update (xxh64_state v) bytes\<rparr>
      else v\<lparr>sha256_state := sha256_update kc (sha256_state v) bytes\<rparr>)"

definition verifier_matches :: "(nat \<Rightarrow> u32) \<Rightarrow> payload_checksum_verifier \<Rightarrow> bool \<times> payload_checksum_verifier" where
  "verifier_matches kc v =
     (if is_xxh64 v then (xxh64_tag @ hex64 (xxh64_finish (xxh64_state v)) = expected v, v)
      else let (digest, s) = sha256_finish kc (sha256_state v)
           in (sha256_hex digest = expected v, v\<lparr>sha256_state := s\<rparr>))"

definition payload_checksum_matches :: "(nat \<Rightarrow> u32) \<Rightarrow> byte list \<Rightarrow> string \<Rightarrow> bool" where
  "payload_checksum_matches kc bytes text = fst (verifier_matches kc (verifier_update kc (PayloadChecksumVerifier text) bytes))"

subsection \<open>The standard's padding\<close>

definition length_field :: "u64 \<Rightarrow> byte list" where
  "length_field bits = map (\<lambda>j. ucast (drop_bit ((7 - j) * 8) bits AND 0xff)) [0..<8]"

definition sha256_padding :: "nat \<Rightarrow> byte list" where
  "sha256_padding n = [0x80] @ replicate ((119 - n mod 64) mod 64) 0 @ length_field (of_nat n * 8)"

definition sha256_reference :: "(nat \<Rightarrow> u32) \<Rightarrow> byte list \<Rightarrow> byte list" where
  "sha256_reference kc message =
     digest_bytes (fst (absorb 64 (sha256_transform kc) (sha_state Sha256) (message @ sha256_padding (length message))))"

text \<open>An object that has absorbed a message and is not finished.\<close>

definition sha256_tracks :: "(nat \<Rightarrow> u32) \<Rightarrow> sha256 \<Rightarrow> byte list \<Rightarrow> bool" where
  "sha256_tracks kc s message \<longleftrightarrow> \<not> sha_finished s \<and> length (sha_buffer s) = 64 \<and> sha_total_bytes s = of_nat (length message) \<and>
     absorb 64 (sha256_transform kc) (sha_state Sha256) message = (sha_state s, take (sha_buffered s) (sha_buffer s)) \<and>
     sha_buffered s < 64"

definition xxh64_tracks :: "xxh64 \<Rightarrow> byte list \<Rightarrow> bool" where
  "xxh64_tracks s message \<longleftrightarrow> length (xxh_buffer s) = 32 \<and> xxh_total_bytes s = of_nat (length message) \<and>
     absorb 32 consume_stripe (xxh_lanes Xxh64) message = (xxh_lanes s, take (xxh_buffered s) (xxh_buffer s)) \<and>
     xxh_buffered s < 32"

subsection \<open>Hashing in pieces\<close>

text \<open>
  What an incremental digest promises its clients: an object that has seen a message tracks it,
  whatever pieces it came in, and the digest of a tracked message is the reference digest.
\<close>

locale streaming_digest =
  fixes start :: 's and update :: "'s \<Rightarrow> byte list \<Rightarrow> 's" and result_of :: "'s \<Rightarrow> 'd"
    and tracks :: "'s \<Rightarrow> byte list \<Rightarrow> bool" and reference :: "byte list \<Rightarrow> 'd"
  assumes tracks_start: "tracks start []"
    and tracks_update: "tracks s message \<Longrightarrow> tracks (update s bytes) (message @ bytes)"
    and tracks_output: "tracks s message \<Longrightarrow> result_of s = reference message"
begin

lemma tracks_pieces: "tracks s message \<Longrightarrow> tracks (fold (\<lambda>piece s. update s piece) pieces s) (message @ concat pieces)"
proof (induction pieces arbitrary: s message)
  case (Cons piece pieces)
  from Cons.IH [OF tracks_update [OF Cons.prems, of piece]] show ?case by simp
qed simp

lemma pieces_output: "result_of (fold (\<lambda>piece s. update s piece) pieces start) = reference (concat pieces)"
  using tracks_pieces [OF tracks_start, of pieces] by (intro tracks_output) simp

end

lemma absorb_short: "length bytes < n \<Longrightarrow> absorb n step st bytes = (st, bytes)"
  by (simp add: absorb.simps)

lemma absorb_block: "0 < n \<Longrightarrow> length block = n \<Longrightarrow> absorb n step st (block @ bytes) = absorb n step (step st block) bytes"
  by (simp add: absorb.simps [of n step st "block @ bytes"])

lemma absorb_append:
  assumes "0 < n"
  shows "absorb n step st (xs @ ys) = absorb n step (fst (absorb n step st xs)) (snd (absorb n step st xs) @ ys)"
  using assms
proof (induction n step st xs rule: absorb.induct)
  case (1 n step st xs)
  show ?case
  proof (cases "length xs < n")
    case True
    then show ?thesis by (simp add: absorb_short)
  next
    case False
    have "xs @ ys = take n xs @ (drop n xs @ ys)" by (simp flip: append.assoc)
    then have "absorb n step st (xs @ ys) = absorb n step (step st (take n xs)) (drop n xs @ ys)"
      using absorb_block [OF 1(2), of "take n xs" step st "drop n xs @ ys"] False by (simp only: length_take min_def) simp
    also have "\<dots> = absorb n step (fst (absorb n step (step st (take n xs)) (drop n xs))) (snd (absorb n step (step st (take n xs)) (drop n xs)) @ ys)"
      using 1 False by simp
    also have "absorb n step (step st (take n xs)) (drop n xs) = absorb n step st xs"
      using False 1(2) by (simp add: absorb.simps [of n step st xs])
    finally show ?thesis .
  qed
qed

lemma absorb_rest: "0 < n \<Longrightarrow> length (snd (absorb n step st xs)) = length xs mod n"
proof (induction n step st xs rule: absorb.induct)
  case (1 n step st xs)
  then show ?case by (cases "length xs < n") (simp_all add: absorb_short absorb.simps [of n step st xs] le_mod_geq)
qed

lemma take_copy_at: "position \<le> length target \<Longrightarrow> take (position + length source) (copy_at position source target) = take position target @ source"
  by (simp add: copy_at_def)

lemma length_copy_at: "position + length source \<le> length target \<Longrightarrow> length (copy_at position source target) = length target"
  by (simp add: copy_at_def)

subsection \<open>SHA-256 tracks its input\<close>

lemma sha256_tracks_start: "sha256_tracks kc Sha256 []"
  by (simp add: sha256_tracks_def Sha256_def absorb_short)

lemma sha256_tracks_update:
  assumes "sha256_tracks kc s message"
  shows "sha256_tracks kc (sha256_update kc s bytes) (message @ bytes)"
proof (cases "bytes = []")
  case True
  with assms show ?thesis by (simp add: sha256_update_def)
next
  case False
  define r where "r = take (sha_buffered s) (sha_buffer s)"
  have t: "\<not> sha_finished s" "length (sha_buffer s) = 64" "sha_total_bytes s = of_nat (length message)" "sha_buffered s < 64"
    "absorb 64 (sha256_transform kc) (sha_state Sha256) message = (sha_state s, r)"
    using assms by (simp_all add: sha256_tracks_def r_def)
  have lr: "length r = sha_buffered s" using t(2,4) by (simp add: r_def)
  have whole: "absorb 64 (sha256_transform kc) (sha_state Sha256) (message @ bytes) = absorb 64 (sha256_transform kc) (sha_state s) (r @ bytes)"
    using absorb_append [of 64 "sha256_transform kc" "sha_state Sha256" message bytes] t(5) by simp
  have settle: "sha256_tracks kc (if tail \<noteq> [] then u\<lparr>sha_buffer := copy_at 0 tail (sha_buffer u), sha_buffered := length tail\<rparr> else u) (message @ bytes)"
    if "absorb 64 (sha256_transform kc) (sha_state s) (r @ bytes) = (sha_state u, tail)" "length (sha_buffer u) = 64" "\<not> sha_finished u"
      "sha_total_bytes u = of_nat (length message) + of_nat (length bytes)" "sha_buffered u = 0" for u tail
  proof -
    have "length tail < 64" using absorb_rest [of 64 "sha256_transform kc" "sha_state s" "r @ bytes"] that(1) by simp
    with that whole show ?thesis
      using take_copy_at [of 0 "sha_buffer u" tail] by (auto simp: sha256_tracks_def length_copy_at)
  qed
  consider "sha_buffered s = 0" | "sha_buffered s \<noteq> 0" "length r + length bytes < 64" | "sha_buffered s \<noteq> 0" "length r + length bytes \<ge> 64"
    by linarith
  then show ?thesis
  proof cases
    case 1
    then have "r = []" using lr by simp
    obtain st tail where a: "absorb 64 (sha256_transform kc) (sha_state s) bytes = (st, tail)" by fastforce
    show ?thesis
      using settle [of "s\<lparr>sha_total_bytes := sha_total_bytes s + of_nat (length bytes), sha_state := st\<rparr>" tail] 1 a t False \<open>r = []\<close>
      by (cases "tail = []") (simp_all add: sha256_update_def Let_def)
  next
    case 2
    then have c: "min (64 - sha_buffered s) (length bytes) = length bytes" "sha_buffered s + length bytes < 64" using lr by simp_all
    have "absorb 64 (sha256_transform kc) (sha_state s) (r @ bytes) = (sha_state s, r @ bytes)" using 2 by (simp add: absorb_short)
    moreover have "take (sha_buffered s + length bytes) (copy_at (sha_buffered s) bytes (sha_buffer s)) = r @ bytes"
      using take_copy_at [of "sha_buffered s" "sha_buffer s" bytes] t(2,4) by (simp add: r_def)
    ultimately show ?thesis
      using 2 c t False whole
      by (simp add: sha256_update_def Let_def absorb_short sha256_tracks_def length_copy_at)
  next
    case 3
    define n where "n = 64 - sha_buffered s"
    have c: "min (64 - sha_buffered s) (length bytes) = n" "sha_buffered s + n = 64" "n \<le> length bytes"
      using 3 lr t(4) by (simp_all add: n_def)
    have block: "copy_at (sha_buffered s) (take n bytes) (sha_buffer s) = r @ take n bytes"
      using c t(2,4) by (simp add: copy_at_def r_def)
    obtain st tail where a: "absorb 64 (sha256_transform kc) (sha256_transform kc (sha_state s) (r @ take n bytes)) (drop n bytes) = (st, tail)"
      by fastforce
    have "absorb 64 (sha256_transform kc) (sha_state s) (r @ bytes) = (st, tail)"
      using absorb_block [of 64 "r @ take n bytes" "sha256_transform kc" "sha_state s" "drop n bytes"] a c lr by simp
    then show ?thesis
      using settle [of "s\<lparr>sha_total_bytes := sha_total_bytes s + of_nat (length bytes), sha_buffer := r @ take n bytes,
          sha_buffered := 0, sha_state := st\<rparr>" tail] 3 a t False c lr
      by (cases "tail = []") (simp_all add: sha256_update_def Let_def block)
  qed
qed

lemma length_loop:
  assumes "length pre = 56" "length t = 8"
  shows "for_range 0 8 (\<lambda>i b. b[63 - i := f i]) (pre @ t) = pre @ map (\<lambda>j. f (7 - j)) [0..<8]"
proof -
  have step: "(pre @ t')[56 + k := v] = pre @ t'[k := v]" for t' k v using assms(1) by (simp add: list_update_append)
  obtain t0 t1 t2 t3 t4 t5 t6 t7 where t: "t = [t0, t1, t2, t3, t4, t5, t6, t7]"
    using assms(2) by (auto simp: length_Suc_conv eval_nat_numeral)
  show ?thesis
    using step [of _ 0] step [of _ 1] step [of _ 2] step [of _ 3] step [of _ 4] step [of _ 5] step [of _ 6] step [of _ 7]
    by (simp add: for_range_def upt_rec t) (simp add: eval_nat_numeral)
qed

lemma sha256_tracks_finish:
  assumes "sha256_tracks kc s message"
  shows "fst (sha256_finish kc s) = sha256_reference kc message"
proof -
  define n where "n = sha_buffered s"
  define r where "r = take n (sha_buffer s)"
  define field where "field = length_field (of_nat (length message) * 8)"
  have t: "\<not> sha_finished s" "length (sha_buffer s) = 64" "sha_total_bytes s = of_nat (length message)" "n < 64"
    "absorb 64 (sha256_transform kc) (sha_state Sha256) message = (sha_state s, r)"
    using assms by (simp_all add: sha256_tracks_def r_def n_def)
  have lr: "length r = n" using t(2,4) by (simp add: r_def)
  have lm: "length message mod 64 = n"
    using absorb_rest [of 64 "sha256_transform kc" "sha_state Sha256" message] t(5) lr by simp
  have lf: "length field = 8" by (simp add: field_def length_field_def)
  have whole: "absorb 64 (sha256_transform kc) (sha_state Sha256) (message @ sha256_padding (length message)) =
      absorb 64 (sha256_transform kc) (sha_state s) (r @ [0x80] @ replicate ((119 - n) mod 64) 0 @ field)"
    using absorb_append [of 64 "sha256_transform kc" "sha_state Sha256" message] t(5) by (simp add: sha256_padding_def lm field_def)
  define B where "B = (sha_buffer s)[n := 0x80]"
  have B: "length B = 64" "take (n + 1) B = r @ [0x80]" using t(2,4) by (simp_all add: B_def r_def upd_conv_take_nth_drop)
  have loop: "for_range 0 8 (\<lambda>i b. b[63 - i := ucast (drop_bit (i * 8) (of_nat (length message) * 8 :: u64) AND 0xff)]) (pre @ drop 56 b) = pre @ field"
    if "length pre = 56" "length b = 64" for pre b :: "byte list"
    using length_loop [OF that(1), of "drop 56 b"] that(2) by (simp add: field_def length_field_def)
  show ?thesis
  proof (cases "n + 1 > 56")
    case False
    define pre where "pre = r @ [0x80] @ replicate (55 - n) 0"
    have pre: "length pre = 56" "fill_zero (n + 1) 56 B = pre @ drop 56 B" "(119 - n) mod 64 = 55 - n"
      using False lr B by (simp_all add: pre_def fill_zero_def) (simp add: mod_if)
    have block: "length (pre @ field) = 64" using pre lf by simp
    have "absorb 64 (sha256_transform kc) (sha_state s) (r @ [0x80] @ replicate (55 - n) 0 @ field) = (sha256_transform kc (sha_state s) (pre @ field), [])"
      using absorb_block [of 64 "pre @ field" "sha256_transform kc" "sha_state s" "[]"] block by (simp add: pre_def absorb_short)
    then show ?thesis
      unfolding sha256_reference_def whole pre(3) sha256_finish_def
      using False t(1,3) loop [OF pre(1) B(1)] pre(2) by (simp add: Let_def n_def [symmetric] B_def [symmetric])
  next
    case True
    define b1 where "b1 = r @ [0x80] @ replicate (63 - n) 0"
    have b1: "length b1 = 64" "fill_zero (n + 1) 64 B = b1" using True lr B t(4) by (simp_all add: b1_def fill_zero_def)
    have z: "(119 - n) mod 64 = (63 - n) + 56" using True t(4) by simp
    have fz: "fill_zero 0 56 b1 = replicate 56 0 @ drop 56 b1" by (simp add: fill_zero_def)
    have "r @ [0x80] @ replicate ((63 - n) + 56) 0 @ field = b1 @ (replicate 56 0 @ field) @ []"
      unfolding b1_def replicate_add by simp
    then have "absorb 64 (sha256_transform kc) (sha_state s) (r @ [0x80] @ replicate ((63 - n) + 56) 0 @ field) =
        absorb 64 (sha256_transform kc) (sha256_transform kc (sha_state s) b1) ((replicate 56 0 @ field) @ [])"
      using absorb_block [OF _ b1(1), of "sha256_transform kc" "sha_state s" "(replicate 56 0 @ field) @ []"] by (simp only: zero_less_numeral)
    also have "\<dots> = absorb 64 (sha256_transform kc) (sha256_transform kc ((sha256_transform kc) (sha_state s) b1) (replicate 56 0 @ field)) []"
      by (rule absorb_block) (simp_all add: lf)
    finally have "absorb 64 (sha256_transform kc) (sha_state s) (r @ [0x80] @ replicate ((63 - n) + 56) 0 @ field) =
        (sha256_transform kc ((sha256_transform kc) (sha_state s) b1) (replicate 56 0 @ field), [])" by (simp only: absorb_short list.size zero_less_numeral)
    then show ?thesis
      unfolding sha256_reference_def whole z sha256_finish_def
      using True t(1,3) loop [OF _ b1(1), of "replicate 56 0"] b1(2) fz by (simp add: Let_def n_def [symmetric] B_def [symmetric])
  qed
qed

interpretation sha: streaming_digest Sha256 "sha256_update kc" "\<lambda>s. fst (sha256_finish kc s)" "sha256_tracks kc" "sha256_reference kc" for kc
  by unfold_locales (rule sha256_tracks_start, erule sha256_tracks_update, erule sha256_tracks_finish)

subsection \<open>XXH64 tracks its input\<close>

lemma consume_stripes_absorb:
  "consume_stripes (length bytes div 32) lanes bytes = fst (absorb 32 consume_stripe lanes bytes) \<and>
   drop (length bytes div 32 * 32) bytes = snd (absorb 32 consume_stripe lanes bytes)"
proof (induction "length bytes" arbitrary: lanes bytes rule: less_induct)
  case less
  show ?case
  proof (cases "length bytes < 32")
    case True
    then show ?thesis by (simp add: absorb_short)
  next
    case False
    then have d: "length bytes div 32 = Suc (length (drop 32 bytes) div 32)" by (simp add: div_if)
    have "absorb 32 consume_stripe lanes bytes = absorb 32 consume_stripe (consume_stripe lanes (take 32 bytes)) (drop 32 bytes)"
      using False by (simp add: absorb.simps [of 32 consume_stripe lanes bytes])
    with less [of "drop 32 bytes" "consume_stripe lanes (take 32 bytes)"] False show ?thesis
      unfolding d by (simp add: add.commute)
  qed
qed

lemma xxh64_tracks_start: "xxh64_tracks Xxh64 []"
  by (simp add: xxh64_tracks_def Xxh64_def absorb_short)

lemma xxh64_stripes_tracks:
  assumes "absorb 32 consume_stripe (xxh_lanes Xxh64) message = absorb 32 consume_stripe (xxh_lanes u) bytes"
    "length (xxh_buffer u) = 32" "xxh_total_bytes u = of_nat (length message)"
  shows "xxh64_tracks (xxh64_stripes u bytes) message"
proof -
  define tail where "tail = drop (length bytes div 32 * 32) bytes"
  have "length tail < 32" by (simp add: tail_def minus_div_mult_eq_mod)
  moreover have "absorb 32 consume_stripe (xxh_lanes u) bytes = (consume_stripes (length bytes div 32) (xxh_lanes u) bytes, tail)"
    using consume_stripes_absorb [of bytes "xxh_lanes u"] by (simp add: tail_def prod_eq_iff)
  ultimately show ?thesis
    using assms take_copy_at [of 0 "xxh_buffer u" tail]
    unfolding xxh64_tracks_def xxh64_stripes_def Let_def tail_def [symmetric] by (simp add: length_copy_at)
qed

lemma xxh64_tracks_update:
  assumes "xxh64_tracks s message"
  shows "xxh64_tracks (xxh64_update s bytes) (message @ bytes)"
proof -
  define r where "r = take (xxh_buffered s) (xxh_buffer s)"
  have t: "length (xxh_buffer s) = 32" "xxh_total_bytes s = of_nat (length message)" "xxh_buffered s < 32"
    "absorb 32 consume_stripe (xxh_lanes Xxh64) message = (xxh_lanes s, r)"
    using assms by (simp_all add: xxh64_tracks_def r_def)
  have lr: "length r = xxh_buffered s" using t(1,3) by (simp add: r_def)
  have whole: "absorb 32 consume_stripe (xxh_lanes Xxh64) (message @ bytes) = absorb 32 consume_stripe (xxh_lanes s) (r @ bytes)"
    using absorb_append [of 32 consume_stripe "xxh_lanes Xxh64" message bytes] t(4) by simp
  consider "xxh_buffered s = 0" | "xxh_buffered s \<noteq> 0" "length r + length bytes < 32" | "xxh_buffered s \<noteq> 0" "length r + length bytes \<ge> 32"
    by linarith
  then show ?thesis
  proof cases
    case 1
    then have "r = []" using lr by simp
    then show ?thesis
      using 1 whole t by (simp add: xxh64_update_def Let_def xxh64_stripes_tracks)
  next
    case 2
    then have c: "min (length bytes) (32 - xxh_buffered s) = length bytes" "xxh_buffered s + length bytes < 32" using lr by simp_all
    have "absorb 32 consume_stripe (xxh_lanes s) (r @ bytes) = (xxh_lanes s, r @ bytes)" using 2 by (simp add: absorb_short)
    moreover have "take (xxh_buffered s + length bytes) (copy_at (xxh_buffered s) bytes (xxh_buffer s)) = r @ bytes"
      using take_copy_at [of "xxh_buffered s" "xxh_buffer s" bytes] t by (simp add: r_def)
    ultimately show ?thesis
      using 2 c t whole by (simp add: xxh64_update_def Let_def xxh64_tracks_def length_copy_at)
  next
    case 3
    define n where "n = 32 - xxh_buffered s"
    have c: "min (length bytes) (32 - xxh_buffered s) = n" "xxh_buffered s + n = 32" "n \<le> length bytes"
      using 3 lr t(3) by (simp_all add: n_def)
    have block: "copy_at (xxh_buffered s) (take n bytes) (xxh_buffer s) = r @ take n bytes"
      using c t by (simp add: copy_at_def r_def)
    have "absorb 32 consume_stripe (xxh_lanes s) (r @ bytes) =
        absorb 32 consume_stripe (consume_stripe (xxh_lanes s) (r @ take n bytes)) (drop n bytes)"
      using absorb_block [of 32 "r @ take n bytes" consume_stripe "xxh_lanes s" "drop n bytes"] c lr by simp
    then show ?thesis
      using 3 c t lr whole by (simp add: xxh64_update_def Let_def block xxh64_stripes_tracks)
  qed
qed

lemma xxh64_tracks_finish:
  assumes "xxh64_tracks s message"
  shows "xxh64_finish s = xxh64_digest message"
proof -
  have "xxh64_tracks (xxh64_update Xxh64 message) message" using xxh64_tracks_update [OF xxh64_tracks_start] by simp
  with assms show ?thesis by (simp add: xxh64_tracks_def xxh64_digest_def xxh64_finish_def)
qed

interpretation xxh: streaming_digest Xxh64 xxh64_update xxh64_finish xxh64_tracks xxh64_digest
  by unfold_locales (rule xxh64_tracks_start, erule xxh64_tracks_update, erule xxh64_tracks_finish)

subsection \<open>Hexadecimal digits\<close>

lemma nibble_digit: "k < 16 \<Longrightarrow> nibble (hex_digits ! k) = int k"
proof -
  have "list_all (\<lambda>k. nibble (hex_digits ! k) = int k) [0..<16]"
    by (simp add: upt_rec hex_digits_def nibble_def Let_def nth_Cons')
  then show "k < 16 \<Longrightarrow> nibble (hex_digits ! k) = int k" by (simp add: list_all_iff)
qed

lemma digit_nibble:
  assumes "0 \<le> nibble c"
  shows "nibble c < 16" "hex_digits ! nat (nibble c) = c"
proof -
  have "(of_char c :: nat) \<in> {48..<58} \<union> {97..<103}"
    using assms by (auto simp: nibble_def Let_def split: if_splits)
  then have "c \<in> char_of ` ({48..<58} \<union> {97..<103 :: nat})" by (metis char_of_char image_eqI)
  then have "c \<in> set (map char_of ([48..<58] @ [97..<103 :: nat]))" by (simp only: set_map set_append set_upt)
  moreover have "map char_of ([48..<58] @ [97..<103 :: nat]) = hex_digits" by code_simp
  ultimately have "c \<in> set hex_digits" by (simp only:)
  moreover have "length hex_digits = 16" by (simp add: hex_digits_def)
  ultimately obtain k where "k < 16" "c = hex_digits ! k" by (metis in_set_conv_nth)
  then show "nibble c < 16" "hex_digits ! nat (nibble c) = c" by (simp_all add: nibble_digit)
qed

lemma hex_pairs:
  "length (concat (map (\<lambda>b. [f b, g b]) xs)) = 2 * length xs"
  "i < length xs \<Longrightarrow> concat (map (\<lambda>b. [f b, g b]) xs) ! (2 * i) = f (xs ! i)"
  "i < length xs \<Longrightarrow> concat (map (\<lambda>b. [f b, g b]) xs) ! (2 * i + 1) = g (xs ! i)"
proof -
  show "length (concat (map (\<lambda>b. [f b, g b]) xs)) = 2 * length xs" by (induction xs) simp_all
  show "i < length xs \<Longrightarrow> concat (map (\<lambda>b. [f b, g b]) xs) ! (2 * i) = f (xs ! i)"
    "i < length xs \<Longrightarrow> concat (map (\<lambda>b. [f b, g b]) xs) ! (2 * i + 1) = g (xs ! i)"
    by (induction xs arbitrary: i; case_tac i; simp)+
qed

lemma byte_nibbles:
  fixes b :: byte
  shows "unat (drop_bit 4 b) = unat b div 16" "unat (b AND 0x0f) = unat b mod 16"
proof -
  show "unat (drop_bit 4 b) = unat b div 16" by (simp add: drop_bit_eq_div unat_div)
  have "b AND 0x0f = take_bit 4 b" by (simp add: take_bit_eq_mask mask_eq_exp_minus_1)
  then show "unat (b AND 0x0f) = unat b mod 16" by (simp add: take_bit_eq_mod unat_mod)
qed

lemma join_nibbles: "0 \<le> h \<Longrightarrow> 0 \<le> l \<Longrightarrow> l < 16 \<Longrightarrow> push_bit 4 h OR l = 16 * h + (l :: int)"
proof -
  assume "0 \<le> h" "0 \<le> l" "l < 16"
  then have l: "take_bit 4 l = l" by (simp add: take_bit_int_eq_self)
  have "push_bit 4 h AND take_bit 4 l = 0" by (rule bit_eqI) (simp add: bit_and_iff bit_push_bit_iff bit_take_bit_iff)
  then have "push_bit 4 h + l = push_bit 4 h OR l" unfolding l by (rule disjunctive_add_eq_or)
  then show ?thesis by (simp add: push_bit_eq_mult)
qed

lemma hex_byte:
  assumes "0 \<le> h" "h < 16" "0 \<le> l" "l < 16"
  shows "b = (word_of_int (push_bit 4 h OR l) :: byte) \<longleftrightarrow> unat (drop_bit 4 b) = nat h \<and> unat (b AND 0x0f) = nat l"
proof -
  have k: "0 \<le> 16 * h + l" "16 * h + l < 2 ^ 8" using assms by simp_all
  have u: "uint (word_of_int (16 * h + l) :: byte) = 16 * h + l"
    using take_bit_int_eq_self [OF k] by (simp only: uint_word_of_int_eq) simp
  have "b = word_of_int (16 * h + l) \<longleftrightarrow> uint b = 16 * h + l" using u by (metis word_of_int_uint)
  also have "\<dots> \<longleftrightarrow> int (unat b) = int (16 * nat h + nat l)" using assms(1,3) by simp
  also have "\<dots> \<longleftrightarrow> unat b = 16 * nat h + nat l" by (rule of_nat_eq_iff)
  also have "\<dots> \<longleftrightarrow> unat b div 16 = nat h \<and> unat b mod 16 = nat l"
  proof
    assume "unat b = 16 * nat h + nat l"
    moreover have "nat l < 16" using assms by simp
    ultimately show "unat b div 16 = nat h \<and> unat b mod 16 = nat l" by simp
  next
    assume "unat b div 16 = nat h \<and> unat b mod 16 = nat l"
    then show "unat b = 16 * nat h + nat l" using mult_div_mod_eq [of 16 "unat b"] by simp
  qed
  finally show ?thesis unfolding join_nibbles [OF assms(1,3,4)] byte_nibbles .
qed

lemma those_eq_Some: "those xs = Some ys \<longleftrightarrow> xs = map Some ys"
proof (induction xs arbitrary: ys)
  case (Cons x xs)
  then show ?case by (cases x; cases ys) (auto split: option.splits)
qed auto

text \<open>
  C11: The hexadecimal spelling of SHA-256 digests round trips: \<^verbatim>\<open>from_hex\<close> accepts exactly the
  texts that \<^verbatim>\<open>hex\<close> writes for a 32-byte digest (64 lower-case digits) and returns that digest.
\<close>

theorem sha256_hex_roundtrip:
  "sha256_from_hex text = Some digest \<longleftrightarrow> length digest = 32 \<and> text = sha256_hex digest"
proof -
  define hi lo where "hi b = hex_digits ! unat (drop_bit 4 b)" and "lo b = hex_digits ! unat (b AND 0x0f)" for b :: byte
  have h: "nibble (hi b) = int (unat b div 16)" "nibble (lo b) = int (unat b mod 16)" for b
    using unsigned_less [of b, where 'a = nat] by (simp_all add: hi_def lo_def byte_nibbles nibble_digit)
  have pair: "(if nibble x < 0 \<or> nibble y < 0 then None else Some (word_of_int (push_bit 4 (nibble x) OR nibble y))) = Some b
      \<longleftrightarrow> x = hi b \<and> y = lo b" for x y and b :: byte
  proof (cases "nibble x < 0 \<or> nibble y < 0")
    case True
    then show ?thesis using h [of b] by auto
  next
    case False
    then have xy: "0 \<le> nibble x" "0 \<le> nibble y" by simp_all
    have "b = word_of_int (push_bit 4 (nibble x) OR nibble y) \<longleftrightarrow> unat (drop_bit 4 b) = nat (nibble x) \<and> unat (b AND 0x0f) = nat (nibble y)"
      by (rule hex_byte) (use digit_nibble(1) xy in auto)
    also have "\<dots> \<longleftrightarrow> x = hi b \<and> y = lo b"
      using digit_nibble(2) [OF xy(1)] digit_nibble(2) [OF xy(2)] h [of b] xy
      by (auto simp: hi_def lo_def byte_nibbles)
    finally show ?thesis using False by auto
  qed
  have hex: "sha256_hex d = concat (map (\<lambda>b. [hi b, lo b]) d)" for d by (simp add: sha256_hex_def hi_def lo_def)
  show ?thesis
  proof (cases "length text = 64 \<and> length digest = 32")
    case False
    then show ?thesis
      by (auto simp: sha256_from_hex_def those_eq_Some hex hex_pairs(1) dest: arg_cong [of _ _ length])
  next
    case True
    define F where "F i = (if nibble (text ! (2 * i)) < 0 \<or> nibble (text ! (2 * i + 1)) < 0 then None
      else Some (word_of_int (push_bit 4 (nibble (text ! (2 * i))) OR nibble (text ! (2 * i + 1))) :: byte))" for i
    have "sha256_from_hex text = those (map F [0..<32])"
      using True unfolding sha256_from_hex_def Let_def F_def [symmetric] by simp
    then have "sha256_from_hex text = Some digest \<longleftrightarrow> map F [0..<32] = map Some digest" by (simp only: those_eq_Some)
    also have "\<dots> \<longleftrightarrow> (\<forall>i<32. F i = Some (digest ! i))" using True by (simp add: list_eq_iff_nth_eq del: upt_rec_numeral)
    also have "\<dots> \<longleftrightarrow> (\<forall>i<32. text ! (2 * i) = hi (digest ! i) \<and> text ! (2 * i + 1) = lo (digest ! i))"
      unfolding F_def pair ..
    also have "\<dots> \<longleftrightarrow> text = sha256_hex digest"
    proof
      assume e: "\<forall>i<32. text ! (2 * i) = hi (digest ! i) \<and> text ! (2 * i + 1) = lo (digest ! i)"
      show "text = sha256_hex digest"
      proof (rule nth_equalityI)
        fix k assume k: "k < length text"
        have i: "k div 2 < 32" "k div 2 < length digest" using k True by simp_all
        have "k = 2 * (k div 2) \<or> k = 2 * (k div 2) + 1" by presburger
        then show "text ! k = sha256_hex digest ! k"
          using e i hex_pairs(2,3) [OF i(2), of hi lo] unfolding hex by metis
      qed (use True in \<open>simp add: hex hex_pairs(1)\<close>)
    qed (use True hex_pairs(2,3) [of _ digest hi lo] in \<open>simp add: hex\<close>)
    finally show ?thesis using True by simp
  qed
qed

subsection \<open>Checksums\<close>

lemma fold_verifier:
  "fold (\<lambda>piece v. verifier_update kc v piece) pieces v =
     (if is_xxh64 v then v\<lparr>xxh64_state := fold (\<lambda>piece s. xxh64_update s piece) pieces (xxh64_state v)\<rparr>
      else v\<lparr>sha256_state := fold (\<lambda>piece s. sha256_update kc s piece) pieces (sha256_state v)\<rparr>)"
  by (induction pieces arbitrary: v) (simp_all add: verifier_update_def)

lemma lower_hex_digit: "k < 16 \<Longrightarrow> lower_hex [hex_digits ! k]"
proof -
  have "list_all (\<lambda>c. lower_hex [c]) hex_digits" by (simp add: hex_digits_def lower_hex_def)
  moreover have "length hex_digits = 16" by (simp add: hex_digits_def)
  ultimately show "k < 16 \<Longrightarrow> lower_hex [hex_digits ! k]" by (simp add: list_all_length)
qed

lemma nibble_less: "unat (x AND 0xf :: u64) < 16"
proof -
  have "x AND 0xf = take_bit 4 x" by (simp add: take_bit_eq_mask mask_eq_exp_minus_1)
  then show ?thesis by (simp add: take_bit_eq_mod unat_mod)
qed

lemma hex64_lower: "lower_hex (hex64 v)" "length (hex64 v) = 16"
proof -
  have "lower_hex [hex_digits ! unat (drop_bit ((15 - n) * 4) v AND 0xf)]" for n by (rule lower_hex_digit [OF nibble_less])
  then show "lower_hex (hex64 v)" by (simp add: hex64_def lower_hex_def list_all_iff)
qed (simp add: hex64_def)

lemma starts_with_tag: "starts_with (xxh64_tag @ text) xxh64_tag"
  by (simp add: starts_with_def)

text \<open>
  C9: The checksum verifier is right however the payload is cut into pieces: it accepts a recorded
  checksum with the XXH64 tag exactly when it is the checksum of the concatenated pieces, and any
  other text exactly when it is the SHA-256 digest of the padded message in hexadecimal.  The
  checksum written for a payload has a valid spelling and is accepted for that payload.
\<close>

theorem payload_checksum_verification:
  "(fst (verifier_matches kc (fold (\<lambda>piece v. verifier_update kc v piece) pieces (PayloadChecksumVerifier text))) \<longleftrightarrow>
      text = (if starts_with text xxh64_tag then payload_checksum (concat pieces)
              else sha256_hex (sha256_reference kc (concat pieces)))) \<and>
   payload_checksum_spelling (payload_checksum bytes) \<and> payload_checksum_matches kc bytes (payload_checksum bytes)"
proof -
  have one: "fold (\<lambda>piece v. verifier_update kc v piece) [bytes] v = verifier_update kc v bytes" for v by simp
  have accept: "fst (verifier_matches kc (fold (\<lambda>piece v. verifier_update kc v piece) ps (PayloadChecksumVerifier t))) \<longleftrightarrow>
      t = (if starts_with t xxh64_tag then payload_checksum (concat ps) else sha256_hex (sha256_reference kc (concat ps)))" for ps t
    unfolding fold_verifier
    by (auto simp: verifier_matches_def PayloadChecksumVerifier_def xxh.pieces_output payload_checksum_def case_prod_beta sha.pieces_output)
  have tagged: "starts_with (payload_checksum bytes) xxh64_tag" by (simp add: payload_checksum_def starts_with_tag)
  have "payload_checksum_spelling (payload_checksum bytes)"
    using tagged by (simp add: payload_checksum_spelling_def payload_checksum_def hex64_lower)
  moreover have "payload_checksum_matches kc bytes (payload_checksum bytes)"
    using accept [of "[bytes]" "payload_checksum bytes"] tagged unfolding payload_checksum_matches_def one by simp
  ultimately show ?thesis using accept by blast
qed

text \<open>
  C8: Hashing in pieces with SHA-256 gives the digest of the standard: the compression function
  folded over the message padded with a one bit, zeros and its length in bits.  Once finished, the
  object keeps its digest: further updates are ignored and finishing again returns the same bytes.
\<close>

theorem sha256_pieces:
  "fst (sha256_finish kc (fold (\<lambda>piece s. sha256_update kc s piece) pieces Sha256)) = sha256_reference kc (concat pieces) \<and>
   (let t = snd (sha256_finish kc s) in sha256_update kc t bytes = t \<and> sha256_finish kc t = (fst (sha256_finish kc s), t))"
proof -
  define t where "t = snd (sha256_finish kc s)"
  have "sha_finished t"
    unfolding t_def by (cases "sha_finished s") (simp_all add: sha256_finish_def Let_def case_prod_beta)
  then have t: "sha256_update kc t bytes = t" "sha256_finish kc t = (digest_bytes (sha_state t), t)"
    by (simp_all add: sha256_update_def sha256_finish_def)
  have "fst (sha256_finish kc s) = digest_bytes (sha_state t)"
    unfolding t_def sha256_finish_def Let_def by (simp only: fst_conv snd_conv)
  with t show ?thesis using sha.pieces_output unfolding t_def [symmetric] Let_def by simp
qed

end
