(* ===== verification/Fst_Compression.thy ===== *)
theory Fst_Compression
  imports Digests
begin

text \<open>
  The deterministic compressors of \<^verbatim>\<open>src/runtime/fst_compression.cpp\<close> that write FST waveform
  blocks: gzip with stored blocks, and zlib with fixed Huffman codes and runs.  Output vectors have
  a byte limit; exceeding it throws \<^verbatim>\<open>std::length_error\<close>.  A \<^verbatim>\<open>std::uint8_t\<close> is an 8-bit word.
  The theory shows that every writer is a bounded append, gives the exact size at which
  \<^verbatim>\<open>gzip_store\<close> throws and that a decoder of the format returns the input, and that the bit writer
  emits the low bits of each code in order.
\<close>

subsection \<open>Bounded output\<close>

definition require_space :: "byte list \<Rightarrow> nat \<Rightarrow> nat \<Rightarrow> unit result" where
  "require_space out count maximum =
     (if count > maximum \<or> length out > maximum - count then Inl Length_error else Inr ())"

definition append_u8 :: "nat \<Rightarrow> byte \<Rightarrow> byte list \<Rightarrow> byte list result" where
  "append_u8 maximum v out = bind_result (require_space out 1 maximum) (\<lambda>_. Inr (out @ [v]))"

definition append_be32 :: "nat \<Rightarrow> u32 \<Rightarrow> byte list \<Rightarrow> byte list result" where
  "append_be32 maximum v out = bind_result (require_space out 4 maximum) (\<lambda>_.
     Inr (fold (\<lambda>shift out. out @ [ucast (drop_bit shift v)]) [24, 16, 8, 0] out))"

definition append_le16 :: "nat \<Rightarrow> 16 word \<Rightarrow> byte list \<Rightarrow> byte list result" where
  "append_le16 maximum v out = bind_result (require_space out 2 maximum) (\<lambda>_.
     Inr (out @ [ucast v] @ [ucast (drop_bit 8 v)]))"

definition append_le32 :: "nat \<Rightarrow> u32 \<Rightarrow> byte list \<Rightarrow> byte list result" where
  "append_le32 maximum v out = bind_result (require_space out 4 maximum) (\<lambda>_.
     Inr (fold (\<lambda>shift out. out @ [ucast (drop_bit shift v)]) [0, 8, 16, 24] out))"

subsection \<open>Checksums of the formats\<close>

definition crc32_bit :: "u32 \<Rightarrow> u32" where
  "crc32_bit v = (let mask = - (v AND 1) in drop_bit 1 v XOR (0xedb88320 AND mask))"

definition crc32 :: "byte list \<Rightarrow> u32" where
  "crc32 input = NOT (fold (\<lambda>byte v. (crc32_bit ^^ 8) (v XOR ucast byte)) input 0xffffffff)"

definition adler32 :: "byte list \<Rightarrow> u32" where
  "adler32 input =
     (let (first, second) = fold (\<lambda>byte (first, second).
            let first = (first + ucast byte) mod 65521 in (first, (second + first) mod 65521)) input (1, 0)
      in push_bit 16 second OR first)"

definition reverse_bits :: "u32 \<Rightarrow> nat \<Rightarrow> u32" where
  "reverse_bits v count =
     fst (for_range 0 count (\<lambda>_ (r, v). (push_bit 1 r OR (v AND 1), drop_bit 1 v)) (0, v))"

subsection \<open>The bit writer\<close>

record deflate_bit_writer =
  dw_output :: "byte list"
  dw_current :: byte
  dw_bit_count :: nat

text \<open>
  The loop consumes at least one bit per round because \<^verbatim>\<open>bit_count_\<close> stays below eight; the second
  branch is never taken (see \<^verbatim>\<open>writer_ok\<close> below).
\<close>

function deflate_append :: "nat \<Rightarrow> u32 \<Rightarrow> nat \<Rightarrow> deflate_bit_writer \<Rightarrow> deflate_bit_writer result" where
  "deflate_append maximum v count w =
     (if count = 0 then Inr w
      else if dw_bit_count w \<ge> 8 then Inr w
      else
        let available = 8 - dw_bit_count w;
            consumed = min count available;
            mask = push_bit consumed 1 - 1;
            current = dw_current w OR ucast (push_bit (dw_bit_count w) (v AND mask));
            bit_count = dw_bit_count w + consumed
        in if bit_count = 8
           then (case append_u8 maximum current (dw_output w) of
                   Inl e \<Rightarrow> Inl e
                 | Inr out \<Rightarrow> deflate_append maximum (drop_bit consumed v) (count - consumed)
                     \<lparr>dw_output = out, dw_current = 0, dw_bit_count = 0\<rparr>)
           else deflate_append maximum (drop_bit consumed v) (count - consumed)
                  (w\<lparr>dw_current := current, dw_bit_count := bit_count\<rparr>))"
  by pat_completeness auto
termination by (relation "measure (\<lambda>(_, _, count, _). count)") auto

declare deflate_append.simps [simp del]

definition deflate_finish :: "nat \<Rightarrow> deflate_bit_writer \<Rightarrow> deflate_bit_writer result" where
  "deflate_finish maximum w =
     (if dw_bit_count w \<noteq> 0
      then bind_result (append_u8 maximum (dw_current w) (dw_output w)) (\<lambda>out.
             Inr \<lparr>dw_output = out, dw_current = 0, dw_bit_count = 0\<rparr>)
      else Inr w)"

definition fixed_code :: "nat \<Rightarrow> u32 \<times> nat" where
  "fixed_code symbol =
     (if symbol \<le> 143 then (0x30 + of_nat symbol, 8)
      else if symbol \<le> 255 then (0x190 + of_nat symbol - 144, 9)
      else if symbol \<le> 279 then (of_nat symbol - 256, 7)
      else (0xc0 + of_nat symbol - 280, 8))"

definition append_fixed_symbol :: "nat \<Rightarrow> nat \<Rightarrow> deflate_bit_writer \<Rightarrow> deflate_bit_writer result" where
  "append_fixed_symbol maximum symbol w =
     (let (code, bits) = fixed_code symbol in deflate_append maximum (reverse_bits code bits) bits w)"

definition run_bases :: "nat list" where
  "run_bases = [3, 4, 5, 6, 7, 8, 9, 10, 11, 13, 15, 17, 19, 23, 27, 31, 35, 43, 51, 59, 67, 83, 99, 115, 131, 163, 195, 227, 258]"

definition run_extras :: "nat list" where
  "run_extras = [0, 0, 0, 0, 0, 0, 0, 0, 1, 1, 1, 1, 2, 2, 2, 2, 3, 3, 3, 3, 4, 4, 4, 4, 5, 5, 5, 5, 0]"

function run_index :: "nat \<Rightarrow> nat \<Rightarrow> nat" where
  "run_index run i = (if i + 1 < length run_bases \<and> run_bases ! (i + 1) \<le> run then run_index run (i + 1) else i)"
  by pat_completeness auto
termination by (relation "measure (\<lambda>(_, i). length run_bases - i)") auto

declare run_index.simps [simp del]

definition append_fixed_run :: "nat \<Rightarrow> nat \<Rightarrow> deflate_bit_writer \<Rightarrow> deflate_bit_writer result" where
  "append_fixed_run maximum run w =
     (let i = run_index run 0
      in bind_result (append_fixed_symbol maximum (257 + i) w) (\<lambda>w.
         bind_result (if run_extras ! i \<noteq> 0 then deflate_append maximum (of_nat (run - run_bases ! i)) (run_extras ! i) w else Inr w)
           (deflate_append maximum 0 5)))"

subsection \<open>The compressors\<close>

definition block_bytes :: nat where
  "block_bytes = 65535"

definition gzip_header :: "byte list" where
  "gzip_header = [0x1f, 0x8b, 0x08, 0, 0, 0, 0, 0, 0, 0xff]"

function gzip_blocks :: "nat \<Rightarrow> byte list \<Rightarrow> nat \<Rightarrow> byte list \<Rightarrow> byte list result" where
  "gzip_blocks maximum input offset out =
     (let remaining = length input - offset;
          block_size = min remaining block_bytes;
          final = (offset + block_size = length input)
      in bind_result (append_u8 maximum (if final then 1 else 0) out) (\<lambda>out.
         bind_result (append_le16 maximum (of_nat block_size) out) (\<lambda>out.
         bind_result (append_le16 maximum (NOT (of_nat block_size)) out) (\<lambda>out.
         bind_result (require_space out block_size maximum) (\<lambda>_.
           let out = out @ take block_size (drop offset input)
           in if offset + block_size < length input then gzip_blocks maximum input (offset + block_size) out else Inr out)))))"
  by pat_completeness auto
termination by (relation "measure (\<lambda>(_, input, offset, _). length input - offset)") (auto simp: block_bytes_def)

declare gzip_blocks.simps [simp del]

definition gzip_store :: "byte list \<Rightarrow> nat \<Rightarrow> byte list result" where
  "gzip_store input maximum =
     (if length input > 2 ^ 32 - 1 then Inl Length_error
      else bind_result (require_space [] 10 maximum) (\<lambda>_.
           bind_result (gzip_blocks maximum input 0 gzip_header) (\<lambda>out.
           bind_result (append_le32 maximum (crc32 input) out)
             (append_le32 maximum (of_nat (length input))))))"

function run_length :: "byte list \<Rightarrow> nat \<Rightarrow> nat \<Rightarrow> nat \<Rightarrow> nat" where
  "run_length input offset block_end run =
     (if run < 258 \<and> offset + run < block_end \<and> input ! (offset + run) = input ! (offset - 1)
      then run_length input offset block_end (run + 1) else run)"
  by pat_completeness auto
termination by (relation "measure (\<lambda>(_, _, _, run). 258 - run)") auto

declare run_length.simps [simp del]

definition run_at :: "byte list \<Rightarrow> nat \<Rightarrow> nat \<Rightarrow> nat \<Rightarrow> nat" where
  "run_at input block_begin block_end offset =
     (if offset \<noteq> block_begin \<and> input ! offset = input ! (offset - 1) then run_length input offset block_end 1 else 0)"

function zlib_block :: "nat \<Rightarrow> byte list \<Rightarrow> nat \<Rightarrow> nat \<Rightarrow> nat \<Rightarrow> deflate_bit_writer \<Rightarrow> deflate_bit_writer result" where
  "zlib_block maximum input block_begin block_end offset w =
     (if offset < block_end
      then let run = run_at input block_begin block_end offset
           in if run \<ge> 3
              then (case append_fixed_run maximum run w of Inl e \<Rightarrow> Inl e
                    | Inr w \<Rightarrow> zlib_block maximum input block_begin block_end (offset + run) w)
              else (case append_fixed_symbol maximum (unat (input ! offset)) w of Inl e \<Rightarrow> Inl e
                    | Inr w \<Rightarrow> zlib_block maximum input block_begin block_end (offset + 1) w)
      else Inr w)"
  by pat_completeness auto
termination by (relation "measure (\<lambda>(_, _, _, block_end, offset, _). block_end - offset)") auto

declare zlib_block.simps [simp del]

function zlib_blocks :: "nat \<Rightarrow> byte list \<Rightarrow> nat \<Rightarrow> deflate_bit_writer \<Rightarrow> deflate_bit_writer result" where
  "zlib_blocks maximum input block_begin w =
     (let block_end = min (length input) (block_begin + block_bytes)
      in bind_result (deflate_append maximum (if block_end = length input then 1 else 0) 1 w) (\<lambda>w.
         bind_result (deflate_append maximum 1 2 w) (\<lambda>w.
         bind_result (zlib_block maximum input block_begin block_end block_begin w) (\<lambda>w.
         bind_result (append_fixed_symbol maximum 256 w) (\<lambda>w.
           if block_end < length input then zlib_blocks maximum input block_end w else Inr w)))))"
  by pat_completeness auto
termination by (relation "measure (\<lambda>(_, input, block_begin, _). length input - block_begin)") (auto simp: block_bytes_def)

declare zlib_blocks.simps [simp del]

definition zlib_fixed :: "byte list \<Rightarrow> nat \<Rightarrow> byte list result" where
  "zlib_fixed input maximum =
     bind_result (require_space [] 2 maximum) (\<lambda>_.
     bind_result (zlib_blocks maximum input 0 \<lparr>dw_output = [0x78, 0x01], dw_current = 0, dw_bit_count = 0\<rparr>) (\<lambda>w.
     bind_result (deflate_finish maximum w) (\<lambda>w.
       append_be32 maximum (adler32 input) (dw_output w))))"

datatype fst_compression_kind = HierarchyGzipStoreV1 | InitialValueZlibFixedV1

record fst_compression_result =
  fst_bytes :: "byte list"
  profile_identity :: string
  semantic_digest :: string
  byte_digest :: string
  platform_byte_identical :: bool
  variability_reason :: string

definition profile_name :: "fst_compression_kind \<Rightarrow> string" where
  "profile_name kind = (case kind of HierarchyGzipStoreV1 \<Rightarrow> ''fst-gzip-store-v1'' | InitialValueZlibFixedV1 \<Rightarrow> ''fst-zlib-fixed-rle-v1'')"

definition compress_fst_block :: "(nat \<Rightarrow> u32) \<Rightarrow> byte list \<Rightarrow> fst_compression_kind \<Rightarrow> nat \<Rightarrow> nat \<Rightarrow> fst_compression_result result" where
  "compress_fst_block kc input kind maximum_input maximum_output =
     (if maximum_input = 0 \<or> maximum_output = 0 \<or> length input > maximum_input then Inl Length_error
      else bind_result (case kind of HierarchyGzipStoreV1 \<Rightarrow> gzip_store input maximum_output
                          | InitialValueZlibFixedV1 \<Rightarrow> zlib_fixed input maximum_output) (\<lambda>bytes.
        Inr \<lparr>fst_bytes = bytes, profile_identity = profile_name kind,
             semantic_digest = sha256_hex (sha256_digest kc input), byte_digest = sha256_hex (sha256_digest kc bytes),
             platform_byte_identical = True, variability_reason = ''''\<rparr>))"

subsection \<open>The formats\<close>

text \<open>What the writers are meant to produce: a bounded append of the bytes of the format.\<close>

definition put_bytes :: "nat \<Rightarrow> byte list \<Rightarrow> byte list \<Rightarrow> byte list result" where
  "put_bytes maximum bytes out = (if length out + length bytes \<le> maximum then Inr (out @ bytes) else Inl Length_error)"

definition le16 :: "16 word \<Rightarrow> byte list" where
  "le16 v = [ucast v, ucast (drop_bit 8 v)]"

definition le32 :: "u32 \<Rightarrow> byte list" where
  "le32 v = [ucast v, ucast (drop_bit 8 v), ucast (drop_bit 16 v), ucast (drop_bit 24 v)]"

function stored :: "byte list \<Rightarrow> byte list" where
  "stored xs =
     (let n = min (length xs) block_bytes
      in [if n = length xs then 1 else 0] @ le16 (of_nat n) @ le16 (NOT (of_nat n)) @ take n xs @
         (if n < length xs then stored (drop n xs) else []))"
  by pat_completeness auto
termination by (relation "measure length") (auto simp: block_bytes_def)

declare stored.simps [simp del]

definition gzip_size :: "nat \<Rightarrow> nat" where
  "gzip_size n = 18 + n + 5 * max 1 ((n + 65534) div 65535)"

text \<open>A decoder of gzip files with stored blocks, as the format describes it.\<close>

definition of_le16 :: "byte \<Rightarrow> byte \<Rightarrow> 16 word" where
  "of_le16 a b = ucast a OR push_bit 8 (ucast b)"

function inflate_stored :: "byte list \<Rightarrow> (byte list \<times> byte list) option" where
  "inflate_stored bs =
     (if length bs < 5 then None
      else
        let n = unat (of_le16 (bs ! 1) (bs ! 2))
        in if of_le16 (bs ! 3) (bs ! 4) \<noteq> NOT (of_le16 (bs ! 1) (bs ! 2)) \<or> length bs < 5 + n then None
           else if bs ! 0 = 1 then Some (take n (drop 5 bs), drop (5 + n) bs)
           else if bs ! 0 = 0
           then (case inflate_stored (drop (5 + n) bs) of None \<Rightarrow> None | Some (d, r) \<Rightarrow> Some (take n (drop 5 bs) @ d, r))
           else None)"
  by pat_completeness auto
termination by (relation "measure length") auto

declare inflate_stored.simps [simp del]

text \<open>The bits of a byte, low bit first.\<close>

definition byte_bits :: "byte \<Rightarrow> bool list" where
  "byte_bits b = map (bit b) [0..<8]"

text \<open>
  The CRC of the format as a shift register over polynomials with binary coefficients: the register
  lists the coefficients of \<open>x\<^sup>3\<^sup>1\<close> down to \<open>x\<^sup>0\<close>, and a bit that leaves it, added to the next bit of the
  message, adds the generator.  The register starts with ones and is complemented at the end, and the
  format stores the coefficient of \<open>x\<^sup>3\<^sup>1\<close> as the lowest bit of the first byte.
\<close>

definition crc_generator :: "nat list" where
  "crc_generator = [26, 23, 22, 16, 12, 11, 10, 8, 7, 5, 4, 2, 1, 0]"

definition crc_shift :: "bool \<Rightarrow> bool list \<Rightarrow> bool list" where
  "crc_shift b register = map (\<lambda>k. (k < 31 \<and> register ! (k + 1)) \<noteq> (register ! 0 \<noteq> b \<and> 31 - k \<in> set crc_generator)) [0..<32]"

definition crc_remainder :: "byte list \<Rightarrow> bool list" where
  "crc_remainder message = map Not (fold crc_shift (concat (map byte_bits message)) (replicate 32 True))"

text \<open>
  The header names the format (31, 139), the method deflate (8), no optional field, no time, no extra
  flag and an unknown system (255).
\<close>

definition gunzip :: "byte list \<Rightarrow> byte list option" where
  "gunzip archive =
     (if take 10 archive \<noteq> [31, 139, 8, 0, 0, 0, 0, 0, 0, 255] then None
      else case inflate_stored (drop 10 archive) of
             None \<Rightarrow> None
           | Some (d, r) \<Rightarrow>
               if concat (map byte_bits (take 4 r)) = crc_remainder d \<and> drop 4 r = le32 (of_nat (length d)) then Some d else None)"

text \<open>The bits a writer has emitted, low bit of each byte first, and what keeps it well-formed.\<close>

definition written :: "deflate_bit_writer \<Rightarrow> bool list" where
  "written w = concat (map byte_bits (dw_output w)) @ map (bit (dw_current w)) [0..<dw_bit_count w]"

definition writer_ok :: "nat \<Rightarrow> deflate_bit_writer \<Rightarrow> bool" where
  "writer_ok maximum w \<longleftrightarrow> dw_bit_count w < 8 \<and> (\<forall>i. bit (dw_current w) i \<longrightarrow> i < dw_bit_count w) \<and> length (dw_output w) \<le> maximum"

subsection \<open>Bounded appends\<close>

lemma require_space_eq: "require_space out count maximum = (if length out + count \<le> maximum then Inr () else Inl Length_error)"
  by (auto simp: require_space_def)

lemma append_put:
  "append_u8 maximum v out = put_bytes maximum [v] out"
  "append_le16 maximum h out = put_bytes maximum (le16 h) out"
  "append_le32 maximum x out = put_bytes maximum (le32 x) out"
  by (simp_all add: append_u8_def append_le16_def append_le32_def require_space_eq put_bytes_def le16_def le32_def)

lemma put_put: "bind_result (put_bytes maximum xs out) (put_bytes maximum ys) = put_bytes maximum (xs @ ys) out"
  by (simp add: put_bytes_def)

lemma put_bind: "bind_result (put_bytes maximum xs out) (\<lambda>out. bind_result (put_bytes maximum ys out) f) = bind_result (put_bytes maximum (xs @ ys) out) f"
  by (simp add: put_bytes_def)

lemma space_put:
  "length xs = n \<Longrightarrow> bind_result (require_space out n maximum) (\<lambda>_. f (out @ xs)) = bind_result (put_bytes maximum xs out) f"
  by (simp add: require_space_eq put_bytes_def)

lemma put_then:
  assumes "\<And>o'. length o' \<le> maximum \<Longrightarrow> f o' = put_bytes maximum ys o'"
  shows "bind_result (put_bytes maximum xs out) f = put_bytes maximum (xs @ ys) out"
  using assms [of "out @ xs"] by (auto simp: put_bytes_def)

lemma gzip_blocks_put:
  "offset \<le> length input \<Longrightarrow> gzip_blocks maximum input offset out = put_bytes maximum (stored (drop offset input)) out"
proof (induction "length input - offset" arbitrary: offset out rule: less_induct)
  case less
  define xs where "xs = drop offset input"
  define n where "n = min (length xs) block_bytes"
  have lx: "length xs = length input - offset" by (simp add: xs_def)
  have len: "length (take n xs) = n" by (simp add: n_def)
  have final: "offset + n = length input \<longleftrightarrow> n = length xs" "offset + n < length input \<longleftrightarrow> n < length xs"
    using less.prems lx by auto
  have tail: "(if n < length xs then gzip_blocks maximum input (offset + n) o' else Inr o') =
      put_bytes maximum (if n < length xs then stored (drop n xs) else []) o'" if "length o' \<le> maximum" for o'
  proof (cases "n < length xs")
    case True
    then have "0 < n" by (auto simp: n_def block_bytes_def)
    then have "gzip_blocks maximum input (offset + n) o' = put_bytes maximum (stored (drop (offset + n) input)) o'"
      using less.hyps [of "offset + n" o'] True lx by simp
    with True show ?thesis by (simp add: xs_def add.commute)
  qed (use that in \<open>simp add: put_bytes_def\<close>)
  have "gzip_blocks maximum input offset out =
      bind_result (put_bytes maximum [if n = length xs then 1 else 0] out) (\<lambda>out.
      bind_result (put_bytes maximum (le16 (of_nat n)) out) (\<lambda>out.
      bind_result (put_bytes maximum (le16 (NOT (of_nat n))) out) (\<lambda>out.
      bind_result (put_bytes maximum (take n xs) out) (\<lambda>out.
        if n < length xs then gzip_blocks maximum input (offset + n) out else Inr out))))"
    unfolding gzip_blocks.simps [of maximum input offset] Let_def append_put lx [symmetric] n_def [symmetric] final xs_def [symmetric]
      space_put [OF len, symmetric] ..
  also have "\<dots> = put_bytes maximum (([if n = length xs then 1 else 0] @ le16 (of_nat n) @ le16 (NOT (of_nat n)) @ take n xs) @
      (if n < length xs then stored (drop n xs) else [])) out"
    unfolding put_bind by (rule put_then) (rule tail)
  also have "\<dots> = put_bytes maximum (stored xs) out"
    by (simp add: stored.simps [of xs] n_def [symmetric] Let_def)
  finally show ?case unfolding xs_def .
qed

lemma gzip_store_put:
  "gzip_store input maximum =
     (if length input > 2 ^ 32 - 1 then Inl Length_error
      else put_bytes maximum (gzip_header @ stored input @ le32 (crc32 input) @ le32 (of_nat (length input))) [])"
proof -
  have "bind_result (require_space [] 10 maximum) (\<lambda>_. f gzip_header) = bind_result (put_bytes maximum gzip_header []) f" for f :: "byte list \<Rightarrow> byte list result"
    using space_put [of gzip_header 10 "[]" maximum f] by (simp add: gzip_header_def)
  from this [of "\<lambda>h. bind_result (gzip_blocks maximum input 0 h) (\<lambda>out. bind_result (append_le32 maximum (crc32 input) out)
             (append_le32 maximum (of_nat (length input))))"]
  show ?thesis
    unfolding gzip_store_def append_put gzip_blocks_put [OF le0] drop_0 by (simp add: put_bind put_put append_put)
qed

lemma stored_length: "length (stored xs) = length xs + 5 * max 1 ((length xs + 65534) div 65535)"
proof (induction xs rule: stored.induct)
  case (1 xs)
  show ?case
  proof (cases "length xs \<le> 65535")
    case True
    have "(length xs + 65534) div 65535 \<le> 1" using True by simp
    then have "max 1 ((length xs + 65534) div 65535) = 1" by simp
    with True show ?thesis by (simp add: stored.simps [of xs] block_bytes_def Let_def le16_def)
  next
    case False
    define m where "m = length xs - 65535"
    have m: "length xs = m + 65535" "0 < m" using False by (simp_all add: m_def)
    have "(length xs + 65534) div 65535 = (m + 65534) div 65535 + 1" using m by simp
    moreover have "1 \<le> (m + 65534) div 65535" using m(2) by (simp add: div_greater_zero_iff Suc_le_eq)
    moreover have "length (stored (drop 65535 xs)) = m + 5 * max 1 ((m + 65534) div 65535)"
      using 1 [OF refl] m by (simp add: block_bytes_def)
    ultimately show ?thesis
      using m by (simp add: stored.simps [of xs] block_bytes_def Let_def le16_def)
  qed
qed

subsection \<open>Decoding\<close>

lemma of_le16_bytes: "of_le16 (ucast v) (ucast (drop_bit 8 v)) = v"
  by (rule bit_word_eqI) (auto simp: of_le16_def bit_or_iff bit_push_bit_iff bit_unsigned_iff bit_drop_bit_eq)

lemma inflate_five:
  assumes "of_le16 a b = v" "of_le16 a' b' = NOT v" "unat v = length d"
  shows "inflate_stored (f # a # b # a' # b' # d @ rest) =
    (if f = 1 then Some (d, rest)
     else if f = 0 then (case inflate_stored rest of None \<Rightarrow> None | Some (e, r) \<Rightarrow> Some (d @ e, r)) else None)"
proof -
  have five: "drop 5 (x # a # b # a' # b' # xs) = xs" for x xs by simp
  have "drop (5 + n) (x # a # b # a' # b' # xs) = drop n xs" for n x xs
    using drop_drop [of n 5 "x # a # b # a' # b' # xs"] five by (metis add.commute)
  with five assms show ?thesis by (cases "inflate_stored rest") (simp_all add: inflate_stored.simps [of "f # _"] Let_def case_prod_beta)
qed

lemma inflate_block:
  assumes "length d \<le> 65535"
  shows "inflate_stored ([f] @ le16 (of_nat (length d)) @ le16 (NOT (of_nat (length d))) @ d @ rest) =
    (if f = 1 then Some (d, rest)
     else if f = 0 then (case inflate_stored rest of None \<Rightarrow> None | Some (e, r) \<Rightarrow> Some (d @ e, r)) else None)"
proof -
  have "unat (of_nat (length d) :: 16 word) = length d" using assms by (simp add: unat_of_nat)
  from inflate_five [OF of_le16_bytes of_le16_bytes this] show ?thesis unfolding le16_def append.simps .
qed

lemma inflate_stored_stored: "inflate_stored (stored xs @ rest) = Some (xs, rest)"
proof (induction xs rule: stored.induct)
  case (1 xs)
  define n where "n = min (length xs) block_bytes"
  have n: "length (take n xs) = n" "n \<le> 65535" by (simp_all add: n_def block_bytes_def)
  have s: "stored xs @ rest = [if n = length xs then 1 else 0] @ le16 (of_nat (length (take n xs))) @ le16 (NOT (of_nat (length (take n xs)))) @
      take n xs @ ((if n < length xs then stored (drop n xs) else []) @ rest)"
    unfolding n(1) by (simp add: stored.simps [of xs] n_def [symmetric] Let_def)
  have d: "length (take n xs) \<le> 65535" using n by simp
  show ?case
  proof (cases "n < length xs")
    case True
    then have "inflate_stored (stored (drop n xs) @ rest) = Some (drop n xs, rest)" using 1 [OF n_def] by simp
    then show ?thesis unfolding s inflate_block [OF d] using True by simp
  next
    case False
    then have "n = length xs" by (simp add: n_def)
    then show ?thesis unfolding s inflate_block [OF d] by simp
  qed
qed

subsection \<open>The check sum\<close>

lemma crc_generator_bits: "k < 32 \<Longrightarrow> bit (0xedb88320 :: u32) k \<longleftrightarrow> 31 - k \<in> set crc_generator"
proof -
  have "list_all (\<lambda>k. bit (0xedb88320 :: u32) k \<longleftrightarrow> 31 - k \<in> set crc_generator) [0..<32]" by code_simp
  then show "k < 32 \<Longrightarrow> ?thesis" by (simp add: list_all_iff)
qed

lemma bit_crc32_bit: "bit (crc32_bit v) k \<longleftrightarrow> bit v (Suc k) \<noteq> (bit v 0 \<and> bit (0xedb88320 :: u32) k)"
proof (cases "bit v 0")
  case True
  then have "v AND 1 = 1" by (simp add: and_one_eq bit_0 odd_iff_mod_2_eq_one)
  then show ?thesis using True by (simp add: crc32_bit_def Let_def bit_xor_iff bit_drop_bit_eq)
next
  case False
  then have "v AND 1 = 0" by (simp add: and_one_eq bit_0 even_iff_mod_2_eq_zero)
  then show ?thesis using False by (simp add: crc32_bit_def Let_def bit_drop_bit_eq)
qed

lemma crc_shift_bit: "crc_shift b (map (bit v) [0..<32]) = map (bit (crc32_bit (v XOR of_bool b))) [0..<32]"
proof -
  have e: "bit (v XOR of_bool b) (Suc k) \<longleftrightarrow> k < 31 \<and> bit v (Suc k)" "bit (v XOR of_bool b) 0 \<longleftrightarrow> bit v 0 \<noteq> b" for k and v :: u32
    using bit_imp_le_length [of v "Suc k"] by (cases b; auto simp: bit_xor_iff bit_1_iff)+
  have "((k < 31 \<and> map (bit v) [0..<32] ! (k + 1)) \<noteq> (map (bit v) [0..<32] ! 0 \<noteq> b \<and> 31 - k \<in> set crc_generator)) \<longleftrightarrow>
      bit (crc32_bit (v XOR of_bool b)) k" if "k < 32" for k
    unfolding bit_crc32_bit e crc_generator_bits [OF that] by (cases "k < 31") simp_all
  then show ?thesis unfolding crc_shift_def by (intro map_cong) simp_all
qed

lemma crc32_bit_split: "crc32_bit (v XOR w) = crc32_bit (v XOR of_bool (bit w 0)) XOR drop_bit 1 w"
  by (rule bit_word_eqI) (auto simp: bit_crc32_bit bit_xor_iff bit_drop_bit_eq bit_of_bool_iff)

lemma crc32_byte: "(crc32_bit ^^ n) (v XOR w) = fold (\<lambda>b v. crc32_bit (v XOR of_bool b)) (map (bit w) [0..<n]) v XOR drop_bit n w"
proof (induction n)
  case (Suc n)
  then show ?case
    using crc32_bit_split [of "fold (\<lambda>b v. crc32_bit (v XOR of_bool b)) (map (bit w) [0..<n]) v" "drop_bit n w"]
    by (simp add: bit_drop_bit_eq)
qed simp

lemma fold_crc_shift: "fold crc_shift bs (map (bit v) [0..<32]) = map (bit (fold (\<lambda>b v. crc32_bit (v XOR of_bool b)) bs v)) [0..<32]"
  by (induction bs arbitrary: v) (simp_all add: crc_shift_bit)

lemma fold_crc_bytes:
  "fold crc_shift (concat (map byte_bits message)) (map (bit v) [0..<32]) =
   map (bit (fold (\<lambda>byte v. (crc32_bit ^^ 8) (v XOR ucast byte)) message v)) [0..<32]"
proof (induction message arbitrary: v)
  case (Cons b message)
  have "map (bit (ucast b :: u32)) [0..<8] = byte_bits b" by (simp add: byte_bits_def bit_unsigned_iff)
  moreover have "drop_bit 8 (ucast b :: u32) = 0" by (rule bit_word_eqI) (auto simp: bit_drop_bit_eq bit_unsigned_iff dest: bit_imp_le_length)
  ultimately have "fold (\<lambda>b v. crc32_bit (v XOR of_bool b)) (byte_bits b) v = (crc32_bit ^^ 8) (v XOR ucast b)"
    using crc32_byte [of 8 v "ucast b"] by simp
  then show ?case using Cons.IH by (simp add: fold_crc_shift)
qed simp

lemma le32_bits: "concat (map byte_bits (le32 v)) = map (bit v) [0..<32]"
proof -
  have "concat (map byte_bits (le32 v)) = map (\<lambda>k. bit v k) ([0..<8] @ map ((+) 8) [0..<8] @ map ((+) 16) [0..<8] @ map ((+) 24) [0..<8])"
    by (simp add: le32_def byte_bits_def bit_unsigned_iff bit_drop_bit_eq)
  also have "[0..<8] @ map ((+) 8) [0..<8] @ map ((+) 16) [0..<8] @ map ((+) 24) [0..<8] = [0..<32]" by code_simp
  finally show ?thesis .
qed

lemma crc32_remainder: "concat (map byte_bits (le32 (crc32 message))) = crc_remainder message"
proof -
  have "replicate 32 True = map (bit (0xffffffff :: u32)) [0..<32]" by code_simp
  then show ?thesis
    by (simp add: le32_bits crc_remainder_def crc32_def fold_crc_bytes bit_not_iff)
qed

text \<open>
  C6: The gzip writer is exact about its limits and loses nothing: it returns an archive exactly when
  the input fits the size field and the archive, whose length is given in closed form, fits the output
  limit, throwing \<^verbatim>\<open>std::length_error\<close> otherwise; and decoding the archive (header, stored blocks with
  complemented lengths, CRC by polynomial division and size) gives back the input.
\<close>

theorem gzip_store_roundtrip:
  "if length input \<le> 2 ^ 32 - 1 \<and> gzip_size (length input) \<le> maximum
   then \<exists>archive. gzip_store input maximum = Inr archive \<and> length archive = gzip_size (length input) \<and> gunzip archive = Some input
   else gzip_store input maximum = Inl Length_error"
proof -
  define archive where "archive = gzip_header @ stored input @ le32 (crc32 input) @ le32 (of_nat (length input))"
  have len: "length archive = gzip_size (length input)"
    by (simp add: archive_def gzip_size_def stored_length gzip_header_def le32_def)
  have "take 10 archive = [31, 139, 8, 0, 0, 0, 0, 0, 0, 255]" "drop 10 archive = stored input @ (le32 (crc32 input) @ le32 (of_nat (length input)))"
    by (simp_all add: archive_def gzip_header_def)
  moreover have "take 4 (le32 c @ t) = le32 c" "drop 4 (le32 c @ t) = t" for c t by (simp_all add: le32_def)
  ultimately have "gunzip archive = Some input"
    unfolding gunzip_def by (simp only: inflate_stored_stored option.case prod.case simp_thms if_True if_False crc32_remainder)
  with len show ?thesis unfolding gzip_store_put archive_def [symmetric] by (auto simp: put_bytes_def)
qed

subsection \<open>The bit writer\<close>

lemma merged_bits:
  fixes cur :: byte and v :: u32
  assumes "k + c \<le> 8" "\<And>i. bit cur i \<Longrightarrow> i < k"
  shows "bit (cur OR ucast (push_bit k (v AND (push_bit c 1 - 1)))) i \<longleftrightarrow> (if i < k then bit cur i else i < k + c \<and> bit v (i - k))"
proof -
  have m: "(push_bit c 1 - 1 :: u32) = mask c" by (simp add: mask_eq_exp_minus_1 push_bit_eq_mult)
  show ?thesis
    unfolding m using assms by (auto simp: bit_or_iff bit_unsigned_iff bit_push_bit_iff bit_and_iff bit_mask_iff dest: bit_imp_le_length)
qed

lemma append_bits_split:
  fixes v :: u32
  assumes "c \<le> count"
  shows "map (bit v) [0..<count] = map (bit v) [0..<c] @ map (bit (drop_bit c v)) [0..<count - c]"
  by (rule nth_equalityI) (use assms in \<open>auto simp: nth_append bit_drop_bit_eq\<close>)

text \<open>
  C10: The bit writer of the deflate stream appends exactly the requested low bits of a code, lowest
  first, after the bits written so far; it keeps fewer than eight bits pending with no stray bit
  above them, and throws exactly when the completed bytes no longer fit the limit.
\<close>

theorem deflate_append_bits:
  assumes "writer_ok maximum w"
  shows "if length (dw_output w) + (dw_bit_count w + count) div 8 \<le> maximum
    then \<exists>u. deflate_append maximum v count w = Inr u \<and> writer_ok maximum u \<and> written u = written w @ map (bit v) [0..<count]
    else deflate_append maximum v count w = Inl Length_error"
  using assms
proof (induction count arbitrary: v w rule: less_induct)
  case (less count)
  define k c cur where "k = dw_bit_count w" and "c = min count (8 - k)" and
    "cur = dw_current w OR ucast (push_bit k (v AND (push_bit c 1 - 1)))"
  have w: "k < 8" "\<And>i. bit (dw_current w) i \<Longrightarrow> i < k" "length (dw_output w) \<le> maximum"
    using less.prems by (auto simp: writer_ok_def k_def)
  have kc: "k + c \<le> 8" "c \<le> count" by (simp_all add: c_def) (use w(1) in simp)
  have cur: "bit cur i \<longleftrightarrow> (if i < k then bit (dw_current w) i else i < k + c \<and> bit v (i - k))" for i
    unfolding cur_def by (rule merged_bits [OF kc(1) w(2)])
  have bits: "map (bit cur) [0..<k + c] = map (bit (dw_current w)) [0..<k] @ map (bit v) [0..<c]"
    by (rule nth_equalityI) (auto simp: nth_append cur)
  show ?case
  proof (cases "count = 0")
    case True
    then show ?thesis using less.prems w by (simp add: deflate_append.simps [of maximum v 0] k_def)
  next
    case False
    then have pos: "0 < c" using w(1) by (simp add: c_def)
    have step: "deflate_append maximum v count w =
        (if k + c = 8 then bind_result (put_bytes maximum [cur] (dw_output w)) (\<lambda>out. deflate_append maximum (drop_bit c v) (count - c)
               \<lparr>dw_output = out, dw_current = 0, dw_bit_count = 0\<rparr>)
         else deflate_append maximum (drop_bit c v) (count - c) (w\<lparr>dw_current := cur, dw_bit_count := k + c\<rparr>))"
      unfolding deflate_append.simps [of maximum v count w] Let_def append_put k_def [symmetric] c_def [symmetric] cur_def [symmetric]
      using False w(1) by (simp add: bind_result_def)
    have fewer: "count - c < count" using pos False by simp
    show ?thesis
    proof (cases "k + c = 8")
      case True
      define u where "u = \<lparr>dw_output = dw_output w @ [cur], dw_current = 0, dw_bit_count = 0\<rparr>"
      have size: "(k + count) div 8 = 1 + (count - c) div 8"
      proof -
        have "k + count = 8 + (count - c)" using True kc by simp
        then show ?thesis by simp
      qed
      have wu: "written u = written w @ map (bit v) [0..<c]"
        using bits True by (simp add: written_def u_def byte_bits_def k_def)
      show ?thesis
      proof (cases "length (dw_output w) + 1 \<le> maximum")
        case fits: True
        have "writer_ok maximum u" using fits by (simp add: writer_ok_def u_def)
        from less.IH [OF fewer this, of "drop_bit c v"] show ?thesis
          using True fits wu append_bits_split [OF kc(2), of v]
          unfolding step k_def [symmetric] size by (auto simp: put_bytes_def u_def split: if_splits)
      next
        case False
        then show ?thesis using True unfolding step k_def [symmetric] size by (simp add: put_bytes_def)
      qed
    next
      case False
      then have small: "k + c < 8" "c = count" using kc by (auto simp: c_def)
      define u where "u = w\<lparr>dw_current := cur, dw_bit_count := k + c\<rparr>"
      have "deflate_append maximum v count w = Inr u"
        using False small unfolding step by (simp add: deflate_append.simps [of maximum _ 0] u_def)
      moreover have "writer_ok maximum u" using small(1) w(2,3) by (auto simp: writer_ok_def u_def cur split: if_splits)
      moreover have "written u = written w @ map (bit v) [0..<count]"
        using bits small(2) by (simp add: written_def u_def k_def)
      ultimately show ?thesis using w(3) small by (simp add: k_def)
    qed
  qed
qed

theorem deflate_append_bits_witness:
  "\<exists>u. deflate_append 10 5 3 \<lparr>dw_output = [], dw_current = 0, dw_bit_count = 0\<rparr> = Inr u \<and> writer_ok 10 u \<and>
     written u = [] @ map (bit (5 :: u32)) [0..<3]"
  using deflate_append_bits [of 10 "\<lparr>dw_output = [], dw_current = 0, dw_bit_count = 0\<rparr>" 3 5]
  by (simp add: writer_ok_def written_def)

end
