(* ===== verification/Spec2Isabelle.thy ===== *)
theory Spec2Isabelle
  imports Integer_Arithmetic Simir_Shifts Cancellation_Slots Fst_Compression
begin

text \<open>
  A verification library for the value layer and some self-contained runtime services of fsim, a
  simulator for VHDL, SystemVerilog and SystemC.

  \<^bold>\<open>The program.\<close>  The frontends (\<^verbatim>\<open>src/src/frontend\<close>) parse the languages, the semantic and
  elaboration layers (\<^verbatim>\<open>src/src/semantic\<close>, \<^verbatim>\<open>src/src/elaboration\<close>) build SimIR processes, and the
  runtime (\<^verbatim>\<open>src/src/runtime\<close>) executes them.  Every signal, variable and intermediate result of a
  SimIR process is a packed value: a vector of four-state (0, 1, X, Z) or nine-state (std_logic)
  elements stored in bit planes of 64-bit words.  The interpreter evaluates operators on packed
  values through \<^verbatim>\<open>simir_logic.cpp\<close> and \<^verbatim>\<open>simir_arithmetic.cpp\<close>; those, and the static
  kernel, use the single-word routines of \<^verbatim>\<open>simir_kernel_word_ops.hpp\<close> for values of at most 64
  elements.  Values of several drivers of a net are resolved in \<^verbatim>\<open>packed_value.cpp\<close>.  This library
  covers that value layer, and three services beside it: the table of cancelable task handles the
  scheduler issues, the digests and payload checksums that protect stored artifacts, and the
  compressors of the FST waveform writer.

  \<^bold>\<open>Theories and sources.\<close>
  \<^item> \<^verbatim>\<open>Prelude\<close>: result type of throwing code, counting loops and their invariant rules, word facts.
  \<^item> \<^verbatim>\<open>Logic_Values\<close> (\<^verbatim>\<open>include/fsim/runtime/logic.hpp\<close>): the scalar types, characters,
    conversions, operator tables, and resolution of drivers.
  \<^item> \<^verbatim>\<open>Plane_Words\<close> (\<^verbatim>\<open>packed_value.cpp\<close>, anonymous namespace): word counts, masks, single bits
    and unaligned bit-range copies.
  \<^item> \<^verbatim>\<open>Packed_Vectors\<close> (\<^verbatim>\<open>PackedBit2\<close>, \<^verbatim>\<open>PackedLogic9\<close>): a record per class, an operation per
    member function.
  \<^item> \<^verbatim>\<open>Packed_Logic4\<close>, \<^verbatim>\<open>Packed_Ops\<close>, \<^verbatim>\<open>Packed_Resolve\<close> (\<^verbatim>\<open>PackedLogic4\<close>): the transport value
    that is four-state until a nine-state element is stored; ranges, words, strings, numeric
    readings and conversions; word-parallel resolution and the allocation-free accumulator.
  \<^item> \<^verbatim>\<open>Value_Views\<close>: no code; a packed value seen as a width and a function from positions to
    elements, and as a number.
  \<^item> \<^verbatim>\<open>Operator_Spec\<close> (the enumerations of \<^verbatim>\<open>simir.hpp\<close>): what each SimIR operator means on
    such views.
  \<^item> \<^verbatim>\<open>Kernel_Word\<close> (\<^verbatim>\<open>simir_kernel_word_ops.hpp\<close>): operators on one aval and one bval word.
  \<^item> \<^verbatim>\<open>Simir_Logic\<close> (\<^verbatim>\<open>simir_logic.cpp\<close>), \<^verbatim>\<open>Simir_Arithmetic\<close> and \<^verbatim>\<open>Integer_Arithmetic\<close>
    (\<^verbatim>\<open>simir_arithmetic.cpp\<close>): the operators on packed values and VHDL integers;
    \<^verbatim>\<open>Simir_Shifts\<close> holds the correctness of the shifts.
  \<^item> \<^verbatim>\<open>Cancellation_Slots\<close> (\<^verbatim>\<open>CancellationSlots\<close> in \<^verbatim>\<open>scheduler_internal.hpp\<close>): the slot table
    with its free list and generation counters, and the histories of acquisitions and releases.
  \<^item> \<^verbatim>\<open>Digests\<close> (\<^verbatim>\<open>src/support/sha256.cpp\<close>, \<^verbatim>\<open>src/support/payload_checksum.cpp\<close>): the SHA-256
    and XXH64 streaming states, their spellings, and the checksum verifier.
  \<^item> \<^verbatim>\<open>Fst_Compression\<close> (\<^verbatim>\<open>src/runtime/fst_compression.cpp\<close>): the gzip and zlib writers with their
    byte limits, check sums and bit writer.

  \<^bold>\<open>Correspondence.\<close>  A 64-bit word is a \<^verbatim>\<open>64 word\<close>; \<^verbatim>\<open>std::size_t\<close> is a natural number with
  the overflow tests of the code written out against \<^verbatim>\<open>size_max\<close>; \<^verbatim>\<open>std::int64_t\<close> is an integer,
  which is sound because the modelled code checks ranges before it computes.  A throw is \<open>Inl\<close> of
  the exception class.  Loops are folds over their index range, so every definition is total, and
  no fuel is used; the loops with a data-dependent bound (square-and-multiply on VHDL integers, the
  block and run loops of the digests and compressors) have a termination proof.  Element accessors that the code calls without a range check are total
  functions whose lemmas assume the index in range.

  \<^bold>\<open>What is proved.\<close>
  \<^item> Scalars: resolution is independent of the driver order and, except for a single driver, which passes
    through, follows the strength order; the conversions between four and nine states are
    homomorphisms for the operators; characters round trip.
  \<^item> Packed values: the well-formedness predicates (unused high bits are zero, no invalid element
    code) are preserved; element, range and masked-word updates change exactly the selected
    elements; equality is equality of elements; strings and conversions round trip; numeric
    readings succeed exactly when the value is known and fits.
  \<^item> Resolution: each of the three word-parallel paths agrees with scalar resolution in every
    element, and the accumulator with the packed resolution.  The locales \<^verbatim>\<open>packed_vector\<close> (what
    an element store promises its loops) and \<^verbatim>\<open>driver_resolution\<close> (what resolution needs of a
    table) are interpreted on the code's types and tables.
  \<^item> Operators: the word kernel meets \<^verbatim>\<open>Operator_Spec\<close> for all binary operators and shifts;
    the bit-serial adder, subtractor, multiplier, power and restoring division compute the
    arithmetic modulo \<open>2 ^ w\<close>; \<^verbatim>\<open>binary_value\<close> meets the specification at every width and its fast
    path returns the value of the reference loops; shifts and rotations of any width by amounts of any
    width, truth values, reductions, counts and the conditional operator are the specified ones;
    concatenation joins the elements of its operands.  VHDL matching equality is covered where its result
    is known; on metavalues without a differing pair the code gives X or U, against a comment in
    \<^verbatim>\<open>simir.hpp\<close>, as \<^verbatim>\<open>vhdl_match_metavalue\<close> shows.
  \<^item> Integers: the checked operators, square-and-multiply power included, and the subtype range check
    are exact, and throw on every overflow.  The code also refuses the remainder and modulus of the least
    number by \<open>-1\<close>, whose result 0 is in range (\<^verbatim>\<open>least_remainder_refused\<close>).
  \<^item> Task handles: the table refines a finite map from issued handles to tasks; no handle is issued
    twice, stale and forged handles have no effect, and a slot whose counter is exhausted retires.
  \<^item> Digests: feeding the pieces of a message gives the digest of the whole, for both algorithms
    through the locale \<^verbatim>\<open>streaming_digest\<close>; the SHA-256 state machine computes the iteration over
    the padded message; the hexadecimal spelling round trips; the verifier accepts exactly the
    recorded checksum.  No cryptographic strength is claimed.
  \<^item> Compression: the gzip writer succeeds exactly when the archive fits its limit and decoding
    returns the input, with a decoder that has its own header bytes and computes the CRC by polynomial
    division; the bit writer appends exactly the bits of each code.

  \<^bold>\<open>Modelled without a top-level theorem.\<close>  Bitwise negation and the range wrappers of
  \<^verbatim>\<open>Simir_Logic\<close>, shifts of nine-state values, the nine-state
  word helpers of \<^verbatim>\<open>Kernel_Word\<close>, the known-bits path of \<^verbatim>\<open>binary_value\<close> for nine-state operands,
  and the fixed-code run-length compressor \<^verbatim>\<open>zlib_fixed\<close> above its bit writer.

  \<^bold>\<open>Not modelled.\<close>  Where the words of a packed value live (inline, heap, pinned snapshot,
  component backing) and their moves, since the operations read and write words only; the dynamic
  index and part-select helpers; net-level resolution with strengths and user resolution functions
  in \<^verbatim>\<open>simir_scheduling_commit.cpp\<close>; the scheduler around the handle table, the SHA-256 block function
  in processor instructions (an alternative to the portable one) and the values of its round
  constants (a parameter, on which nothing proved depends), the interpreter and the static kernel; the
  language frontends, elaboration and semantic analysis; the waveform writers above the compressor,
  coverage, constraint solving, UVM, VPI, VHPI, DPI and SystemC bridges; and the I/O, platform and database code.
\<close>

end
